(* ===== verification/Prelude.thy ===== *)
theory Prelude
  imports Main "HOL-Library.Word"
begin

text \<open>
  Shared vocabulary of the development: Go's basic types as HOL types, the outcome of
  an operation that may block or panic, Go's \<open>select\<close>, fixed-width signed
  arithmetic, and the generic list and map lemmas that several components use.
  Nothing here is specific to one source file.
\<close>

section \<open>Types\<close>

text \<open>
  A Go \<open>string\<close> is a byte sequence; it is a HOL \<open>string\<close> (a list of 8-bit
  characters) where it is text, and a list of 8-bit words where it is wire data.
  A Go \<open>int\<close> or \<open>int64\<close> whose overflow does not matter is an \<open>int\<close>.
\<close>

type_synonym byte = "8 word"
type_synonym bytes = "byte list"
type_synonym gostring = string

named_theorems outcome_simps \<open>elimination of blocking and panicking outcomes\<close>
named_theorems wf_intros \<open>introduction rules of the components' invariants\<close>
named_theorems frame_simps \<open>fields an operation leaves alone\<close>

text \<open>The token comparison of the tunnel turns a string into bytes: \<open>[]byte(s)\<close>.\<close>

definition byte_of_char :: "char \<Rightarrow> byte" where
  "byte_of_char c = word_of_nat (of_char c)"

definition bytes_of_string :: "gostring \<Rightarrow> bytes" where
  "bytes_of_string s = map byte_of_char s"

lemma unat_byte_of_char: "unat (byte_of_char c) = of_char c"
proof -
  have "(of_char c :: nat) < 256" by simp
  then show ?thesis by (simp add: byte_of_char_def unsigned_of_nat take_bit_nat_eq_self)
qed

lemma byte_of_char_inject [simp]: "byte_of_char c = byte_of_char d \<longleftrightarrow> c = d"
proof
  assume "byte_of_char c = byte_of_char d"
  then have "(of_char c :: nat) = of_char d" by (metis unat_byte_of_char)
  then show "c = d" by simp
qed simp

lemma bytes_of_string_inject [simp]: "bytes_of_string s = bytes_of_string t \<longleftrightarrow> s = t"
  by (simp add: bytes_of_string_def inj_map_eq_map inj_def)

lemma length_bytes_of_string [simp]: "length (bytes_of_string s) = length s"
  by (simp add: bytes_of_string_def)

section \<open>Outcomes\<close>

text \<open>
  An operation of a goroutine returns, blocks (no case of its \<open>select\<close> or channel
  operation is ready) or panics (a send on, or a close of, a closed channel).
\<close>

datatype 'a outcome = Done 'a | Blocked | Panic

fun bind_outcome :: "'a outcome \<Rightarrow> ('a \<Rightarrow> 'b outcome) \<Rightarrow> 'b outcome" where
  "bind_outcome (Done x) f = f x"
| "bind_outcome Blocked f = Blocked"
| "bind_outcome Panic f = Panic"

lemma bind_outcome_Done [outcome_simps]:
  "bind_outcome m f = Done y \<longleftrightarrow> (\<exists>x. m = Done x \<and> f x = Done y)"
  by (cases m) auto

lemma bind_outcome_Panic [outcome_simps]:
  "bind_outcome m f = Panic \<longleftrightarrow> m = Panic \<or> (\<exists>x. m = Done x \<and> f x = Panic)"
  by (cases m) auto

text \<open>
  Go's \<open>select\<close> takes any of the ready cases. \<open>select_ready pick rs\<close> is the
  case taken when the runtime's random choice is \<open>pick\<close>; with no ready case and no
  \<open>default\<close> the goroutine blocks. A statement for every \<open>pick\<close> covers every
  choice the runtime can make.
\<close>

definition select_ready :: "nat \<Rightarrow> 'a list \<Rightarrow> 'a option" where
  "select_ready pick rs = (if rs = [] then None else Some (rs ! (pick mod length rs)))"

lemma select_ready_in: "select_ready pick rs = Some r \<Longrightarrow> r \<in> set rs"
  by (auto simp: select_ready_def split: if_splits)

lemma select_ready_None [simp]: "select_ready pick rs = None \<longleftrightarrow> rs = []"
  by (simp add: select_ready_def)

lemma select_ready_Nil [simp]: "select_ready pick [] = None"
  by (simp add: select_ready_def)

lemma select_ready_single [simp]: "select_ready pick [r] = Some r"
  by (simp add: select_ready_def)

lemma select_ready_covers: "r \<in> set rs \<Longrightarrow> \<exists>pick. select_ready pick rs = Some r"
  by (metis in_set_conv_nth length_pos_if_in_set mod_less select_ready_def length_greater_0_conv)

section \<open>Fixed-width integers\<close>

text \<open>\<open>wrap64\<close> is the value a signed 64-bit Go operation leaves: two's complement.\<close>

definition wrap64 :: "int \<Rightarrow> int" where
  "wrap64 x = (x + 2 ^ 63) mod 2 ^ 64 - 2 ^ 63"

lemma wrap64_id [simp]: "- (2 ^ 63) \<le> x \<Longrightarrow> x < 2 ^ 63 \<Longrightarrow> wrap64 x = x"
  by (simp add: wrap64_def)

lemma wrap64_range: "- (2 ^ 63) \<le> wrap64 x \<and> wrap64 x < 2 ^ 63"
  by (simp add: wrap64_def)

lemma wrap64_add_left [simp]: "wrap64 (wrap64 x + y) = wrap64 (x + y)"
  by (simp add: wrap64_def algebra_simps mod_simps)

lemma wrap64_add_right [simp]: "wrap64 (x + wrap64 y) = wrap64 (x + y)"
  using wrap64_add_left [of y x] by (simp add: add.commute)

section \<open>Lists and maps\<close>

lemma nth_append_fresh [simp]: "i < length xs \<Longrightarrow> (xs @ [x]) ! i = xs ! i"
  by (simp add: nth_append)

lemma map_upd_idem_iff: "(m(k \<mapsto> v)) k' = Some w \<longleftrightarrow> (k' = k \<and> w = v) \<or> (k' \<noteq> k \<and> m k' = Some w)"
  by auto

lemma map_del_iff: "(m(k := None)) k' = Some w \<longleftrightarrow> k' \<noteq> k \<and> m k' = Some w"
  by auto

lemma finite_dom_upd [simp]: "finite (dom m) \<Longrightarrow> finite (dom (m(k \<mapsto> v)))"
  by simp

lemma finite_dom_del [simp]: "finite (dom m) \<Longrightarrow> finite (dom (m(k := None)))"
  by (simp add: dom_fun_upd)

text \<open>\<open>delete\<close> from a Go map of every key whose value satisfies a test.\<close>

definition map_drop :: "('v \<Rightarrow> bool) \<Rightarrow> ('k \<rightharpoonup> 'v) \<Rightarrow> ('k \<rightharpoonup> 'v)" where
  "map_drop P m = (\<lambda>k. case m k of None \<Rightarrow> None | Some v \<Rightarrow> if P v then None else Some v)"

lemma map_drop_Some [simp]: "map_drop P m k = Some v \<longleftrightarrow> m k = Some v \<and> \<not> P v"
  by (auto simp: map_drop_def split: option.splits)

lemma map_drop_None: "map_drop P m k = None \<longleftrightarrow> (\<forall>v. m k = Some v \<longrightarrow> P v)"
  by (auto simp: map_drop_def split: option.splits)

lemma dom_map_drop: "dom (map_drop P m) \<subseteq> dom m"
  by (auto simp: dom_def)

section \<open>State machines\<close>

text \<open>
  The contract every component's invariant meets: it holds at the start and every step keeps
  it. What follows is proved once, here: it holds in every state a run reaches, and so does
  anything it implies.
\<close>

locale state_machine =
  fixes start :: "'s \<Rightarrow> bool"
    and step :: "'s \<Rightarrow> 's \<Rightarrow> bool"
    and inv :: "'s \<Rightarrow> bool"
  assumes inv_start: "start s \<Longrightarrow> inv s"
    and inv_step: "inv s \<Longrightarrow> step s t \<Longrightarrow> inv t"
begin

lemma inv_run: "step\<^sup>*\<^sup>* s t \<Longrightarrow> inv s \<Longrightarrow> inv t"
  by (induction rule: rtranclp_induct) (blast intro: inv_step)+

lemma reachable_inv: "start s \<Longrightarrow> step\<^sup>*\<^sup>* s t \<Longrightarrow> inv t"
  using inv_start inv_run by blast

lemma reachable_safe: "start s \<Longrightarrow> step\<^sup>*\<^sup>* s t \<Longrightarrow> (\<And>u. inv u \<Longrightarrow> Q u) \<Longrightarrow> Q t"
  using reachable_inv by blast

end

text \<open>A machine with a predicate no step undoes once it holds.\<close>

locale stable_machine = state_machine +
  fixes stuck :: "'s \<Rightarrow> bool"
  assumes stuck_step: "inv s \<Longrightarrow> stuck s \<Longrightarrow> step s t \<Longrightarrow> stuck t"
begin

lemma stuck_run: "step\<^sup>*\<^sup>* s t \<Longrightarrow> inv s \<Longrightarrow> stuck s \<Longrightarrow> stuck t \<and> inv t"
  by (induction rule: rtranclp_induct) (auto intro: inv_step stuck_step)

end

end
