(* ===== verification/GoStrings.thy ===== *)
theory GoStrings
  imports Prelude
begin

text \<open>
  The functions of Go's \<open>strings\<close>, \<open>strconv\<close> and \<open>fmt\<close> packages that the
  sources call, on byte strings. Case folding and trimming treat ASCII as Go does; a
  character outside ASCII is left alone (Go's \<open>ToLower\<close> and \<open>TrimSpace\<close> also
  know the Unicode letters and spaces, which no identifier of the gateway uses).
\<close>

section \<open>Searching and cutting\<close>

definition HasPrefix :: "gostring \<Rightarrow> gostring \<Rightarrow> bool" where
  "HasPrefix s p \<longleftrightarrow> take (length p) s = p"

definition TrimPrefix :: "gostring \<Rightarrow> gostring \<Rightarrow> gostring" where
  "TrimPrefix s p = (if HasPrefix s p then drop (length p) s else s)"

definition TrimSuffix :: "gostring \<Rightarrow> gostring \<Rightarrow> gostring" where
  "TrimSuffix s p = (if HasPrefix (rev s) (rev p) then take (length s - length p) s else s)"

fun Contains :: "gostring \<Rightarrow> gostring \<Rightarrow> bool" where
  "Contains [] p \<longleftrightarrow> p = []"
| "Contains (c # s) p \<longleftrightarrow> HasPrefix (c # s) p \<or> Contains s p"

text \<open>\<open>strings.Split(s, sep)\<close> and \<open>strings.Cut(s, sep)\<close> for a one-byte separator.\<close>

fun Split :: "gostring \<Rightarrow> char \<Rightarrow> gostring list" where
  "Split [] sep = [[]]"
| "Split (c # s) sep =
     (if c = sep then [] # Split s sep
      else (case Split s sep of [] \<Rightarrow> [[c]] | w # ws \<Rightarrow> (c # w) # ws))"

fun Cut :: "gostring \<Rightarrow> char \<Rightarrow> (gostring \<times> gostring) option" where
  "Cut [] sep = None"
| "Cut (c # s) sep =
     (if c = sep then Some ([], s)
      else map_option (\<lambda>(b, a). (c # b, a)) (Cut s sep))"

fun Join :: "gostring list \<Rightarrow> gostring \<Rightarrow> gostring" where
  "Join [] sep = []"
| "Join [s] sep = s"
| "Join (s # t # ts) sep = s @ sep @ Join (t # ts) sep"

definition isSpace :: "char \<Rightarrow> bool" where
  "isSpace c \<longleftrightarrow> (of_char c :: nat) \<in> {9, 10, 11, 12, 13, 32}"

definition TrimSpace :: "gostring \<Rightarrow> gostring" where
  "TrimSpace s = rev (dropWhile isSpace (rev (dropWhile isSpace s)))"

definition lower_char :: "char \<Rightarrow> char" where
  "lower_char c = (if 65 \<le> (of_char c :: nat) \<and> (of_char c :: nat) \<le> 90
                   then char_of ((of_char c :: nat) + 32) else c)"

definition ToLower :: "gostring \<Rightarrow> gostring" where
  "ToLower s = map lower_char s"

section \<open>Numbers\<close>

definition digit_char :: "nat \<Rightarrow> char" where
  "digit_char d = char_of (48 + d)"

fun nat_digits :: "nat \<Rightarrow> gostring" where
  "nat_digits n = (if n < 10 then [digit_char n] else nat_digits (n div 10) @ [digit_char (n mod 10)])"

declare nat_digits.simps [simp del]

text \<open>\<open>%d\<close>\<close>

definition string_of_nat :: "nat \<Rightarrow> gostring" where
  "string_of_nat n = nat_digits n"

definition string_of_int :: "int \<Rightarrow> gostring" where
  "string_of_int i = (if i < 0 then CHR ''-'' # nat_digits (nat (- i)) else nat_digits (nat i))"

definition is_digit :: "char \<Rightarrow> bool" where
  "is_digit c \<longleftrightarrow> 48 \<le> (of_char c :: nat) \<and> (of_char c :: nat) \<le> 57"

definition digits_value :: "gostring \<Rightarrow> int" where
  "digits_value s = foldl (\<lambda>acc c. 10 * acc + int (of_char c - 48)) 0 s"

text \<open>\<open>strconv.Atoi\<close>: an optional sign, at least one digit, a value in the range of
  \<open>int\<close> (64 bits).\<close>

definition Atoi :: "gostring \<Rightarrow> int option" where
  "Atoi s =
     (let (neg, ds) = (case s of [] \<Rightarrow> (False, s)
                       | c # r \<Rightarrow> if c = CHR ''-'' then (True, r)
                                  else if c = CHR ''+'' then (False, r) else (False, s));
          v = (if neg then - digits_value ds else digits_value ds)
      in if ds \<noteq> [] \<and> list_all is_digit ds \<and> - (2 ^ 63) \<le> v \<and> v < 2 ^ 63 then Some v else None)"

text \<open>\<open>%02x\<close> of each byte, as \<open>%032x\<close> and \<open>hex.EncodeToString\<close> print them.\<close>

definition hexChars :: gostring where
  "hexChars = ''0123456789abcdef''"

definition hex_byte :: "byte \<Rightarrow> gostring" where
  "hex_byte b = [hexChars ! (unat b div 16), hexChars ! (unat b mod 16)]"

definition hex_bytes :: "bytes \<Rightarrow> gostring" where
  "hex_bytes bs = concat (map hex_byte bs)"

section \<open>Facts\<close>

lemma HasPrefix_append [simp]: "HasPrefix (p @ s) p"
  by (simp add: HasPrefix_def)

lemma HasPrefix_iff: "HasPrefix s p \<longleftrightarrow> (\<exists>r. s = p @ r)"
  by (auto simp: HasPrefix_def) (metis append_take_drop_id)

lemma TrimPrefix_append [simp]: "TrimPrefix (p @ s) p = s"
  by (simp add: TrimPrefix_def)

lemma HasPrefix_TrimPrefix: "HasPrefix s p \<Longrightarrow> p @ TrimPrefix s p = s"
  by (auto simp: HasPrefix_iff)

lemma Join_Cons: "ts \<noteq> [] \<Longrightarrow> Join (s # ts) sep = s @ sep @ Join ts sep"
  by (cases ts) auto

lemma Join_eq_Nil: "Join ts sep = [] \<longleftrightarrow> (\<forall>t \<in> set ts. t = []) \<and> (sep = [] \<or> length ts \<le> 1)"
proof (induction ts)
  case (Cons t ts)
  then show ?case by (cases ts) auto
qed simp

lemma Split_not_Nil [simp]: "Split s sep \<noteq> []"
  by (cases s) (auto split: list.splits)

lemma Split_Join: "Join (Split s sep) [sep] = s"
proof (induction s)
  case (Cons c s)
  then show ?case
    by (cases "Split s sep") (auto simp: Join_Cons, cases "tl (Split s sep)", auto)
qed simp

lemma Split_no_sep: "w \<in> set (Split s sep) \<Longrightarrow> sep \<notin> set w"
proof (induction s arbitrary: w)
  case (Cons c s)
  then show ?case by (fastforce split: if_splits list.splits)
qed simp

lemma Cut_Some: "Cut s sep = Some (b, a) \<longleftrightarrow> s = b @ sep # a \<and> sep \<notin> set b"
proof (induction s arbitrary: b)
  case (Cons c s)
  show ?case
  proof (cases "c = sep")
    case True
    then show ?thesis by (cases b) auto
  next
    case False
    then show ?thesis using Cons by (cases b) (auto split: prod.splits)
  qed
qed simp

lemma dropWhile_hd: "s \<noteq> [] \<Longrightarrow> \<not> P (hd s) \<Longrightarrow> dropWhile P s = s"
  by (cases s) auto

lemma TrimSpace_id: "s \<noteq> [] \<Longrightarrow> \<not> isSpace (hd s) \<Longrightarrow> \<not> isSpace (last s) \<Longrightarrow> TrimSpace s = s"
  by (simp add: TrimSpace_def dropWhile_hd hd_rev)

lemma ToLower_idem: "ToLower (ToLower s) = ToLower s"
proof -
  have "lower_char (lower_char c) = lower_char c" for c
  proof (cases "65 \<le> (of_char c :: nat) \<and> (of_char c :: nat) \<le> 90")
    case True
    then have "of_char (char_of ((of_char c :: nat) + 32) :: char) = (of_char c :: nat) + 32"
      by (simp add: of_char_of)
    then show ?thesis using True by (simp add: lower_char_def)
  qed (auto simp: lower_char_def)
  then show ?thesis by (simp add: ToLower_def)
qed

subsection \<open>Printing a number and reading it back\<close>

lemma of_char_digit_char: "d < 10 \<Longrightarrow> of_char (digit_char d) = 48 + d"
  by (simp add: digit_char_def of_char_of)

lemma digits_value_append: "digits_value (s @ [c]) = 10 * digits_value s + int (of_char c - 48)"
  by (simp add: digits_value_def)

lemma nat_digits_value: "digits_value (nat_digits n) = int n"
proof (induction n rule: nat_digits.induct)
  case (1 n)
  show ?case
  proof (cases "n < 10")
    case True
    then show ?thesis
      by (subst nat_digits.simps) (simp add: digits_value_def of_char_digit_char)
  next
    case False
    then have "digits_value (nat_digits n)
        = 10 * int (n div 10) + int (n mod 10)"
      using "1.IH" by (subst nat_digits.simps) (simp add: digits_value_append of_char_digit_char)
    then show ?thesis by presburger
  qed
qed

lemma nat_digits_digits: "list_all is_digit (nat_digits n) \<and> nat_digits n \<noteq> []"
proof (induction n rule: nat_digits.induct)
  case (1 n)
  have d: "is_digit (digit_char d)" if "d < 10" for d
    using that by (simp add: is_digit_def of_char_digit_char)
  show ?case
  proof (cases "n < 10")
    case True
    then show ?thesis by (subst (1 2) nat_digits.simps) (simp add: d)
  next
    case False
    then show ?thesis using "1.IH" by (subst (1 2) nat_digits.simps) (simp add: d)
  qed
qed

lemma nat_digits_hd: "\<exists>c r. nat_digits n = c # r \<and> c \<noteq> CHR ''-'' \<and> c \<noteq> CHR ''+''"
proof -
  obtain c r where cr: "nat_digits n = c # r" using nat_digits_digits by (cases "nat_digits n") auto
  then have "is_digit c" using nat_digits_digits [of n] by simp
  then show ?thesis using cr by (auto simp: is_digit_def)
qed

lemma Atoi_string_of_int: "- (2 ^ 63) \<le> i \<Longrightarrow> i < 2 ^ 63 \<Longrightarrow> Atoi (string_of_int i) = Some i"
proof (cases "i < 0")
  case True
  assume "- (2 ^ 63) \<le> i" "i < 2 ^ 63"
  then show ?thesis using True nat_digits_digits [of "nat (- i)"]
    by (simp add: Atoi_def string_of_int_def nat_digits_value)
next
  case False
  assume "- (2 ^ 63) \<le> i" "i < 2 ^ 63"
  moreover obtain c r where "nat_digits (nat i) = c # r" "c \<noteq> CHR ''-''" "c \<noteq> CHR ''+''"
    using nat_digits_hd by blast
  ultimately show ?thesis using False nat_digits_digits [of "nat i"] nat_digits_value [of "nat i"]
    by (simp add: Atoi_def string_of_int_def)
qed

subsection \<open>Hexadecimal is injective\<close>

lemma hexChars_inj: "i < 16 \<Longrightarrow> j < 16 \<Longrightarrow> hexChars ! i = hexChars ! j \<longleftrightarrow> i = j"
proof -
  assume "i < 16" "j < 16"
  moreover have "distinct hexChars" "length hexChars = 16" by (simp_all add: hexChars_def)
  ultimately show ?thesis by (simp add: nth_eq_iff_index_eq)
qed

lemma hex_byte_inj: "hex_byte a = hex_byte b \<Longrightarrow> a = b"
proof -
  assume h: "hex_byte a = hex_byte b"
  have lt: "unat x div 16 < 16" "unat x mod 16 < 16" for x :: byte
    using unsigned_less [of x, where ?'a = nat] by auto
  from h have "unat a div 16 = unat b div 16" "unat a mod 16 = unat b mod 16"
    by (simp_all add: hex_byte_def hexChars_inj lt)
  then have "unat a = unat b" by (metis div_mult_mod_eq)
  then show ?thesis by (rule unsigned_word_eqI)
qed

lemma length_hex_bytes [simp]: "length (hex_bytes bs) = 2 * length bs"
  by (induction bs) (simp_all add: hex_bytes_def hex_byte_def)

lemma hex_bytes_inj: "hex_bytes as = hex_bytes bs \<Longrightarrow> as = bs"
proof (induction as arbitrary: bs)
  case Nil
  then show ?case by (cases bs) (simp_all add: hex_bytes_def hex_byte_def)
next
  case (Cons a as)
  then obtain b bs' where bs: "bs = b # bs'"
    by (cases bs) (simp_all add: hex_bytes_def hex_byte_def)
  with Cons.prems have "hex_byte a = hex_byte b" "hex_bytes as = hex_bytes bs'"
    by (simp_all add: hex_bytes_def hex_byte_def)
  with Cons.IH bs show ?case by (simp add: hex_byte_inj)
qed

end
