(* ===== verification/Frame.thy ===== *)
theory Frame
  imports GoStrings
begin

text \<open>
  The frame codec of the tunnel (\<open>internal/tunnel/mux.go\<close>, lines 27 to 169): frame
  types, the validity rules both ends rely on, \<open>WriteFrame\<close> against any writer and
  \<open>ReadFrame\<close> against any byte source. The lemmas show that decoding undoes encoding
  on a stream of frames, that what is decoded is always valid and was encoded in exactly
  one way, and that an oversized declared length is refused from the header alone.
\<close>

unbundle bit_operations_syntax

section \<open>Errors of the tunnel package\<close>

text \<open>One constructor for every error value the package creates or passes on.\<close>

datatype tunnel_error =
    EOF
  | ErrUnexpectedEOF
  | NetErrClosed
  | RawErr gostring
  | UnknownFrameType byte
  | PayloadTooLarge byte nat
  | MustNameStream byte
  | ConnectionLevel byte "32 word"
  | DeclaredTooLarge "32 word"
  | UnexpectedAfterHandshake byte
  | PeerReopened "32 word"
  | ReadingAuthFrame tunnel_error
  | ExpectedAuth byte
  | BadToken
  | SendingAuthFrame tunnel_error
  | RelayRejected tunnel_error
  | ExpectedAuthOK byte
  | DialingRelay tunnel_error

section \<open>Frame types\<close>

definition frameHeaderSize :: nat where
  "frameHeaderSize = 9"

definition MaxPayloadSize :: nat where
  "MaxPayloadSize = 64 * 1024"

type_synonym FrameType = byte

definition FrameOpen :: FrameType where "FrameOpen = 1"

definition FrameData :: FrameType where "FrameData = 2"

definition FrameClose :: FrameType where "FrameClose = 3"

definition FramePing :: FrameType where "FramePing = 4"

definition FramePong :: FrameType where "FramePong = 5"

definition FrameAuth :: FrameType where "FrameAuth = 6"

definition FrameAuthOK :: FrameType where "FrameAuthOK = 7"

lemmas frame_type_defs = FrameOpen_def FrameData_def FrameClose_def FramePing_def FramePong_def
  FrameAuth_def FrameAuthOK_def

definition FrameType_String :: "FrameType \<Rightarrow> gostring" where
  "FrameType_String t =
     (if t = FrameOpen then ''OPEN''
      else if t = FrameData then ''DATA''
      else if t = FrameClose then ''CLOSE''
      else if t = FramePing then ''PING''
      else if t = FramePong then ''PONG''
      else if t = FrameAuth then ''AUTH''
      else if t = FrameAuthOK then ''AUTH_OK''
      else ''UNKNOWN('' @ string_of_nat (unat t) @ '')'')"

definition known :: "FrameType \<Rightarrow> bool" where
  "known t \<longleftrightarrow> t \<ge> FrameOpen \<and> t \<le> FrameAuthOK"

definition carriesStream :: "FrameType \<Rightarrow> bool" where
  "carriesStream t \<longleftrightarrow> t = FrameOpen \<or> t = FrameData \<or> t = FrameClose"

record Frame =
  frType :: FrameType
  frStreamID :: "32 word"
  frPayload :: bytes

text \<open>A Go composite literal leaves the fields it does not name at zero.\<close>

abbreviation control_frame :: "FrameType \<Rightarrow> Frame" where
  "control_frame t \<equiv> \<lparr>frType = t, frStreamID = 0, frPayload = []\<rparr>"

definition validate :: "Frame \<Rightarrow> tunnel_error option" where
  "validate f =
     (if \<not> known (frType f) then Some (UnknownFrameType (frType f))
      else if length (frPayload f) > MaxPayloadSize
        then Some (PayloadTooLarge (frType f) (length (frPayload f)))
      else if carriesStream (frType f) \<and> frStreamID f = 0 then Some (MustNameStream (frType f))
      else if \<not> carriesStream (frType f) \<and> frStreamID f \<noteq> 0
        then Some (ConnectionLevel (frType f) (frStreamID f))
      else None)"

section \<open>Big-endian integers (\<open>encoding/binary\<close>)\<close>

definition PutUint32 :: "32 word \<Rightarrow> bytes" where
  "PutUint32 v = [ucast (drop_bit 24 v), ucast (drop_bit 16 v), ucast (drop_bit 8 v), ucast v]"

fun Uint32 :: "bytes \<Rightarrow> 32 word" where
  "Uint32 (a # b # c # d # _) =
     push_bit 24 (ucast a) OR push_bit 16 (ucast b) OR push_bit 8 (ucast c) OR ucast d"
| "Uint32 _ = 0"

lemma length_PutUint32 [simp]: "length (PutUint32 v) = 4"
  by (simp add: PutUint32_def)

lemma Uint32_PutUint32 [simp]: "Uint32 (PutUint32 v) = v"
proof (rule bit_word_eqI)
  fix n
  assume "n < LENGTH(32)"
  then consider "n < 8" | "8 \<le> n \<and> n < 16" | "16 \<le> n \<and> n < 24" | "24 \<le> n \<and> n < 32"
    by fastforce
  then show "bit (Uint32 (PutUint32 v)) n = bit v n"
    by cases (auto simp: PutUint32_def bit_simps)
qed

lemma PutUint32_Uint32: "length bs = 4 \<Longrightarrow> PutUint32 (Uint32 bs) = bs"
proof -
  assume "length bs = 4"
  then obtain a b c d where bs: "bs = [a, b, c, d]"
    by (auto simp: length_Suc_conv numeral_eq_Suc)
  let ?v = "push_bit 24 (ucast a) OR push_bit 16 (ucast b) OR push_bit 8 (ucast c) OR ucast d :: 32 word"
  have "ucast (drop_bit 24 ?v) = a" "ucast (drop_bit 16 ?v) = b" "ucast (drop_bit 8 ?v) = c"
    "ucast ?v = d"
    by (rule bit_word_eqI, auto simp: bit_simps dest: bit_imp_le_length)+
  then show ?thesis by (simp add: bs PutUint32_def)
qed

section \<open>Writing and reading\<close>

text \<open>
  A writer takes bytes and its state to its new state and an error, as \<open>io.Writer\<close>
  does. \<open>WriteFrame\<close> makes one call for the header and one for a non-empty payload.
\<close>

definition header :: "Frame \<Rightarrow> bytes" where
  "header f = PutUint32 (word_of_nat (length (frPayload f))) @ [frType f] @ PutUint32 (frStreamID f)"

definition WriteFrame ::
  "(bytes \<Rightarrow> 's \<Rightarrow> 's \<times> tunnel_error option) \<Rightarrow> 's \<Rightarrow> Frame \<Rightarrow> 's \<times> tunnel_error option" where
  "WriteFrame w s f =
     (case validate f of
        Some err \<Rightarrow> (s, Some err)
      | None \<Rightarrow>
          (case w (header f) s of
             (s', Some err) \<Rightarrow> (s', Some err)
           | (s', None) \<Rightarrow> if frPayload f = [] then (s', None) else w (frPayload f) s'))"

text \<open>
  A reader is the bytes still to come and the error that follows them (\<open>EOF\<close> when
  the peer closes, another error when the connection fails). \<open>read_full\<close> is
  \<open>io.ReadFull\<close>.
\<close>

type_synonym reader = "bytes \<times> tunnel_error"

fun read_full :: "nat \<Rightarrow> reader \<Rightarrow> tunnel_error + (bytes \<times> reader)" where
  "read_full n (bs, e) =
     (if n \<le> length bs then Inr (take n bs, (drop n bs, e))
      else Inl (if e = EOF \<and> bs \<noteq> [] then ErrUnexpectedEOF else e))"

definition ReadFrame :: "reader \<Rightarrow> tunnel_error + (Frame \<times> reader)" where
  "ReadFrame r =
     (case read_full frameHeaderSize r of
        Inl err \<Rightarrow> Inl err
      | Inr (hdr, r1) \<Rightarrow>
          let len = Uint32 (take 4 hdr) in
          if unat len > MaxPayloadSize then Inl (DeclaredTooLarge len)
          else
            let f = \<lparr>frType = hdr ! 4, frStreamID = Uint32 (drop 5 hdr), frPayload = []\<rparr> in
            case (if unat len > 0 then read_full (unat len) r1 else Inr ([], r1)) of
              Inl err \<Rightarrow> Inl (if err = EOF then ErrUnexpectedEOF else err)
            | Inr (payload, r2) \<Rightarrow>
                let f' = f\<lparr>frPayload := payload\<rparr> in
                (case validate f' of Some err \<Rightarrow> Inl err | None \<Rightarrow> Inr (f', r2)))"

text \<open>The bytes of one frame, and the writer that appends to a buffer (\<open>bufio.Writer\<close>
  followed by a flush that succeeds).\<close>

definition frame_bytes :: "Frame \<Rightarrow> bytes" where
  "frame_bytes f = header f @ frPayload f"

definition append_writer :: "bytes \<Rightarrow> bytes \<Rightarrow> bytes \<times> tunnel_error option" where
  "append_writer b s = (s @ b, None)"

section \<open>Facts about validity\<close>

lemma known_iff: "known t \<longleftrightarrow> t \<in> {FrameOpen, FrameData, FrameClose, FramePing, FramePong, FrameAuth, FrameAuthOK}"
proof -
  have "known t \<longleftrightarrow> 1 \<le> unat t \<and> unat t \<le> 7"
    by (simp add: known_def frame_type_defs word_le_nat_alt)
  also have "\<dots> \<longleftrightarrow> unat t \<in> {1, 2, 3, 4, 5, 6, 7}" by auto
  also have "\<dots> \<longleftrightarrow> t \<in> {1, 2, 3, 4, 5, 6, 7}"
    by (auto intro: unsigned_word_eqI [where ?'a = nat])
  finally show ?thesis by (simp add: frame_type_defs)
qed

lemma validate_None: "validate f = None \<longleftrightarrow>
    known (frType f) \<and> length (frPayload f) \<le> MaxPayloadSize \<and>
    (carriesStream (frType f) \<longleftrightarrow> frStreamID f \<noteq> 0)"
  by (auto simp: validate_def)

lemma control_frame_valid [simp]:
  "t \<in> {FramePing, FramePong, FrameAuth, FrameAuthOK} \<Longrightarrow> validate (control_frame t) = None"
  by (auto simp: validate_None known_iff carriesStream_def frame_type_defs)

lemma stream_frame_valid [simp]:
  "carriesStream t \<Longrightarrow> sid \<noteq> 0 \<Longrightarrow> length p \<le> MaxPayloadSize \<Longrightarrow>
   validate \<lparr>frType = t, frStreamID = sid, frPayload = p\<rparr> = None"
  by (auto simp: validate_None known_iff carriesStream_def)

lemma carriesStream_simps [simp]:
  "carriesStream FrameOpen" "carriesStream FrameData" "carriesStream FrameClose"
  by (simp_all add: carriesStream_def)

lemma length_header [simp]: "length (header f) = frameHeaderSize"
  by (simp add: header_def frameHeaderSize_def)

section \<open>Decoding undoes encoding\<close>

lemma WriteFrame_append:
  "WriteFrame append_writer s f =
     (case validate f of Some err \<Rightarrow> (s, Some err) | None \<Rightarrow> (s @ frame_bytes f, None))"
  by (auto simp: WriteFrame_def append_writer_def frame_bytes_def split: option.splits)

lemma read_full_append [simp]: "n = length a \<Longrightarrow> read_full n (a @ b, e) = Inr (a, (b, e))"
  by simp

lemma payload_length_word:
  "length p \<le> MaxPayloadSize \<Longrightarrow> unat (word_of_nat (length p) :: 32 word) = length p"
  by (simp add: MaxPayloadSize_def unsigned_of_nat take_bit_nat_eq_self)

lemma header_fields:
  "take 4 (header f) = PutUint32 (word_of_nat (length (frPayload f)))"
  "header f ! 4 = frType f"
  "drop 5 (header f) = PutUint32 (frStreamID f)"
  by (simp_all add: header_def nth_append)

lemma ReadFrame_frame_bytes:
  "validate f = None \<Longrightarrow> ReadFrame (frame_bytes f @ rest, e) = Inr (f, (rest, e))"
proof -
  assume v: "validate f = None"
  then have len: "length (frPayload f) \<le> MaxPayloadSize" by (simp add: validate_None)
  obtain t i p where f: "f = \<lparr>frType = t, frStreamID = i, frPayload = p\<rparr>" by (cases f)
  show ?thesis
    using v len
    by (cases "p = []")
      (simp_all add: f ReadFrame_def frame_bytes_def header_fields payload_length_word Let_def
        del: read_full.simps)
qed

lemma header_of_parts:
  assumes "length hdr = frameHeaderSize"
    and "frType f = hdr ! 4" and "frStreamID f = Uint32 (drop 5 hdr)"
    and "word_of_nat (length (frPayload f)) = Uint32 (take 4 hdr)"
  shows "header f = hdr"
proof -
  have "hdr = take 4 hdr @ [hdr ! 4] @ drop 5 hdr"
    using id_take_nth_drop [of 4 hdr] assms(1) by (simp add: frameHeaderSize_def)
  then show ?thesis
    using assms by (simp add: header_def PutUint32_Uint32 frameHeaderSize_def)
qed

text \<open>Whatever \<open>ReadFrame\<close> returns is valid and is the frame the bytes encode.\<close>

lemma ReadFrame_Inr:
  assumes "ReadFrame (bs, e) = Inr (f, r)"
  shows "validate f = None \<and> (\<exists>rest. r = (rest, e) \<and> bs = frame_bytes f @ rest)"
proof -
  let ?n = frameHeaderSize
  let ?len = "Uint32 (take 4 (take ?n bs))"
  from assms have n: "?n \<le> length bs" and small: "unat ?len \<le> MaxPayloadSize"
    by (auto simp: ReadFrame_def Let_def split: if_splits)
  let ?rest = "drop ?n bs"
  have body: "unat ?len \<le> length ?rest \<and> validate f = None \<and>
      f = \<lparr>frType = take ?n bs ! 4, frStreamID = Uint32 (drop 5 (take ?n bs)),
           frPayload = take (unat ?len) ?rest\<rparr> \<and> r = (drop (unat ?len) ?rest, e)"
    using assms n small
    by (auto simp: ReadFrame_def Let_def split: if_splits option.splits)
  have "header f = take ?n bs"
    using body small by (intro header_of_parts) (use n in simp_all)
  moreover from body have "frPayload f = take (unat ?len) ?rest" by (metis select_convs(3))
  ultimately have "frame_bytes f @ drop (unat ?len) ?rest = take ?n bs @ ?rest"
    by (simp only: frame_bytes_def append_assoc append_take_drop_id)
  then have "bs = frame_bytes f @ drop (unat ?len) ?rest" by simp
  then show ?thesis using body by blast
qed

section \<open>A stream of frames\<close>

text \<open>Sending a list of frames, and reading a given number of them.\<close>

fun write_frames :: "bytes \<Rightarrow> Frame list \<Rightarrow> bytes \<times> tunnel_error option" where
  "write_frames s [] = (s, None)"
| "write_frames s (f # fs) =
     (case WriteFrame append_writer s f of
        (s', Some err) \<Rightarrow> (s', Some err)
      | (s', None) \<Rightarrow> write_frames s' fs)"

fun read_frames :: "(reader \<Rightarrow> 'e + ('f \<times> reader)) \<Rightarrow> nat \<Rightarrow> reader \<Rightarrow> 'e + ('f list \<times> reader)" where
  "read_frames get 0 r = Inr ([], r)"
| "read_frames get (Suc n) r =
     (case get r of
        Inl err \<Rightarrow> Inl err
      | Inr (f, r') \<Rightarrow> (case read_frames get n r' of
          Inl err \<Rightarrow> Inl err
        | Inr (fs, r'') \<Rightarrow> Inr (f # fs, r'')))"

text \<open>
  What both ends of the tunnel rely on: decoding undoes encoding whatever follows, and only
  encodings of valid frames decode. The multiplexer and the handshake are clients.
\<close>

locale frame_codec =
  fixes put :: "'f \<Rightarrow> bytes"
    and get :: "reader \<Rightarrow> 'e + ('f \<times> reader)"
    and ok :: "'f \<Rightarrow> bool"
  assumes get_put: "ok f \<Longrightarrow> get (put f @ rest, e) = Inr (f, (rest, e))"
    and get_Inr: "get (bs, e) = Inr (f, r) \<Longrightarrow> ok f \<and> (\<exists>rest. r = (rest, e) \<and> bs = put f @ rest)"
begin

lemma put_prefix_free: "ok f \<Longrightarrow> ok g \<Longrightarrow> put f @ r = put g @ s \<Longrightarrow> f = g \<and> r = s"
  by (metis get_put prod.inject sum.inject(2))

lemma get_many:
  "list_all ok fs \<Longrightarrow> read_frames get (length fs) (concat (map put fs) @ rest, e) = Inr (fs, (rest, e))"
  by (induction fs) (simp_all add: get_put)

lemma concat_put_inject:
  "list_all ok fs \<Longrightarrow> list_all ok gs \<Longrightarrow> length fs = length gs \<Longrightarrow>
   concat (map put fs) @ r = concat (map put gs) @ s \<Longrightarrow> fs = gs \<and> r = s"
  by (metis get_many prod.inject sum.inject(2))

end

interpretation fc: frame_codec frame_bytes ReadFrame "\<lambda>f. validate f = None"
  by unfold_locales (simp_all add: ReadFrame_frame_bytes ReadFrame_Inr)

lemma write_frames_bytes:
  "list_all (\<lambda>f. validate f = None) fs \<Longrightarrow>
   write_frames s fs = (s @ concat (map frame_bytes fs), None)"
  by (induction fs arbitrary: s) (simp_all add: WriteFrame_append)

lemma frame_bytes_longer: "length (frame_bytes f) = frameHeaderSize + length (frPayload f)"
  by (simp add: frame_bytes_def)

lemma ReadFrame_shorter: "ReadFrame (bs, e) = Inr (f, (bs', e')) \<Longrightarrow> length bs' < length bs \<and> e' = e"
  by (auto dest!: ReadFrame_Inr simp: frame_bytes_longer frameHeaderSize_def)

section \<open>Properties\<close>

text \<open>C19: A sequence of valid frames written one after the other with \<open>WriteFrame\<close> is read
  back by \<open>ReadFrame\<close> as the same sequence, whatever bytes follow: no frame boundary is lost.\<close>

theorem frames_roundtrip:
  assumes "list_all (\<lambda>f. validate f = None) fs"
  shows "write_frames [] fs = (bs, None) \<Longrightarrow>
    read_frames ReadFrame (length fs) (bs @ rest, e) = Inr (fs, (rest, e))"
  using fc.get_many [OF assms, of rest e] assms by (auto simp: write_frames_bytes)

theorem frames_roundtrip_witness:
  "read_frames ReadFrame 2
     (fst (write_frames [] [\<lparr>frType = FrameOpen, frStreamID = 3, frPayload = []\<rparr>,
                            \<lparr>frType = FrameData, frStreamID = 3, frPayload = [104, 105]\<rparr>]) @ [7], EOF)
   = Inr ([\<lparr>frType = FrameOpen, frStreamID = 3, frPayload = []\<rparr>,
           \<lparr>frType = FrameData, frStreamID = 3, frPayload = [104, 105]\<rparr>], ([7], EOF))"
proof -
  let ?fs = "[\<lparr>frType = FrameOpen, frStreamID = 3, frPayload = []\<rparr>,
              \<lparr>frType = FrameData, frStreamID = 3, frPayload = [104, 105]\<rparr>]"
  have ok: "list_all (\<lambda>f. validate f = None) ?fs"
    by (simp add: MaxPayloadSize_def)
  from write_frames_bytes [OF ok, of "[]"]
  have "write_frames [] ?fs = (fst (write_frames [] ?fs), None)"
    by (metis prod.collapse prod.inject)
  from frames_roundtrip [OF ok this, of "[7]" EOF] show ?thesis
    by (simp add: numeral_2_eq_2 del: read_frames.simps write_frames.simps)
qed

text \<open>Whatever \<open>ReadFrame\<close> accepts satisfies every frame invariant, and the bytes it
  consumed are exactly the bytes \<open>WriteFrame\<close> produces for that frame: the wire format has one
  encoding per frame and the decoder accepts nothing else.\<close>

theorem ReadFrame_sound:
  "ReadFrame (bs, e) = Inr (f, r) \<Longrightarrow>
   known (frType f) \<and> length (frPayload f) \<le> MaxPayloadSize \<and>
   (carriesStream (frType f) \<longleftrightarrow> frStreamID f \<noteq> 0) \<and>
   (\<exists>used rest. bs = used @ rest \<and> r = (rest, e) \<and> WriteFrame append_writer [] f = (used, None))"
proof -
  assume h: "ReadFrame (bs, e) = Inr (f, r)"
  from ReadFrame_Inr [OF h] obtain rest
    where v: "validate f = None" and r: "r = (rest, e)" "bs = frame_bytes f @ rest" by blast
  then have "WriteFrame append_writer [] f = (frame_bytes f, None)" by (simp add: WriteFrame_append)
  with r have "\<exists>used rest. bs = used @ rest \<and> r = (rest, e) \<and> WriteFrame append_writer [] f = (used, None)"
    by blast
  with v show ?thesis by (simp add: validate_None)
qed

theorem ReadFrame_sound_witness:
  "WriteFrame append_writer [] (control_frame FramePing) = ([0, 0, 0, 0, 4, 0, 0, 0, 0], None)"
proof -
  have "ReadFrame ([0, 0, 0, 0, 4, 0, 0, 0, 0], EOF) = Inr (control_frame FramePing, ([], EOF))"
    using ReadFrame_frame_bytes [of "control_frame FramePing" "[]" EOF]
    by (simp add: frame_bytes_def header_def PutUint32_def FramePing_def)
  from ReadFrame_sound [OF this] show ?thesis by auto
qed

text \<open>A header that declares more than 64 KiB is refused from its nine bytes alone: the outcome
  is the same whatever follows, so no payload is read or allocated for it.\<close>

theorem ReadFrame_oversize:
  assumes "length hdr = frameHeaderSize" and "unat (Uint32 (take 4 hdr)) > MaxPayloadSize"
  shows "ReadFrame (hdr @ rest, e) = Inl (DeclaredTooLarge (Uint32 (take 4 hdr)))"
  using assms by (simp add: ReadFrame_def Let_def)

theorem ReadFrame_oversize_witness:
  "ReadFrame ([0, 1, 0, 1, 2, 0, 0, 0, 5] @ [1, 2, 3], EOF) = Inl (DeclaredTooLarge 65537)"
proof -
  have v: "Uint32 (take 4 [0, 1, 0, 1, 2, 0, 0, 0, 5]) = 65537" by simp
  show ?thesis
    using ReadFrame_oversize [of "[0, 1, 0, 1, 2, 0, 0, 0, 5]" "[1, 2, 3]" EOF] v
    by (simp add: frameHeaderSize_def MaxPayloadSize_def)
qed

end
