(* ===== verification/Mux.thy ===== *)
theory Mux
  imports Frame
begin

text \<open>
  The stream multiplexer (\<open>internal/tunnel/mux.go\<close>, lines 171 to 524): one
  connection's state, every operation on it and on its streams, and the read loop.

  A \<open>Conn\<close> holds its \<open>Stream\<close> objects in a store (\<open>cnHeap\<close>); a pointer to a
  stream is an index into it, so a stream taken out of the id table stays usable by the
  goroutine that holds it, as in the code. An operation with several critical sections or
  frame writes is the composition of its parts, and the parts are the events of \<open>MuxRun\<close>,
  with other goroutines in between. What the environment decides is an argument: the outcome
  of a write to the raw connection, and which ready case a \<open>select\<close> takes.

  A \<open>sync.Once\<close> is the flag it sets before it runs its function. Closing a channel that is
  closed already panics; as that ends the program whatever goroutine does it, it is recorded
  in the state, as \<open>cnPanicked\<close>.
\<close>

section \<open>State\<close>

definition streamBuffer :: nat where
  "streamBuffer = 16"

definition acceptBuffer :: nat where
  "acceptBuffer = 64"

datatype Side = SideRelay | SideTunnel

record Stream =
  stID :: "32 word"
  stReads :: "bytes list"
  stReadsClosed :: bool
  stRbuf :: bytes
  stRemoteOnce :: bool
  stCloseOnce :: bool
  stClosed :: bool

definition newStream :: "32 word \<Rightarrow> Stream" where
  "newStream sid =
     \<lparr>stID = sid, stReads = [], stReadsClosed = False, stRbuf = [], stRemoteOnce = False, stCloseOnce = False,
      stClosed = False\<rparr>"

type_synonym addr = nat

record Conn =
  cnStreams :: "32 word \<rightharpoonup> addr"
  cnNextID :: "32 word"
  cnAccept :: "addr list"
  cnCloseOnce :: bool
  cnClosed :: bool
  cnErr :: "tunnel_error option"
  cnHeap :: "Stream list"
  cnWire :: bytes
  cnPanicked :: bool

text \<open>Outcome of handing bytes to the raw connection: all of them, or a prefix and an error.\<close>

datatype rawwrite = WriteOK | WriteFails nat tunnel_error

definition NewConn :: "Side \<Rightarrow> Conn" where
  "NewConn side =
     \<lparr>cnStreams = Map.empty, cnNextID = (if side = SideTunnel then 2 else 1), cnAccept = [],
      cnCloseOnce = False, cnClosed = False, cnErr = None, cnHeap = [], cnWire = [], cnPanicked = False\<rparr>"

section \<open>Closing, writing, the id table\<close>

definition Conn_Err :: "Conn \<Rightarrow> tunnel_error" where
  "Conn_Err c = (case cnErr c of None \<Rightarrow> NetErrClosed | Some e \<Rightarrow> e)"

definition closeWithErr :: "tunnel_error \<Rightarrow> Conn \<Rightarrow> Conn" where
  "closeWithErr e c =
     (if cnCloseOnce c then c
      else
        let c1 = c\<lparr>cnCloseOnce := True, cnErr := (case cnErr c of None \<Rightarrow> Some e | Some e' \<Rightarrow> Some e')\<rparr>
        in if cnClosed c1 then c1\<lparr>cnPanicked := True\<rparr> else c1\<lparr>cnClosed := True\<rparr>)"

definition Conn_Close :: "Conn \<Rightarrow> Conn" where
  "Conn_Close c = closeWithErr NetErrClosed c"

definition writeFrame :: "rawwrite \<Rightarrow> Frame \<Rightarrow> Conn \<Rightarrow> Conn \<times> tunnel_error option" where
  "writeFrame wr f c =
     (case validate f of
        Some err \<Rightarrow> (c, Some err)
      | None \<Rightarrow>
          if cnClosed c then (c, Some (Conn_Err c))
          else
            let buf = fst (WriteFrame append_writer [] f) in
            (case wr of
               WriteOK \<Rightarrow> (c\<lparr>cnWire := cnWire c @ buf\<rparr>, None)
             | WriteFails n err \<Rightarrow>
                 (closeWithErr err (c\<lparr>cnWire := cnWire c @ take n buf\<rparr>), Some err)))"

definition removeStream :: "32 word \<Rightarrow> Conn \<Rightarrow> Conn" where
  "removeStream sid c = c\<lparr>cnStreams := (cnStreams c)(sid := None)\<rparr>"

definition stream :: "32 word \<Rightarrow> Conn \<Rightarrow> addr option" where
  "stream sid c = cnStreams c sid"

text \<open>Allocation of a stream object and its registration under an id.\<close>

definition registerStream :: "32 word \<Rightarrow> Conn \<Rightarrow> Conn" where
  "registerStream sid c =
     c\<lparr>cnHeap := cnHeap c @ [newStream sid], cnStreams := (cnStreams c)(sid \<mapsto> length (cnHeap c))\<rparr>"

definition updStream :: "addr \<Rightarrow> (Stream \<Rightarrow> Stream) \<Rightarrow> Conn \<Rightarrow> Conn" where
  "updStream a g c = c\<lparr>cnHeap := (cnHeap c)[a := g (cnHeap c ! a)]\<rparr>"

section \<open>Opening and accepting\<close>

text \<open>
  \<open>Open\<close>: the check that the connection is open, the critical section that takes an id and
  registers the stream, the OPEN frame, and the removal when that fails.
\<close>

definition Open_register :: "Conn \<Rightarrow> Conn \<times> 32 word \<times> addr" where
  "Open_register c =
     (let sid = cnNextID c in (registerStream sid (c\<lparr>cnNextID := sid + 2\<rparr>), sid, length (cnHeap c)))"

definition Open :: "rawwrite \<Rightarrow> Conn \<Rightarrow> Conn \<times> (tunnel_error + addr)" where
  "Open wr c =
     (if cnClosed c then (c, Inl (Conn_Err c))
      else
        let (c1, sid, a) = Open_register c
        in (case writeFrame wr \<lparr>frType = FrameOpen, frStreamID = sid, frPayload = []\<rparr> c1 of
              (c2, Some err) \<Rightarrow> (removeStream sid c2, Inl err)
            | (c2, None) \<Rightarrow> (c2, Inr a)))"

definition Accept :: "nat \<Rightarrow> Conn \<Rightarrow> (Conn \<times> (tunnel_error + addr)) outcome" where
  "Accept pick c =
     (case select_ready pick ((case cnAccept c of [] \<Rightarrow> [] | a # _ \<Rightarrow> [Some a])
                              @ (if cnClosed c then [None] else [])) of
        None \<Rightarrow> Blocked
      | Some (Some a) \<Rightarrow> Done (c\<lparr>cnAccept := tl (cnAccept c)\<rparr>, Inr a)
      | Some None \<Rightarrow> Done (c, Inl (Conn_Err c)))"

text \<open>
  \<open>Keepalive\<close> returns at once for an interval that is not positive; otherwise each tick
  of its ticker writes a PING, and it returns when that fails. The result says whether it
  goes on.
\<close>

definition Keepalive_runs :: "int \<Rightarrow> bool" where
  "Keepalive_runs interval \<longleftrightarrow> interval > 0"

definition Keepalive_tick :: "rawwrite \<Rightarrow> Conn \<Rightarrow> Conn \<times> bool" where
  "Keepalive_tick wr c =
     (case writeFrame wr (control_frame FramePing) c of
        (c', Some _) \<Rightarrow> (c', False)
      | (c', None) \<Rightarrow> (c', True))"

section \<open>Streams\<close>

text \<open>
  \<open>Read\<close>: what is buffered is copied out; otherwise the goroutine selects between the
  next delivered payload, the end of the stream and the end of the connection. The choice
  \<open>pick\<close> of a later round of the loop may differ from the one before, so it is a
  function of how many payloads are still queued, which every round shrinks.
\<close>

datatype read_case = RData bytes | REOF | RConnErr

definition read_cases :: "Conn \<Rightarrow> Stream \<Rightarrow> read_case list" where
  "read_cases c s =
     (case stReads s of b # _ \<Rightarrow> [RData b] | [] \<Rightarrow> if stReadsClosed s then [REOF] else [])
     @ (if stClosed s then [REOF] else [])
     @ (if cnClosed c then [RConnErr] else [])"

function Read :: "(nat \<Rightarrow> nat) \<Rightarrow> nat \<Rightarrow> addr \<Rightarrow> Conn \<Rightarrow>
    (Conn \<times> (tunnel_error + bytes)) outcome" where
  "Read pick n a c =
     (let s = cnHeap c ! a in
      if stRbuf s \<noteq> [] then
        Done (updStream a (\<lambda>s. s\<lparr>stRbuf := drop n (stRbuf s)\<rparr>) c, Inr (take n (stRbuf s)))
      else
        (case select_ready (pick (length (stReads s))) (read_cases c s) of
           None \<Rightarrow> Blocked
         | Some REOF \<Rightarrow> Done (c, Inl EOF)
         | Some RConnErr \<Rightarrow> Done (c, Inl (Conn_Err c))
         | Some (RData b) \<Rightarrow>
             if a < length (cnHeap c) then
               Read pick n a (updStream a (\<lambda>s. s\<lparr>stRbuf := b, stReads := tl (stReads s)\<rparr>) c)
             else Blocked))"
  by pat_completeness auto
termination
  by (relation "measure (\<lambda>(pick, n, a, c). length (stReads (cnHeap c ! a)))")
    (auto dest!: select_ready_in simp: read_cases_def updStream_def split: if_splits list.splits)

declare Read.simps [simp del]

text \<open>
  \<open>Write\<close> sends a payload in frames of at most \<open>MaxPayloadSize\<close> bytes, checking
  before each one that neither the stream nor the connection has been closed. One round of
  its loop is a step of its own, because other goroutines run between two frames.
\<close>

definition Write_chunk :: "rawwrite \<Rightarrow> addr \<Rightarrow> bytes \<Rightarrow> Conn \<Rightarrow> Conn \<times> (tunnel_error + nat)" where
  "Write_chunk wr a p c =
     (let s = cnHeap c ! a in
      if stClosed s then (c, Inl NetErrClosed)
      else if cnClosed c then (c, Inl (Conn_Err c))
      else
        let chunk = (if length p > MaxPayloadSize then take MaxPayloadSize p else p) in
        (case writeFrame wr \<lparr>frType = FrameData, frStreamID = stID s, frPayload = chunk\<rparr> c of
           (c', Some err) \<Rightarrow> (c', Inl err)
         | (c', None) \<Rightarrow> (c', Inr (length chunk))))"

function Write :: "(nat \<Rightarrow> rawwrite) \<Rightarrow> addr \<Rightarrow> bytes \<Rightarrow> nat \<Rightarrow> Conn \<Rightarrow>
    Conn \<times> nat \<times> tunnel_error option" where
  "Write os a p written c =
     (if p = [] then (c, written, None)
      else
        (case Write_chunk (os written) a p c of
           (c', Inl err) \<Rightarrow> (c', written, Some err)
         | (c', Inr k) \<Rightarrow>
             if 0 < k then Write os a (drop k p) (written + k) c' else (c', written, None)))"
  by pat_completeness auto
termination
  by (relation "measure (\<lambda>(os, a, p, written, c). length p)") auto

declare Write.simps [simp del]

text \<open>
  \<open>Close\<close> runs once: it closes the stream's channel, takes its id out of the table and tells the
  peer. The result of the first part says whether the other two follow.
\<close>

definition Stream_Close_mark :: "addr \<Rightarrow> Conn \<Rightarrow> Conn \<times> bool" where
  "Stream_Close_mark a c =
     (let s = cnHeap c ! a in
      if stCloseOnce s then (c, False)
      else
        let c1 = updStream a (\<lambda>s. s\<lparr>stCloseOnce := True\<rparr>) c
        in (if stClosed s then c1\<lparr>cnPanicked := True\<rparr> else updStream a (\<lambda>s. s\<lparr>stClosed := True\<rparr>) c1, True))"

definition Stream_Close :: "rawwrite \<Rightarrow> addr \<Rightarrow> Conn \<Rightarrow> Conn \<times> tunnel_error option" where
  "Stream_Close wr a c =
     (case Stream_Close_mark a c of
        (c1, False) \<Rightarrow> (c1, None)
      | (c1, True) \<Rightarrow>
          let sid = stID (cnHeap c ! a)
          in writeFrame wr \<lparr>frType = FrameClose, frStreamID = sid, frPayload = []\<rparr> (removeStream sid c1))"

text \<open>
  \<open>deliver\<close> hands a payload to the reader or drops it when the stream or the connection
  is closed; with a full buffer and both open it blocks. A send on a closed channel panics
  when the \<open>select\<close> takes it.
\<close>

datatype deliver_case = DSend | DDrop | DPanic

definition deliver_cases :: "Conn \<Rightarrow> Stream \<Rightarrow> deliver_case list" where
  "deliver_cases c s =
     (if stReadsClosed s then [DPanic]
      else if length (stReads s) < streamBuffer then [DSend] else [])
     @ (if stClosed s then [DDrop] else [])
     @ (if cnClosed c then [DDrop] else [])"

definition deliver :: "nat \<Rightarrow> addr \<Rightarrow> bytes \<Rightarrow> Conn \<Rightarrow> Conn outcome" where
  "deliver pick a b c =
     (if b = [] then Done c
      else
        (case select_ready pick (deliver_cases c (cnHeap c ! a)) of
           None \<Rightarrow> Blocked
         | Some DSend \<Rightarrow> Done (updStream a (\<lambda>s. s\<lparr>stReads := stReads s @ [b]\<rparr>) c)
         | Some DDrop \<Rightarrow> Done c
         | Some DPanic \<Rightarrow> Panic))"

definition remoteClosed :: "addr \<Rightarrow> Conn \<Rightarrow> Conn" where
  "remoteClosed a c =
     (let s = cnHeap c ! a in
      if stRemoteOnce s then c
      else
        let c1 = updStream a (\<lambda>s. s\<lparr>stRemoteOnce := True\<rparr>) c
        in if stReadsClosed s then c1\<lparr>cnPanicked := True\<rparr> else updStream a (\<lambda>s. s\<lparr>stReadsClosed := True\<rparr>) c1)"

section \<open>The read loop\<close>

definition handleOpen :: "rawwrite \<Rightarrow> 32 word \<Rightarrow> Conn \<Rightarrow> Conn" where
  "handleOpen wr sid c =
     (if cnStreams c sid \<noteq> None then closeWithErr (PeerReopened sid) c
      else
        let a = length (cnHeap c); c1 = registerStream sid c in
        if length (cnAccept c1) < acceptBuffer then c1\<lparr>cnAccept := cnAccept c1 @ [a]\<rparr>
        else fst (writeFrame wr \<lparr>frType = FrameClose, frStreamID = sid, frPayload = []\<rparr>
                    (removeStream sid c1)))"

datatype loop = Continue | Return

text \<open>One round of \<open>readLoop\<close> on a frame that has been read.\<close>

definition handleFrame :: "nat \<Rightarrow> rawwrite \<Rightarrow> Frame \<Rightarrow> Conn \<Rightarrow> (Conn \<times> loop) outcome" where
  "handleFrame pick wr f c =
     (let t = frType f; sid = frStreamID f in
      if t = FrameOpen then Done (handleOpen wr sid c, Continue)
      else if t = FrameData then
        (case stream sid c of
           None \<Rightarrow>
             Done (fst (writeFrame wr \<lparr>frType = FrameClose, frStreamID = sid, frPayload = []\<rparr> c), Continue)
         | Some a \<Rightarrow> bind_outcome (deliver pick a (frPayload f) c) (\<lambda>c'. Done (c', Continue)))
      else if t = FrameClose then
        (case stream sid c of
           None \<Rightarrow> Done (c, Continue)
         | Some a \<Rightarrow> Done (removeStream sid (remoteClosed a c), Continue))
      else if t = FramePing then Done (fst (writeFrame wr (control_frame FramePong) c), Continue)
      else if t = FramePong then Done (c, Continue)
      else if t = FrameAuth \<or> t = FrameAuthOK then
        Done (closeWithErr (UnexpectedAfterHandshake t) c, Return)
      else Done (c, Continue))"

text \<open>
  The whole loop on the bytes still to come from the connection. It ends when reading fails
  or a handshake frame arrives; it can be left blocked in \<open>deliver\<close>. For the k-th frame,
  \<open>env k\<close> has the environment's choices, and what the other goroutines make of the connection
  before it is handled.
\<close>

record frame_env =
  fePick :: nat
  feWrite :: rawwrite
  feOthers :: "Conn \<Rightarrow> Conn"

datatype readEnd = LoopEnded Conn | LoopBlocked Frame reader Conn | LoopPanicked

function readLoop :: "(nat \<Rightarrow> frame_env) \<Rightarrow> nat \<Rightarrow> bytes \<Rightarrow> tunnel_error \<Rightarrow> Conn \<Rightarrow> readEnd" where
  "readLoop env k bs e c =
     (let c1 = feOthers (env k) c in
      case ReadFrame (bs, e) of
        Inl err \<Rightarrow> LoopEnded (closeWithErr err c1)
      | Inr (f, (bs', e')) \<Rightarrow>
          (case handleFrame (fePick (env k)) (feWrite (env k)) f c1 of
             Blocked \<Rightarrow> LoopBlocked f (bs', e') c1
           | Panic \<Rightarrow> LoopPanicked
           | Done (c2, Return) \<Rightarrow> LoopEnded c2
           | Done (c2, Continue) \<Rightarrow> readLoop env (Suc k) bs' e' c2))"
  by pat_completeness auto
termination
  by (relation "measure (\<lambda>(env, k, bs, e, c). length bs)") (auto dest: ReadFrame_shorter)

declare readLoop.simps [simp del]

end
