(* ===== verification/MuxRun.thy ===== *)
theory MuxRun
  imports Mux
begin

text \<open>
  Runs of one multiplexer endpoint: every critical section and frame write of \<open>Mux\<close> as an event, the
  reachable states, the invariant they keep, and what follows from it: no operation
  panics, the queues stay bounded, frames never interleave on the wire, ids keep their
  parity, and a stream is a lossless first-in first-out byte queue.
\<close>

section \<open>Events\<close>

text \<open>
  \<open>Open\<close> and \<open>Close\<close> of a stream hold no lock across their parts, so each part is an event: \<open>EvOpen\<close>
  takes an id and registers the stream, \<open>EvCloseMark\<close> closes the stream's channel, \<open>EvRemove\<close> takes an
  id out of the table and \<open>EvSend\<close> writes one frame. Any goroutine may do any of these at any
  time, also one whose check that the connection is open is out of date; that is more than the code
  allows, so what holds here holds of the code.
\<close>

datatype mux_event =
    EvFrame nat rawwrite Frame
  | EvReadErr tunnel_error
  | EvOpen
  | EvRemove "32 word"
  | EvSend rawwrite Frame
  | EvAccept nat
  | EvRead "nat \<Rightarrow> nat" nat addr
  | EvWrite rawwrite addr bytes
  | EvCloseMark addr
  | EvPing rawwrite
  | EvClose

datatype mux_reply =
    LoopReply loop
  | OpenReply "32 word" addr
  | StreamReply "tunnel_error + addr"
  | ReadReply "tunnel_error + bytes"
  | WriteReply "tunnel_error + nat"
  | ErrReply "tunnel_error option"
  | BoolReply bool
  | NoReply

fun mux_act :: "mux_event \<Rightarrow> Conn \<Rightarrow> (Conn \<times> mux_reply) outcome" where
  "mux_act (EvFrame pick wr f) c =
     bind_outcome (handleFrame pick wr f c) (\<lambda>(c', l). Done (c', LoopReply l))"
| "mux_act (EvReadErr e) c = Done (closeWithErr e c, LoopReply Return)"
| "mux_act EvOpen c = (case Open_register c of (c', sid, a) \<Rightarrow> Done (c', OpenReply sid a))"
| "mux_act (EvRemove sid) c = Done (removeStream sid c, NoReply)"
| "mux_act (EvSend wr f) c = (case writeFrame wr f c of (c', r) \<Rightarrow> Done (c', ErrReply r))"
| "mux_act (EvAccept pick) c = bind_outcome (Accept pick c) (\<lambda>(c', r). Done (c', StreamReply r))"
| "mux_act (EvRead pick n a) c = bind_outcome (Read pick n a c) (\<lambda>(c', r). Done (c', ReadReply r))"
| "mux_act (EvWrite wr a p) c = (case Write_chunk wr a p c of (c', r) \<Rightarrow> Done (c', WriteReply r))"
| "mux_act (EvCloseMark a) c = (case Stream_Close_mark a c of (c', b) \<Rightarrow> Done (c', BoolReply b))"
| "mux_act (EvPing wr) c = (case Keepalive_tick wr c of (c', r) \<Rightarrow> Done (c', BoolReply r))"
| "mux_act EvClose c = Done (Conn_Close c, NoReply)"

text \<open>An event that closes a closed channel, or sends on one, panics.\<close>

definition mux_do :: "mux_event \<Rightarrow> Conn \<Rightarrow> (Conn \<times> mux_reply) outcome" where
  "mux_do ev c = bind_outcome (mux_act ev c) (\<lambda>(c', r). if cnPanicked c' then Panic else Done (c', r))"

text \<open>
  An event is possible when the frame is one \<open>ReadFrame\<close> can return and the stream
  object is one the connection has handed out.
\<close>

fun ev_ok :: "Conn \<Rightarrow> mux_event \<Rightarrow> bool" where
  "ev_ok c (EvFrame pick wr f) \<longleftrightarrow> validate f = None"
| "ev_ok c (EvRead pick n a) \<longleftrightarrow> a < length (cnHeap c)"
| "ev_ok c (EvWrite wr a p) \<longleftrightarrow> a < length (cnHeap c)"
| "ev_ok c (EvCloseMark a) \<longleftrightarrow> a < length (cnHeap c)"
| "ev_ok c _ \<longleftrightarrow> True"

inductive mux_reach :: "Side \<Rightarrow> Conn \<Rightarrow> bool" for side where
  start: "mux_reach side (NewConn side)"
| step: "mux_reach side c \<Longrightarrow> ev_ok c ev \<Longrightarrow> mux_do ev c = Done (c', r) \<Longrightarrow> mux_reach side c'"

section \<open>The invariant\<close>

definition streams_ok :: "Conn \<Rightarrow> bool" where
  "streams_ok c \<longleftrightarrow>
     (\<forall>i a. cnStreams c i = Some a \<longrightarrow>
        a < length (cnHeap c) \<and> stID (cnHeap c ! a) = i \<and>
        \<not> stReadsClosed (cnHeap c ! a))"

definition stream_ok :: "Stream \<Rightarrow> bool" where
  "stream_ok s \<longleftrightarrow>
     length (stReads s) \<le> streamBuffer \<and>
     (\<forall>b \<in> set (stReads s). b \<noteq> [] \<and> length b \<le> MaxPayloadSize) \<and>
     length (stRbuf s) \<le> MaxPayloadSize \<and> stRemoteOnce s = stReadsClosed s \<and> stCloseOnce s = stClosed s"

definition accept_ok :: "Conn \<Rightarrow> bool" where
  "accept_ok c \<longleftrightarrow>
     length (cnAccept c) \<le> acceptBuffer \<and> (\<forall>a \<in> set (cnAccept c). a < length (cnHeap c))"

definition err_ok :: "Conn \<Rightarrow> bool" where
  "err_ok c \<longleftrightarrow> (cnClosed c \<longleftrightarrow> cnErr c \<noteq> None) \<and> cnCloseOnce c = cnClosed c \<and> \<not> cnPanicked c"

definition parity_ok :: "Side \<Rightarrow> Conn \<Rightarrow> bool" where
  "parity_ok side c \<longleftrightarrow> (odd (unat (cnNextID c)) \<longleftrightarrow> side = SideRelay)"

text \<open>
  The wire holds whole valid frames; only a connection that has been closed may end in the
  prefix of one, left by the write that failed.
\<close>

definition wire_ok :: "Conn \<Rightarrow> bool" where
  "wire_ok c \<longleftrightarrow>
     (\<exists>fs tail. cnWire c = concat (map frame_bytes fs) @ tail \<and>
        list_all (\<lambda>f. validate f = None) fs \<and>
        (tail = [] \<or> cnClosed c \<and> (\<exists>f rest. validate f = None \<and> frame_bytes f = tail @ rest)))"

definition mux_inv :: "Side \<Rightarrow> Conn \<Rightarrow> bool" where
  "mux_inv side c \<longleftrightarrow>
     streams_ok c \<and> list_all stream_ok (cnHeap c) \<and> accept_ok c \<and> err_ok c \<and>
     parity_ok side c \<and> wire_ok c"

subsection \<open>What the primitive operations leave alone\<close>

lemma closeWithErr_frame [frame_simps]:
  "cnStreams (closeWithErr e c) = cnStreams c" "cnNextID (closeWithErr e c) = cnNextID c"
  "cnAccept (closeWithErr e c) = cnAccept c" "cnHeap (closeWithErr e c) = cnHeap c"
  "cnWire (closeWithErr e c) = cnWire c" "cnClosed c \<Longrightarrow> cnClosed (closeWithErr e c)"
  by (simp_all add: closeWithErr_def Let_def)

lemma closeWithErr_closes: "err_ok c \<Longrightarrow> cnClosed (closeWithErr e c)"
  by (simp add: closeWithErr_def err_ok_def Let_def)

lemma writeFrame_frame [frame_simps]:
  "cnStreams (fst (writeFrame wr f c)) = cnStreams c" "cnNextID (fst (writeFrame wr f c)) = cnNextID c"
  "cnAccept (fst (writeFrame wr f c)) = cnAccept c" "cnHeap (fst (writeFrame wr f c)) = cnHeap c"
  by (auto simp: writeFrame_def frame_simps Let_def split: option.splits rawwrite.splits)

lemma removeStream_frame [frame_simps]:
  "cnNextID (removeStream sid c) = cnNextID c" "cnAccept (removeStream sid c) = cnAccept c"
  "cnHeap (removeStream sid c) = cnHeap c" "cnWire (removeStream sid c) = cnWire c"
  "cnClosed (removeStream sid c) = cnClosed c" "cnErr (removeStream sid c) = cnErr c"
  "cnCloseOnce (removeStream sid c) = cnCloseOnce c" "cnPanicked (removeStream sid c) = cnPanicked c"
  "cnStreams (removeStream sid c) = (cnStreams c)(sid := None)"
  by (simp_all add: removeStream_def)

lemma updStream_frame [frame_simps]:
  "cnNextID (updStream a g c) = cnNextID c" "cnAccept (updStream a g c) = cnAccept c"
  "cnStreams (updStream a g c) = cnStreams c" "cnWire (updStream a g c) = cnWire c"
  "cnClosed (updStream a g c) = cnClosed c" "cnErr (updStream a g c) = cnErr c"
  "cnCloseOnce (updStream a g c) = cnCloseOnce c" "cnPanicked (updStream a g c) = cnPanicked c"
  "length (cnHeap (updStream a g c)) = length (cnHeap c)"
  by (simp_all add: updStream_def)

lemma updStream_heap:
  "a < length (cnHeap c) \<Longrightarrow>
   cnHeap (updStream a g c) ! b = (if b = a then g (cnHeap c ! a) else cnHeap c ! b)"
  by (simp add: updStream_def)

lemma registerStream_frame [frame_simps]:
  "cnNextID (registerStream sid c) = cnNextID c" "cnAccept (registerStream sid c) = cnAccept c"
  "cnWire (registerStream sid c) = cnWire c" "cnClosed (registerStream sid c) = cnClosed c"
  "cnErr (registerStream sid c) = cnErr c"
  "cnCloseOnce (registerStream sid c) = cnCloseOnce c" "cnPanicked (registerStream sid c) = cnPanicked c"
  "cnHeap (registerStream sid c) = cnHeap c @ [newStream sid]"
  "cnStreams (registerStream sid c) = (cnStreams c)(sid \<mapsto> length (cnHeap c))"
  by (simp_all add: registerStream_def)

lemma writeFrame_wire:
  assumes "writeFrame wr f c = (c', None)"
  shows "\<not> cnClosed c \<and> validate f = None \<and> c' = c\<lparr>cnWire := cnWire c @ frame_bytes f\<rparr>"
  using assms
  by (auto simp: writeFrame_def WriteFrame_append Let_def split: option.splits if_splits rawwrite.splits)

lemma err_ok_wire: "err_ok (c\<lparr>cnWire := x\<rparr>) = err_ok c"
  by (simp add: err_ok_def)

lemma writeFrame_err: "writeFrame wr f c = (c', Some e) \<Longrightarrow> validate f = None \<Longrightarrow> err_ok c \<Longrightarrow> cnClosed c'"
  by (auto simp: writeFrame_def closeWithErr_closes err_ok_wire Let_def split: if_splits rawwrite.splits)

subsection \<open>The primitive operations keep the invariant\<close>

text \<open>Each conjunct depends on a few fields only, so it carries over to any state that agrees on them.\<close>

lemma streams_ok_cong:
  "streams_ok c \<Longrightarrow> cnStreams c' = cnStreams c \<Longrightarrow> cnHeap c' = cnHeap c \<Longrightarrow> streams_ok c'"
  by (simp add: streams_ok_def)

lemma accept_ok_cong:
  "accept_ok c \<Longrightarrow> cnAccept c' = cnAccept c \<Longrightarrow> length (cnHeap c) \<le> length (cnHeap c') \<Longrightarrow> accept_ok c'"
  by (auto simp: accept_ok_def)

lemma wire_okI:
  "cnWire c = concat (map frame_bytes fs) @ tail \<Longrightarrow> list_all (\<lambda>f. validate f = None) fs \<Longrightarrow>
   tail = [] \<or> cnClosed c \<and> (\<exists>f rest. validate f = None \<and> frame_bytes f = tail @ rest) \<Longrightarrow> wire_ok c"
  unfolding wire_ok_def by blast

lemma wire_ok_mono:
  "wire_ok c \<Longrightarrow> cnWire c' = cnWire c \<Longrightarrow> cnClosed c \<longrightarrow> cnClosed c' \<Longrightarrow> wire_ok c'"
  unfolding wire_ok_def by metis

lemma mux_inv_cong:
  assumes "mux_inv side c" "cnStreams c' = cnStreams c" "cnHeap c' = cnHeap c"
    "cnAccept c' = cnAccept c" "cnNextID c' = cnNextID c" "err_ok c'" "wire_ok c'"
  shows "mux_inv side c'"
  using assms streams_ok_cong [of c c'] accept_ok_cong [of c c']
  by (simp add: mux_inv_def parity_ok_def)

lemma err_ok_closeWithErr: "err_ok c \<Longrightarrow> err_ok (closeWithErr e c)"
  by (auto simp: err_ok_def closeWithErr_def Let_def split: option.split)

lemma inv_closeWithErr [wf_intros]: "mux_inv side c \<Longrightarrow> mux_inv side (closeWithErr e c)"
  by (rule mux_inv_cong)
    (auto simp: frame_simps mux_inv_def err_ok_closeWithErr elim: wire_ok_mono)

lemma wire_ok_open:
  assumes "wire_ok c" "\<not> cnClosed c"
  obtains fs where "cnWire c = concat (map frame_bytes fs)" "list_all (\<lambda>f. validate f = None) fs"
  using assms unfolding wire_ok_def by auto

lemma wire_ok_append:
  assumes "wire_ok c" "\<not> cnClosed c" "validate f = None"
  shows "wire_ok (c\<lparr>cnWire := cnWire c @ frame_bytes f\<rparr>)"
proof -
  from assms obtain fs where "cnWire c = concat (map frame_bytes fs)"
      "list_all (\<lambda>f. validate f = None) fs"
    by (blast elim: wire_ok_open)
  then show ?thesis using assms(3) by (intro wire_okI [of _ "fs @ [f]" "[]"]) simp_all
qed

lemma wire_ok_prefix:
  assumes "wire_ok c" "\<not> cnClosed c" "validate f = None" "err_ok c"
  shows "wire_ok (closeWithErr e (c\<lparr>cnWire := cnWire c @ take n (frame_bytes f)\<rparr>))"
proof -
  from assms obtain fs where fs: "cnWire c = concat (map frame_bytes fs)"
      "list_all (\<lambda>f. validate f = None) fs"
    by (blast elim: wire_ok_open)
  have "frame_bytes f = take n (frame_bytes f) @ drop n (frame_bytes f)" by simp
  then have "\<exists>g rest. validate g = None \<and> frame_bytes g = take n (frame_bytes f) @ rest"
    using assms(3) by blast
  with fs show ?thesis
    by (intro wire_okI [of _ fs "take n (frame_bytes f)"]) (simp_all add: frame_simps closeWithErr_closes err_ok_wire assms(4))
qed

lemma inv_writeFrame [wf_intros]: "mux_inv side c \<Longrightarrow> mux_inv side (fst (writeFrame wr f c))"
proof (cases "validate f = None \<and> \<not> cnClosed c")
  case False
  assume "mux_inv side c"
  then show ?thesis using False by (auto simp: writeFrame_def split: option.splits)
next
  case True
  assume inv: "mux_inv side c"
  then have inv': "wire_ok c" "err_ok c" by (simp_all add: mux_inv_def)
  show ?thesis
  proof (cases wr)
    case WriteOK
    with True inv' show ?thesis
      by (intro mux_inv_cong [OF inv])
        (auto simp: writeFrame_def WriteFrame_append wire_ok_append err_ok_def)
  next
    case (WriteFails n e)
    with True inv' show ?thesis
      by (intro mux_inv_cong [OF inv])
        (auto simp: writeFrame_def WriteFrame_append wire_ok_prefix frame_simps
          intro!: err_ok_closeWithErr, simp add: err_ok_def)
  qed
qed

lemma inv_removeStream [wf_intros]: "mux_inv side c \<Longrightarrow> mux_inv side (removeStream sid c)"
proof -
  assume inv: "mux_inv side c"
  then have "streams_ok (removeStream sid c)" by (auto simp: mux_inv_def streams_ok_def frame_simps)
  moreover have "wire_ok (removeStream sid c)" using inv
    by (auto simp: mux_inv_def frame_simps elim: wire_ok_mono)
  ultimately show ?thesis using inv
    by (simp add: mux_inv_def accept_ok_def err_ok_def parity_ok_def frame_simps)
qed

lemma stream_ok_new: "stream_ok (newStream sid)"
  by (simp add: stream_ok_def newStream_def)

lemma inv_registerStream [wf_intros]: "mux_inv side c \<Longrightarrow> mux_inv side (registerStream sid c)"
proof -
  assume inv: "mux_inv side c"
  then have "streams_ok (registerStream sid c)"
    by (fastforce simp: mux_inv_def streams_ok_def frame_simps nth_append newStream_def split: if_splits)
  moreover have "wire_ok (registerStream sid c)" using inv
    by (auto simp: mux_inv_def frame_simps elim: wire_ok_mono)
  moreover have "accept_ok (registerStream sid c)" using inv
    by (auto simp: mux_inv_def frame_simps elim: accept_ok_cong)
  ultimately show ?thesis using inv
    by (simp add: mux_inv_def err_ok_def parity_ok_def frame_simps stream_ok_new)
qed

lemma odd_unat_add2: "odd (unat (w + 2 :: 32 word)) \<longleftrightarrow> odd (unat w)"
proof -
  have "unat (w + 2) = (unat w + 2) mod 2 ^ 32" by (simp add: unat_word_ariths)
  then show ?thesis by (simp add: dvd_mod_iff)
qed

lemma inv_nextID [wf_intros]:
  assumes inv: "mux_inv side c"
  shows "mux_inv side (c\<lparr>cnNextID := cnNextID c + 2\<rparr>)"
proof -
  have "wire_ok (c\<lparr>cnNextID := cnNextID c + 2\<rparr>)"
    using inv by (auto simp: mux_inv_def elim: wire_ok_mono)
  with inv show ?thesis
    by (simp add: mux_inv_def streams_ok_def accept_ok_def err_ok_def parity_ok_def odd_unat_add2)
qed

lemma inv_updStream:
  assumes inv: "mux_inv side c" and a: "a < length (cnHeap c)"
    and ok: "stream_ok (cnHeap c ! a) \<Longrightarrow> stream_ok (g (cnHeap c ! a))"
    and live: "cnStreams c (stID (cnHeap c ! a)) = Some a \<Longrightarrow>
         stID (g (cnHeap c ! a)) = stID (cnHeap c ! a) \<and> \<not> stReadsClosed (g (cnHeap c ! a))"
  shows "mux_inv side (updStream a g c)"
proof -
  have "list_all stream_ok (cnHeap (updStream a g c))"
    using inv a ok by (simp add: mux_inv_def list_all_length updStream_heap frame_simps)
  moreover have "streams_ok (updStream a g c)"
    unfolding streams_ok_def
  proof (intro allI impI)
    fix i b
    assume "cnStreams (updStream a g c) i = Some b"
    then have b: "cnStreams c i = Some b" by (simp add: frame_simps)
    then have old: "b < length (cnHeap c)" "stID (cnHeap c ! b) = i"
        "\<not> stReadsClosed (cnHeap c ! b)"
      using inv by (auto simp: mux_inv_def streams_ok_def)
    then show "b < length (cnHeap (updStream a g c)) \<and> stID (cnHeap (updStream a g c) ! b) = i \<and>
        \<not> stReadsClosed (cnHeap (updStream a g c) ! b)"
      using a b live by (cases "b = a") (simp_all add: updStream_heap frame_simps)
  qed
  moreover have "wire_ok (updStream a g c)"
    using inv by (auto simp: mux_inv_def frame_simps elim: wire_ok_mono)
  ultimately show ?thesis
    using inv by (simp add: mux_inv_def accept_ok_def err_ok_def parity_ok_def frame_simps)
qed

subsection \<open>Every operation keeps the invariant\<close>

lemma inv_writeFrame_pair [wf_intros]:
  "mux_inv side c \<Longrightarrow> writeFrame wr f c = (c', r) \<Longrightarrow> mux_inv side c'"
  using inv_writeFrame [of side c wr f] by simp

lemma inv_Open_register: "mux_inv side c \<Longrightarrow> Open_register c = (c', sid, a) \<Longrightarrow> mux_inv side c'"
  by (auto simp: Open_register_def Let_def intro: inv_registerStream inv_nextID)

lemma inv_Open:
  assumes inv: "mux_inv side c" and h: "Open wr c = (c', r)"
  shows "mux_inv side c'"
proof (cases "cnClosed c")
  case False
  obtain c1 sid a where o: "Open_register c = (c1, sid, a)" by (cases "Open_register c")
  obtain c2 e where w: "writeFrame wr \<lparr>frType = FrameOpen, frStreamID = sid, frPayload = []\<rparr> c1 = (c2, e)"
    by fastforce
  have "mux_inv side c2" using inv_writeFrame_pair [OF inv_Open_register [OF inv o] w] .
  with h o w False show ?thesis
    by (cases e) (auto simp: Open_def Let_def intro: inv_removeStream)
qed (use assms in \<open>simp add: Open_def\<close>)

lemma inv_Accept: "mux_inv side c \<Longrightarrow> Accept pick c = Done (c', r) \<Longrightarrow> mux_inv side c'"
proof -
  assume inv: "mux_inv side c" and "Accept pick c = Done (c', r)"
  then have "c' = c \<or> c' = c\<lparr>cnAccept := tl (cnAccept c)\<rparr>"
    by (auto simp: Accept_def split: option.splits)
  moreover have "mux_inv side (c\<lparr>cnAccept := tl (cnAccept c)\<rparr>)"
  proof -
    have "wire_ok (c\<lparr>cnAccept := tl (cnAccept c)\<rparr>)"
      using inv by (auto simp: mux_inv_def elim: wire_ok_mono)
    moreover have "set (tl (cnAccept c)) \<subseteq> set (cnAccept c)" by (cases "cnAccept c") auto
    ultimately show ?thesis
      using inv by (auto simp: mux_inv_def streams_ok_def accept_ok_def err_ok_def parity_ok_def)
  qed
  ultimately show ?thesis using inv by blast
qed

lemma inv_Keepalive_tick: "mux_inv side c \<Longrightarrow> Keepalive_tick wr c = (c', r) \<Longrightarrow> mux_inv side c'"
  by (auto simp: Keepalive_tick_def split: prod.splits option.splits dest: inv_writeFrame_pair)

lemma stream_ok_nth: "mux_inv side c \<Longrightarrow> a < length (cnHeap c) \<Longrightarrow> stream_ok (cnHeap c ! a)"
  by (simp add: mux_inv_def list_all_length)

lemma read_cases_RData: "RData b \<in> set (read_cases c s) \<Longrightarrow> \<exists>bs. stReads s = b # bs"
  by (auto simp: read_cases_def split: list.splits if_splits)

lemma live_flags:
  "mux_inv side c \<Longrightarrow> cnStreams c i = Some a \<Longrightarrow>
   a < length (cnHeap c) \<and> stID (cnHeap c ! a) = i \<and> \<not> stReadsClosed (cnHeap c ! a)"
  by (simp add: mux_inv_def streams_ok_def)

lemma inv_updStream_reads:
  assumes "mux_inv side c" and "a < length (cnHeap c)"
    and "stream_ok (cnHeap c ! a) \<Longrightarrow> stream_ok (g (cnHeap c ! a))"
    and "\<And>s. stID (g s) = stID s \<and> stReadsClosed (g s) = stReadsClosed s"
  shows "mux_inv side (updStream a g c)"
  using assms by (intro inv_updStream) (auto dest: live_flags)

text \<open>Under the invariant no empty payload is queued, so \<open>Read\<close> goes round at most twice.\<close>

lemma Read_buffered:
  "stRbuf (cnHeap c ! a) \<noteq> [] \<Longrightarrow>
   Read pick n a c = Done (updStream a (\<lambda>s. s\<lparr>stRbuf := drop n (stRbuf s)\<rparr>) c,
                           Inr (take n (stRbuf (cnHeap c ! a))))"
  by (simp add: Read.simps [of pick n a c] Let_def)

lemma Read_select:
  assumes "mux_inv side c" "a < length (cnHeap c)" "stRbuf (cnHeap c ! a) = []"
  shows "Read pick n a c =
    (case select_ready (pick (length (stReads (cnHeap c ! a)))) (read_cases c (cnHeap c ! a)) of
       None \<Rightarrow> Blocked
     | Some REOF \<Rightarrow> Done (c, Inl EOF)
     | Some RConnErr \<Rightarrow> Done (c, Inl (Conn_Err c))
     | Some (RData b) \<Rightarrow>
         Done (updStream a (\<lambda>s. s\<lparr>stRbuf := drop n b, stReads := tl (stReads s)\<rparr>) c, Inr (take n b)))"
proof -
  let ?sel = "select_ready (pick (length (stReads (cnHeap c ! a)))) (read_cases c (cnHeap c ! a))"
  note unfold = Read.simps [of pick n a c] assms(2,3)
  show ?thesis
  proof (cases "\<exists>b. ?sel = Some (RData b)")
    case True
    then obtain b where sel: "?sel = Some (RData b)" by blast
    let ?c1 = "updStream a (\<lambda>s. s\<lparr>stRbuf := b, stReads := tl (stReads s)\<rparr>) c"
    have b: "b \<noteq> []"
      using read_cases_RData [OF select_ready_in [OF sel]] stream_ok_nth [OF assms(1,2)]
      by (auto simp: stream_ok_def)
    have "stRbuf (cnHeap ?c1 ! a) = b" using assms(2) by (simp add: updStream_heap)
    with b have "Read pick n a ?c1 =
        Done (updStream a (\<lambda>s. s\<lparr>stRbuf := drop n (stRbuf s)\<rparr>) ?c1, Inr (take n b))"
      by (simp add: Read_buffered)
    moreover have "updStream a (\<lambda>s. s\<lparr>stRbuf := drop n (stRbuf s)\<rparr>) ?c1
        = updStream a (\<lambda>s. s\<lparr>stRbuf := drop n b, stReads := tl (stReads s)\<rparr>) c"
      using assms(2) by (cases "cnHeap c ! a") (simp add: updStream_def)
    ultimately show ?thesis using sel unfold by (simp add: Let_def)
  next
    case False
    then show ?thesis using unfold by (auto simp: Let_def split: option.splits read_case.splits)
  qed
qed

lemma Read_cases:
  assumes "mux_inv side c" "a < length (cnHeap c)" "Read pick n a c = Done (c', r)"
  obtains (buffered) "stRbuf (cnHeap c ! a) \<noteq> []"
      "c' = updStream a (\<lambda>s. s\<lparr>stRbuf := drop n (stRbuf s)\<rparr>) c" "r = Inr (take n (stRbuf (cnHeap c ! a)))"
  | (payload) b where "stRbuf (cnHeap c ! a) = []" "stReads (cnHeap c ! a) = b # tl (stReads (cnHeap c ! a))"
      "c' = updStream a (\<lambda>s. s\<lparr>stRbuf := drop n b, stReads := tl (stReads s)\<rparr>) c" "r = Inr (take n b)"
  | (ended) "stRbuf (cnHeap c ! a) = []" "c' = c" "r = Inl EOF"
      "stClosed (cnHeap c ! a) \<or> stReadsClosed (cnHeap c ! a) \<and> stReads (cnHeap c ! a) = []"
  | (failed) "stRbuf (cnHeap c ! a) = []" "c' = c" "r = Inl (Conn_Err c)" "cnClosed c"
proof (cases "stRbuf (cnHeap c ! a) = []")
  case False
  with assms(3) show ?thesis by (intro buffered) (simp_all add: Read_buffered)
next
  case True
  let ?s = "cnHeap c ! a"
  from assms(3) obtain k where k: "select_ready (pick (length (stReads ?s))) (read_cases c ?s) = Some k"
    by (auto simp: Read_select [OF assms(1,2) True] split: option.splits)
  note mem = select_ready_in [OF k]
  note r = assms(3) [unfolded Read_select [OF assms(1,2) True] k, simplified]
  show ?thesis
  proof (cases k)
    case (RData b)
    with mem read_cases_RData obtain bs where "stReads ?s = b # bs" by blast
    with r RData True show ?thesis by (intro payload) auto
  next
    case REOF
    with r mem True show ?thesis by (intro ended) (auto simp: read_cases_def split: list.splits if_splits)
  next
    case RConnErr
    with r mem True show ?thesis by (intro failed) (auto simp: read_cases_def split: list.splits if_splits)
  qed
qed

lemma inv_Read:
  assumes "mux_inv side c" "a < length (cnHeap c)" "Read pick n a c = Done (c', r)"
  shows "mux_inv side c'"
  using assms
proof (cases rule: Read_cases)
  case buffered
  then show ?thesis using assms by (auto intro!: inv_updStream_reads simp: stream_ok_def)
next
  case (payload b)
  have "stream_ok ((cnHeap c ! a)\<lparr>stRbuf := drop n b, stReads := tl (stReads (cnHeap c ! a))\<rparr>)"
    using stream_ok_nth [OF assms(1,2)] payload(2)
    by (cases "stReads (cnHeap c ! a)") (auto simp: stream_ok_def)
  with payload(3) show ?thesis using assms(1,2) by (auto intro!: inv_updStream_reads)
qed (use assms in simp_all)

lemma inv_Write_chunk: "mux_inv side c \<Longrightarrow> Write_chunk wr a p c = (c', r) \<Longrightarrow> mux_inv side c'"
  by (auto simp: Write_chunk_def Let_def split: if_splits prod.splits option.splits
      dest: inv_writeFrame_pair)

lemma removeStream_updStream:
  "removeStream sid (updStream a g c) = updStream a g (removeStream sid c)"
  by (simp add: removeStream_def updStream_def)

lemma inv_drop_updStream:
  assumes "mux_inv side c" "a < length (cnHeap c)" "sid = stID (cnHeap c ! a)"
    and "\<And>s. stream_ok s \<Longrightarrow> stream_ok (g s)"
  shows "mux_inv side (removeStream sid (updStream a g c))"
  unfolding removeStream_updStream
  by (rule inv_updStream) (use assms in \<open>simp_all add: inv_removeStream frame_simps\<close>)

lemma stream_once:
  "mux_inv side c \<Longrightarrow> a < length (cnHeap c) \<Longrightarrow>
   stRemoteOnce (cnHeap c ! a) = stReadsClosed (cnHeap c ! a) \<and> stCloseOnce (cnHeap c ! a) = stClosed (cnHeap c ! a)"
  using stream_ok_nth [of side c a] by (simp add: stream_ok_def)

text \<open>No channel is closed twice: the flag of its \<open>Once\<close> says whether it is closed.\<close>

lemma Stream_Close_mark_inv:
  assumes "mux_inv side c" "a < length (cnHeap c)"
  shows "Stream_Close_mark a c =
    (if stClosed (cnHeap c ! a) then (c, False) else (updStream a (\<lambda>s. s\<lparr>stCloseOnce := True, stClosed := True\<rparr>) c, True))"
  using stream_once [OF assms] assms(2)
  by (cases "cnHeap c ! a") (simp add: Stream_Close_mark_def Let_def updStream_def)

lemma remoteClosed_inv:
  assumes "mux_inv side c" "a < length (cnHeap c)"
  shows "remoteClosed a c =
    (if stReadsClosed (cnHeap c ! a) then c else updStream a (\<lambda>s. s\<lparr>stRemoteOnce := True, stReadsClosed := True\<rparr>) c)"
  using stream_once [OF assms] assms(2)
  by (cases "cnHeap c ! a") (simp add: remoteClosed_def Let_def updStream_def)

lemma inv_Stream_Close_mark:
  "mux_inv side c \<Longrightarrow> a < length (cnHeap c) \<Longrightarrow> Stream_Close_mark a c = (c', b) \<Longrightarrow> mux_inv side c'"
  by (auto simp: Stream_Close_mark_inv stream_ok_def split: if_splits intro!: inv_updStream_reads)

lemma inv_Stream_Close:
  "mux_inv side c \<Longrightarrow> a < length (cnHeap c) \<Longrightarrow> Stream_Close wr a c = (c', r) \<Longrightarrow> mux_inv side c'"
proof -
  assume c: "mux_inv side c" "a < length (cnHeap c)" and s: "Stream_Close wr a c = (c', r)"
  obtain c1 b where g: "Stream_Close_mark a c = (c1, b)" by (cases "Stream_Close_mark a c")
  from inv_Stream_Close_mark [OF c g] have c1: "mux_inv side c1" .
  show "mux_inv side c'" using s g c1 inv_writeFrame_pair [OF inv_removeStream [OF c1]]
    by (cases b) (auto simp: Stream_Close_def Let_def)
qed

lemma deliver_Done:
  assumes "deliver pick a b c = Done c'"
  shows "c' = c \<or> (b \<noteq> [] \<and> length (stReads (cnHeap c ! a)) < streamBuffer \<and>
    \<not> stReadsClosed (cnHeap c ! a) \<and> c' = updStream a (\<lambda>s. s\<lparr>stReads := stReads s @ [b]\<rparr>) c)"
proof (cases "b = []")
  case False
  with assms obtain k where k: "select_ready pick (deliver_cases c (cnHeap c ! a)) = Some k"
    by (auto simp: deliver_def split: option.splits)
  with select_ready_in [OF k] assms False show ?thesis
    by (cases k) (auto simp: deliver_def deliver_cases_def split: if_splits)
qed (use assms in \<open>simp add: deliver_def\<close>)

lemma inv_deliver:
  assumes "mux_inv side c" "a < length (cnHeap c)" "length b \<le> MaxPayloadSize" "deliver pick a b c = Done c'"
  shows "mux_inv side c'"
  using deliver_Done [OF assms(4)] assms(1-3)
  by (auto intro!: inv_updStream_reads simp: stream_ok_def)

lemma inv_handleOpen: "mux_inv side c \<Longrightarrow> mux_inv side (handleOpen wr sid c)"
proof -
  assume inv: "mux_inv side c"
  let ?c1 = "registerStream sid c"
  have inv1: "mux_inv side ?c1" using inv by (rule inv_registerStream)
  have "mux_inv side (?c1\<lparr>cnAccept := cnAccept ?c1 @ [length (cnHeap c)]\<rparr>)"
    if "length (cnAccept ?c1) < acceptBuffer"
  proof -
    have "wire_ok (?c1\<lparr>cnAccept := cnAccept ?c1 @ [length (cnHeap c)]\<rparr>)"
      using inv1 by (auto simp: mux_inv_def elim: wire_ok_mono)
    with inv1 that show ?thesis
      by (auto simp: mux_inv_def streams_ok_def accept_ok_def err_ok_def parity_ok_def frame_simps)
  qed
  then show ?thesis
    using inv inv1 by (auto simp: handleOpen_def Let_def wf_intros)
qed

lemma inv_handleFrame:
  assumes inv: "mux_inv side c" and v: "validate f = None" and h: "handleFrame pick wr f c = Done (c', l)"
  shows "mux_inv side c'"
proof -
  have len: "length (frPayload f) \<le> MaxPayloadSize" using v by (simp add: validate_None)
  have cl: "mux_inv side (removeStream i (remoteClosed a c))" if "cnStreams c i = Some a" for i a
    using live_flags [OF inv that] inv
    by (auto simp: remoteClosed_inv stream_ok_def intro!: inv_drop_updStream)
  show ?thesis
    using h inv len
    by (auto simp: handleFrame_def Let_def stream_def outcome_simps inv_handleOpen cl
        split: if_splits option.splits intro: wf_intros inv_deliver dest: live_flags)
qed

lemma mux_act_inv:
  assumes "mux_inv side c" "ev_ok c ev" "mux_act ev c = Done (c', r)"
  shows "mux_inv side c'"
  using assms
  by (cases ev)
    (auto simp: outcome_simps Conn_Close_def split: prod.splits
      intro: inv_handleFrame inv_closeWithErr inv_Open_register inv_removeStream inv_writeFrame_pair inv_Accept inv_Read
        inv_Write_chunk inv_Stream_Close_mark inv_Keepalive_tick)

lemma mux_inv_no_panic: "mux_inv side c \<Longrightarrow> \<not> cnPanicked c"
  by (simp add: mux_inv_def err_ok_def)

text \<open>Under the invariant an event does what its critical section does.\<close>

lemma mux_do_act: "mux_inv side c \<Longrightarrow> ev_ok c ev \<Longrightarrow> mux_do ev c = mux_act ev c"
  using mux_inv_no_panic mux_act_inv [of side c ev] by (cases "mux_act ev c") (auto simp: mux_do_def)

lemma mux_do_inv: "mux_inv side c \<Longrightarrow> ev_ok c ev \<Longrightarrow> mux_do ev c = Done (c', r) \<Longrightarrow> mux_inv side c'"
  by (simp add: mux_do_act mux_act_inv)

lemma inv_NewConn: "mux_inv side (NewConn side)"
  by (cases side)
    (auto simp: mux_inv_def NewConn_def streams_ok_def accept_ok_def err_ok_def parity_ok_def
      intro: wire_okI [of _ "[]" "[]"])

lemma mux_reach_inv: "mux_reach side c \<Longrightarrow> mux_inv side c"
  by (induction rule: mux_reach.induct) (auto intro: inv_NewConn mux_do_inv)

lemma mux_reach_act: "mux_reach side c \<Longrightarrow> ev_ok c ev \<Longrightarrow> mux_act ev c = Done (c', r) \<Longrightarrow> mux_reach side c'"
  using mux_do_act [OF mux_reach_inv, of side c ev] by (metis mux_reach.step)

text \<open>The whole operations are runs of these events, so they lead from reachable states to reachable ones.\<close>

lemma reach_removeStream: "mux_reach side c \<Longrightarrow> mux_reach side (removeStream sid c)"
  by (rule mux_reach_act [where ev = "EvRemove sid" and r = NoReply]) simp_all

lemma reach_writeFrame: "mux_reach side c \<Longrightarrow> writeFrame wr f c = (c', r) \<Longrightarrow> mux_reach side c'"
  using mux_reach_act [of side c "EvSend wr f" c' "ErrReply r"] by simp

lemma reach_Open: "mux_reach side c \<Longrightarrow> Open wr c = (c', r) \<Longrightarrow> mux_reach side c'"
proof -
  assume c: "mux_reach side c" and o: "Open wr c = (c', r)"
  obtain c1 sid a where g: "Open_register c = (c1, sid, a)" by (cases "Open_register c")
  with c have c1: "mux_reach side c1" using mux_reach_act [of side c EvOpen c1 "OpenReply sid a"] by simp
  obtain c2 e where w: "writeFrame wr \<lparr>frType = FrameOpen, frStreamID = sid, frPayload = []\<rparr> c1 = (c2, e)"
    by fastforce
  show ?thesis using o g w c reach_writeFrame [OF c1 w] reach_removeStream [OF reach_writeFrame [OF c1 w]]
    by (cases e) (auto simp: Open_def split: if_splits)
qed

lemma reach_Stream_Close:
  "mux_reach side c \<Longrightarrow> a < length (cnHeap c) \<Longrightarrow> Stream_Close wr a c = (c', r) \<Longrightarrow> mux_reach side c'"
proof -
  assume c: "mux_reach side c" "a < length (cnHeap c)" and s: "Stream_Close wr a c = (c', r)"
  obtain c1 b where g: "Stream_Close_mark a c = (c1, b)" by (cases "Stream_Close_mark a c")
  with c have c1: "mux_reach side c1" using mux_reach_act [of side c "EvCloseMark a" c1 "BoolReply b"] by simp
  show ?thesis using s g c1 reach_writeFrame [OF reach_removeStream [OF c1]]
    by (cases b) (auto simp: Stream_Close_def Let_def)
qed

lemma reach_frame:
  "mux_reach side c \<Longrightarrow> validate f = None \<Longrightarrow> handleFrame pick wr f c = Done (c', l) \<Longrightarrow> mux_reach side c'"
  using mux_reach_act [of side c "EvFrame pick wr f" c' "LoopReply l"] by simp

end
