(* ===== verification/MuxProps.thy ===== *)
theory MuxProps
  imports MuxRun
begin

text \<open>
  What the multiplexer promises its users, derived from the invariant of \<open>MuxRun\<close>: no
  panic, bounded queues, a wire of whole frames, a first-in first-out byte stream per logical
  stream, exact conditions for head-of-line blocking, and stream ids that never collide.
\<close>

section \<open>Safety of reachable states\<close>

lemma deliver_no_panic:
  "\<not> stReadsClosed (cnHeap c ! a) \<Longrightarrow> deliver pick a b c \<noteq> Panic"
proof -
  assume nc: "\<not> stReadsClosed (cnHeap c ! a)"
  then have "DPanic \<notin> set (deliver_cases c (cnHeap c ! a))" by (auto simp: deliver_cases_def)
  then have "select_ready pick (deliver_cases c (cnHeap c ! a)) \<noteq> Some DPanic"
    using select_ready_in by fastforce
  then show ?thesis by (auto simp: deliver_def split: option.splits deliver_case.splits)
qed

lemma Read_no_panic: "mux_inv side c \<Longrightarrow> a < length (cnHeap c) \<Longrightarrow> Read pick n a c \<noteq> Panic"
  by (cases "stRbuf (cnHeap c ! a) = []")
    (auto simp: Read_buffered Read_select split: option.splits read_case.splits)

lemma mux_do_no_panic: "mux_inv side c \<Longrightarrow> ev_ok c ev \<Longrightarrow> mux_do ev c \<noteq> Panic"
proof (cases ev)
  case (EvFrame pick wr f)
  assume inv: "mux_inv side c" and "ev_ok c ev"
  have "deliver pick a (frPayload f) c \<noteq> Panic" if "cnStreams c (frStreamID f) = Some a" for a
    using live_flags [OF inv that] by (intro deliver_no_panic) simp
  then show ?thesis unfolding mux_do_act [OF inv \<open>ev_ok c ev\<close>]
    by (auto simp: EvFrame outcome_simps handleFrame_def Let_def stream_def split: if_splits option.splits)
qed (auto simp: mux_do_act outcome_simps Accept_def Read_no_panic split: prod.splits option.splits)

text \<open>C29: No operation on a reachable connection panics: no stream channel is sent on after it has been closed,
  and neither a stream's two channels nor the connection's is closed twice, whatever the peer sends and however
  the parts of the operations interleave.\<close>

theorem mux_never_panics:
  "mux_reach side c \<Longrightarrow> ev_ok c ev \<Longrightarrow> mux_do ev c \<noteq> Panic"
  by (rule mux_do_no_panic [OF mux_reach_inv])

text \<open>A connection on which the peer opened and closed stream 5, and which was itself closed.\<close>

abbreviation five :: Frame where
  "five \<equiv> \<lparr>frType = FrameOpen, frStreamID = 5, frPayload = []\<rparr>"

lemma five_frames: "validate five = None" "validate (five\<lparr>frType := FrameClose\<rparr>) = None"
  by (simp_all add: MaxPayloadSize_def)

lemma five_reach: "mux_reach SideTunnel (Conn_Close (removeStream 5 (remoteClosed 0 (handleOpen WriteOK 5 (NewConn SideTunnel)))))"
proof -
  let ?c = "handleOpen WriteOK 5 (NewConn SideTunnel)"
  have c: "mux_reach SideTunnel ?c"
    by (rule reach_frame [OF mux_reach.start, of five]) (simp_all add: five_frames handleFrame_def)
  have "cnStreams ?c 5 = Some 0" by (simp add: handleOpen_def NewConn_def registerStream_def acceptBuffer_def)
  then have "mux_reach SideTunnel (removeStream 5 (remoteClosed 0 ?c))"
    by (intro reach_frame [OF c five_frames(2), of 0 WriteOK _ Continue])
      (simp add: handleFrame_def stream_def frame_type_defs)
  then show ?thesis by (rule mux_reach_act [where ev = EvClose and r = NoReply]) simp_all
qed

theorem mux_never_panics_witness:
  "mux_do EvClose (Conn_Close (removeStream 5 (remoteClosed 0 (handleOpen WriteOK 5 (NewConn SideTunnel))))) \<noteq> Panic"
  by (rule mux_never_panics [OF five_reach]) simp

lemma sum_list_bound: "\<forall>x \<in> set xs. f x \<le> (k::nat) \<Longrightarrow> sum_list (map f xs) \<le> length xs * k"
  by (induction xs) (auto simp: add_mono)

text \<open>In every reachable state the memory a peer can tie up is bounded: a stream holds at most
  16 undelivered payloads and a partly read one, 17 x 64 KiB in all, and at most 64 streams wait to be
  accepted.\<close>

theorem mux_buffers_bounded:
  assumes "mux_reach side c" and "s \<in> set (cnHeap c)"
  shows "length (concat (stReads s)) + length (stRbuf s) \<le> (streamBuffer + 1) * MaxPayloadSize \<and>
    length (cnAccept c) \<le> acceptBuffer"
proof -
  have inv: "mux_inv side c" using assms(1) by (rule mux_reach_inv)
  then have ok: "stream_ok s" using assms(2) by (auto simp: mux_inv_def list_all_iff)
  have "length (concat (stReads s)) \<le> length (stReads s) * MaxPayloadSize"
    using ok unfolding length_concat by (intro sum_list_bound) (simp add: stream_ok_def)
  also have "\<dots> \<le> streamBuffer * MaxPayloadSize" using ok by (simp add: stream_ok_def)
  finally show ?thesis using ok inv by (simp add: stream_ok_def mux_inv_def accept_ok_def)
qed

theorem mux_buffers_bounded_witness:
  "length (cnAccept (fst (Open WriteOK (NewConn SideRelay)))) \<le> acceptBuffer"
proof -
  have v: "validate \<lparr>frType = FrameOpen, frStreamID = 1, frPayload = []\<rparr> = None"
    by (simp add: MaxPayloadSize_def)
  have r: "mux_reach SideRelay (fst (Open WriteOK (NewConn SideRelay)))"
    by (rule reach_Open [OF mux_reach.start]) (rule prod.collapse [symmetric])
  have "newStream 1 \<in> set (cnHeap (fst (Open WriteOK (NewConn SideRelay))))"
    using v by (simp add: Open_def Open_register_def NewConn_def Let_def writeFrame_def registerStream_def)
  from mux_buffers_bounded [OF r this] show ?thesis by simp
qed

text \<open>As long as a connection is open, the bytes it has written are a concatenation of whole valid
  frames, and the peer's decoder reads exactly those frames back: concurrent writers never interleave.\<close>

theorem mux_wire_decodes:
  assumes "mux_reach side c" and "\<not> cnClosed c"
  shows "\<exists>fs. list_all (\<lambda>f. validate f = None) fs \<and>
    read_frames ReadFrame (length fs) (cnWire c, e) = Inr (fs, ([], e))"
proof -
  have "wire_ok c" using mux_reach_inv [OF assms(1)] by (simp add: mux_inv_def)
  then obtain fs where "cnWire c = concat (map frame_bytes fs)" "list_all (\<lambda>f. validate f = None) fs"
    using assms(2) by (rule wire_ok_open)
  then show ?thesis using fc.get_many [of fs "[]" e] by auto
qed

theorem mux_wire_decodes_witness:
  "\<exists>fs. list_all (\<lambda>f. validate f = None) fs \<and>
    read_frames ReadFrame (length fs) (cnWire (NewConn SideTunnel), EOF) = Inr (fs, ([], EOF))"
  by (rule mux_wire_decodes [OF mux_reach.start]) (simp add: NewConn_def)

section \<open>A stream is a first-in first-out byte queue\<close>

text \<open>What is still to be read from a stream object, in order.\<close>

definition pending :: "Conn \<Rightarrow> addr \<Rightarrow> bytes" where
  "pending c a = stRbuf (cnHeap c ! a) @ concat (stReads (cnHeap c ! a))"

text \<open>The payload an event brings in for a stream, and the bytes it hands to that stream's reader.\<close>

fun brought :: "addr \<Rightarrow> Conn \<Rightarrow> mux_event \<Rightarrow> bytes" where
  "brought a c (EvFrame pick wr f) =
     (if frType f = FrameData \<and> cnStreams c (frStreamID f) = Some a then frPayload f else [])"
| "brought a c _ = []"

fun handed :: "addr \<Rightarrow> mux_event \<Rightarrow> mux_reply \<Rightarrow> bytes" where
  "handed a (EvRead pick n b) (ReadReply (Inr bs)) = (if b = a then bs else [])"
| "handed a _ _ = []"

text \<open>A run of events, with everything brought in for and handed out from stream \<open>a\<close>.\<close>

fun mux_trace :: "addr \<Rightarrow> mux_event list \<Rightarrow> Conn \<Rightarrow> (Conn \<times> bytes \<times> bytes) option" where
  "mux_trace a [] c = Some (c, [], [])"
| "mux_trace a (ev # evs) c =
     (if \<not> ev_ok c ev then None
      else case mux_do ev c of
        Done (c', r) \<Rightarrow>
          map_option (\<lambda>(d, i, out). (d, brought a c ev @ i, handed a ev r @ out)) (mux_trace a evs c')
      | _ \<Rightarrow> None)"

text \<open>A step changes a stream object by a delivery, a read or a flag; the rest of the store is kept.\<close>

definition heap_step :: "addr \<Rightarrow> Conn \<Rightarrow> Conn \<Rightarrow> bool" where
  "heap_step a c c' \<longleftrightarrow> a < length (cnHeap c) \<and> a < length (cnHeap c') \<and>
     (stClosed (cnHeap c ! a) \<longrightarrow> stClosed (cnHeap c' ! a)) \<and> (cnClosed c \<longrightarrow> cnClosed c')"

definition heap_same :: "addr \<Rightarrow> Conn \<Rightarrow> Conn \<Rightarrow> bool" where
  "heap_same a c c' \<longleftrightarrow> heap_step a c c' \<and> pending c' a = pending c a"

lemma heap_same_trans: "heap_same a c d \<Longrightarrow> heap_same a d e \<Longrightarrow> heap_same a c e"
  by (auto simp: heap_same_def heap_step_def)

lemma heap_sameI:
  "a < length (cnHeap c) \<Longrightarrow> cnHeap c' = cnHeap c \<or> (\<exists>s. cnHeap c' = cnHeap c @ [s]) \<Longrightarrow>
   (cnClosed c \<Longrightarrow> cnClosed c') \<Longrightarrow> heap_same a c c'"
  by (auto simp: heap_same_def heap_step_def pending_def nth_append)

lemma writeFrame_closed: "cnClosed c \<Longrightarrow> cnClosed (fst (writeFrame wr f c))"
  by (auto simp: writeFrame_def split: option.splits)

lemma same_writeFrame: "a < length (cnHeap c) \<Longrightarrow> heap_same a c (fst (writeFrame wr f c))"
  by (rule heap_sameI) (simp_all add: frame_simps writeFrame_closed)

lemma same_writeFrame_pair: "writeFrame wr f c = (c', r) \<Longrightarrow> a < length (cnHeap c) \<Longrightarrow> heap_same a c c'"
  using same_writeFrame [of a c wr f] by simp

lemma same_closeWithErr: "a < length (cnHeap c) \<Longrightarrow> heap_same a c (closeWithErr e c)"
  by (rule heap_sameI) (simp_all add: frame_simps)

lemma same_removeStream: "a < length (cnHeap c) \<Longrightarrow> heap_same a c (removeStream i c)"
  by (rule heap_sameI) (simp_all add: frame_simps)

lemma same_registerStream: "a < length (cnHeap c) \<Longrightarrow> heap_same a c (registerStream i c)"
  by (rule heap_sameI) (simp_all add: frame_simps)

lemma same_updStream:
  "a < length (cnHeap c) \<Longrightarrow> b < length (cnHeap c) \<Longrightarrow>
   (\<And>s. stReads (g s) = stReads s \<and> stRbuf (g s) = stRbuf s \<and> (stClosed s \<longrightarrow> stClosed (g s))) \<Longrightarrow>
   heap_same a c (updStream b g c)"
  by (auto simp: heap_same_def heap_step_def pending_def frame_simps updStream_heap)

lemma heap_same_length: "heap_same a c c' \<Longrightarrow> a < length (cnHeap c')"
  by (simp add: heap_same_def heap_step_def)

lemma same_Open_register: "Open_register c = (c', sid, b) \<Longrightarrow> a < length (cnHeap c) \<Longrightarrow> heap_same a c c'"
  by (auto simp: Open_register_def Let_def frame_simps intro!: heap_sameI)

lemma same_handleOpen: "a < length (cnHeap c) \<Longrightarrow> heap_same a c (handleOpen wr i c)"
  by (auto simp: handleOpen_def Let_def intro: same_closeWithErr heap_sameI simp: frame_simps)
    (metis heap_same_length heap_same_trans same_registerStream same_removeStream same_writeFrame)

lemma same_panicked: "a < length (cnHeap c) \<Longrightarrow> heap_same a c (c\<lparr>cnPanicked := b\<rparr>)"
  by (rule heap_sameI) simp_all

lemma same_Stream_Close_mark:
  assumes "mux_inv side c" "Stream_Close_mark b c = (c', r)" "a < length (cnHeap c)" "b < length (cnHeap c)"
  shows "heap_same a c c'"
  using assms same_updStream [OF assms(3,4), of "\<lambda>s. s\<lparr>stCloseOnce := True, stClosed := True\<rparr>"]
  by (auto simp: Stream_Close_mark_inv heap_same_def heap_step_def split: if_splits)

lemma same_remoteClosed:
  assumes "mux_inv side c" "a < length (cnHeap c)" "b < length (cnHeap c)"
  shows "heap_same a c (remoteClosed b c)"
  using assms same_updStream [OF assms(2,3), of "\<lambda>s. s\<lparr>stRemoteOnce := True, stReadsClosed := True\<rparr>"]
  by (auto simp: remoteClosed_inv heap_same_def heap_step_def)

lemma same_refl: "a < length (cnHeap c) \<Longrightarrow> heap_same a c c"
  by (simp add: heap_same_def heap_step_def)

text \<open>
  One step: what was pending, then what the step brought in, is what the step handed out,
  then what is pending now, as long as the stream and the connection are still open after it.
\<close>

definition conserves :: "addr \<Rightarrow> Conn \<Rightarrow> mux_event \<Rightarrow> mux_reply \<Rightarrow> Conn \<Rightarrow> bool" where
  "conserves a c ev r c' \<longleftrightarrow>
     heap_step a c c' \<and>
     (\<not> stClosed (cnHeap c' ! a) \<longrightarrow> \<not> cnClosed c' \<longrightarrow>
        pending c a @ brought a c ev = handed a ev r @ pending c' a)"

lemma conserves_same:
  "heap_same a c c' \<Longrightarrow> brought a c ev = [] \<Longrightarrow> handed a ev r = [] \<Longrightarrow> conserves a c ev r c'"
  by (simp add: conserves_def heap_same_def)

lemma deliver_open:
  assumes "deliver pick a b c = Done c'" "\<not> stClosed (cnHeap c ! a)" "\<not> cnClosed c"
    "\<not> stReadsClosed (cnHeap c ! a)"
  shows "(b = [] \<and> c' = c) \<or> c' = updStream a (\<lambda>s. s\<lparr>stReads := stReads s @ [b]\<rparr>) c"
  using assms
  by (auto simp: deliver_def deliver_cases_def split: if_splits option.splits)

lemma conserves_deliver:
  assumes inv: "mux_inv side c" and i: "cnStreams c (frStreamID f) = Some b"
    and t: "frType f = FrameData" and d: "deliver pick b (frPayload f) c = Done c'"
    and a: "a < length (cnHeap c)"
  shows "conserves a c (EvFrame pick wr f) (LoopReply Continue) c'"
proof -
  have b: "b < length (cnHeap c)" "\<not> stReadsClosed (cnHeap c ! b)" using live_flags [OF inv i] by auto
  have step: "heap_step a c c'"
    using deliver_Done [OF d] a b by (auto simp: heap_step_def frame_simps updStream_heap)
  have "pending c a @ brought a c (EvFrame pick wr f) = pending c' a"
    if "\<not> stClosed (cnHeap c' ! a)" "\<not> cnClosed c'"
  proof (cases "b = a")
    case True
    have "\<not> stClosed (cnHeap c ! a)" "\<not> cnClosed c" using step that by (auto simp: heap_step_def)
    with deliver_open [OF d] b True
    show ?thesis using i t by (auto simp: pending_def updStream_heap)
  next
    case False
    then show ?thesis using deliver_Done [OF d] i b by (auto simp: pending_def updStream_heap)
  qed
  with step show ?thesis by (simp add: conserves_def)
qed

lemma conserves_handleFrame:
  assumes inv: "mux_inv side c" and h: "handleFrame pick wr f c = Done (c', l)"
    and a: "a < length (cnHeap c)"
  shows "conserves a c (EvFrame pick wr f) (LoopReply l) c'"
proof (cases "frType f = FrameData \<and> cnStreams c (frStreamID f) \<noteq> None")
  case True
  then obtain b where b: "cnStreams c (frStreamID f) = Some b" by blast
  with True h have "l = Continue" "deliver pick b (frPayload f) c = Done c'"
    by (auto simp: handleFrame_def Let_def stream_def outcome_simps frame_type_defs)
  with conserves_deliver [OF inv b _ _ a] True show ?thesis by blast
next
  case False
  have cl: "heap_same a c (removeStream i (remoteClosed b c))" if "cnStreams c i = Some b" for i b
    using live_flags [OF inv that] a
    by (meson inv heap_same_length heap_same_trans same_remoteClosed same_removeStream)
  have "heap_same a c c'"
    using h False a
    by (auto simp: handleFrame_def Let_def stream_def split: if_splits option.splits
        intro: same_handleOpen same_writeFrame same_closeWithErr same_refl cl)
  then show ?thesis using False by (intro conserves_same) auto
qed

lemma conserves_Read:
  assumes inv: "mux_inv side c" and b: "b < length (cnHeap c)" and a: "a < length (cnHeap c)"
    and r: "Read pick n b c = Done (c', r)"
  shows "conserves a c (EvRead pick n b) (ReadReply r) c'"
  using inv b r
proof (cases rule: Read_cases)
  case buffered
  then show ?thesis using a b
    by (auto simp: conserves_def heap_step_def pending_def frame_simps updStream_heap)
next
  case (payload x)
  then have "stReads (cnHeap c ! b) = x # tl (stReads (cnHeap c ! b))" by simp
  then have "concat (stReads (cnHeap c ! b)) = x @ concat (tl (stReads (cnHeap c ! b)))"
    by (metis concat.simps(2))
  with payload show ?thesis using a b
    by (auto simp: conserves_def heap_step_def pending_def frame_simps updStream_heap)
qed (use a in \<open>auto intro!: conserves_same same_refl\<close>)

lemma same_Accept: "Accept pick c = Done (c', r) \<Longrightarrow> a < length (cnHeap c) \<Longrightarrow> heap_same a c c'"
  by (auto simp: Accept_def split: option.splits intro!: heap_sameI)

lemma same_Write_chunk: "Write_chunk wr b p c = (c', r) \<Longrightarrow> a < length (cnHeap c) \<Longrightarrow> heap_same a c c'"
  by (auto simp: Write_chunk_def Let_def split: if_splits prod.splits option.splits
      intro: same_writeFrame_pair same_refl)

lemma same_Keepalive_tick: "Keepalive_tick wr c = (c', r) \<Longrightarrow> a < length (cnHeap c) \<Longrightarrow> heap_same a c c'"
  by (auto simp: Keepalive_tick_def split: prod.splits option.splits intro: same_writeFrame_pair)

lemma mux_do_conserves:
  assumes inv: "mux_inv side c" and ok: "ev_ok c ev" and "mux_do ev c = Done (c', r)"
    and a: "a < length (cnHeap c)"
  shows "conserves a c ev r c'"
proof -
  from assms have d: "mux_act ev c = Done (c', r)" by (simp add: mux_do_act)
  show ?thesis
  proof (cases ev)
    case (EvFrame pick wr f)
    then show ?thesis using d conserves_handleFrame [OF inv _ a] by (auto simp: outcome_simps)
  next
    case (EvRead pick n b)
    then show ?thesis using d ok conserves_Read [OF inv _ a] by (auto simp: outcome_simps)
  next
    case (EvAccept pick)
    then show ?thesis using d a by (auto simp: outcome_simps intro!: conserves_same same_Accept)
  next
    case EvOpen
    then show ?thesis using d a by (auto split: prod.splits intro!: conserves_same same_Open_register)
  next
    case (EvRemove sid)
    then show ?thesis using d a by (auto intro!: conserves_same same_removeStream)
  next
    case (EvSend wr f)
    then show ?thesis using d a by (auto split: prod.splits intro!: conserves_same same_writeFrame_pair)
  next
    case (EvWrite wr b p)
    then show ?thesis using d a by (auto split: prod.splits intro!: conserves_same same_Write_chunk)
  next
    case (EvCloseMark b)
    then show ?thesis using d a ok by (auto split: prod.splits intro!: conserves_same same_Stream_Close_mark [OF inv])
  next
    case (EvPing wr)
    then show ?thesis using d a by (auto split: prod.splits intro!: conserves_same same_Keepalive_tick)
  qed (use d a in \<open>auto simp: Conn_Close_def intro!: conserves_same same_closeWithErr\<close>)
qed

lemma mux_trace_flags:
  "mux_trace a evs c = Some (d, i, out) \<Longrightarrow> mux_inv side c \<Longrightarrow> a < length (cnHeap c) \<Longrightarrow>
   heap_step a c d"
proof (induction evs arbitrary: c i out)
  case (Cons ev evs)
  then obtain c' r i' out' where s: "ev_ok c ev" "mux_do ev c = Done (c', r)"
      "mux_trace a evs c' = Some (d, i', out')"
    by (auto split: if_splits outcome.splits prod.splits)
  then have 1: "heap_step a c c'"
    using mux_do_conserves [OF Cons.prems(2) _ _ Cons.prems(3)] by (simp add: conserves_def)
  with Cons.IH [OF s(3) mux_do_inv [OF Cons.prems(2) s(1,2)]] show ?case
    by (auto simp: heap_step_def)
qed (simp add: heap_step_def)

lemma mux_trace_fifo:
  "mux_trace a evs c = Some (d, i, out) \<Longrightarrow> mux_inv side c \<Longrightarrow> a < length (cnHeap c) \<Longrightarrow>
   \<not> stClosed (cnHeap d ! a) \<Longrightarrow> \<not> cnClosed d \<Longrightarrow> pending c a @ i = out @ pending d a"
proof (induction evs arbitrary: c i out)
  case (Cons ev evs)
  then obtain c' r i' out' where s: "ev_ok c ev" "mux_do ev c = Done (c', r)"
      "mux_trace a evs c' = Some (d, i', out')"
      and io: "i = brought a c ev @ i'" "out = handed a ev r @ out'"
    by (auto split: if_splits outcome.splits prod.splits)
  have inv': "mux_inv side c'" using Cons.prems(2) s(1,2) by (rule mux_do_inv)
  have cons: "conserves a c ev r c'" using mux_do_conserves [OF Cons.prems(2) s(1,2) Cons.prems(3)] .
  then have a': "a < length (cnHeap c')" by (simp add: conserves_def heap_step_def)
  have "\<not> stClosed (cnHeap c' ! a)" "\<not> cnClosed c'"
    using mux_trace_flags [OF s(3) inv' a'] Cons.prems(4,5) by (auto simp: heap_step_def)
  with cons have "pending c a @ brought a c ev = handed a ev r @ pending c' a"
    by (simp add: conserves_def)
  moreover have "pending c' a @ i' = out' @ pending d a"
    using Cons.IH [OF s(3) inv' a' Cons.prems(4,5)] .
  ultimately show ?case using io by (metis append.assoc)
qed simp

text \<open>C11: A stream is a lossless first-in first-out byte queue: over any run of any interleaving of
  events on the connection, the bytes handed to the readers of a stream followed by what is still
  buffered are exactly what was buffered before followed by every DATA payload that arrived for it, as
  long as neither the stream nor the connection has been closed here.\<close>

theorem mux_stream_fifo:
  assumes "mux_reach side c" and "a < length (cnHeap c)" and "mux_trace a evs c = Some (d, i, out)"
    and "\<not> stClosed (cnHeap d ! a)" and "\<not> cnClosed d"
  shows "out @ pending d a = pending c a @ i"
  using mux_trace_fifo [OF assms(3) mux_reach_inv [OF assms(1)] assms(2,4,5)] by simp

theorem mux_stream_fifo_witness:
  "\<exists>d. mux_trace 0 [EvFrame 0 WriteOK \<lparr>frType = FrameData, frStreamID = 1, frPayload = [7, 8, 9]\<rparr>,
                   EvRead (\<lambda>_. 0) 2 0] (fst (Open WriteOK (NewConn SideRelay)))
     = Some (d, [7, 8, 9], [7, 8]) \<and> [7, 8] @ pending d 0 = pending (fst (Open WriteOK (NewConn SideRelay))) 0 @ [7, 8, 9]"
proof -
  let ?c = "fst (Open WriteOK (NewConn SideRelay))"
  have r: "mux_reach SideRelay ?c"
    by (rule reach_Open [OF mux_reach.start]) (rule prod.collapse [symmetric])
  have v: "validate \<lparr>frType = FrameOpen, frStreamID = 1, frPayload = []\<rparr> = None"
      "validate \<lparr>frType = FrameData, frStreamID = 1, frPayload = [7, 8, 9]\<rparr> = None"
    by (simp_all add: MaxPayloadSize_def)
  have c: "cnHeap ?c = [newStream 1]" "cnStreams ?c 1 = Some 0" "\<not> cnClosed ?c" "\<not> cnPanicked ?c"
    using v(1) by (simp_all add: Open_def Open_register_def NewConn_def Let_def writeFrame_def registerStream_def)
  let ?d = "?c\<lparr>cnHeap := [(newStream 1)\<lparr>stRbuf := [9]\<rparr>]\<rparr>"
  have t: "mux_trace 0 [EvFrame 0 WriteOK \<lparr>frType = FrameData, frStreamID = 1, frPayload = [7, 8, 9]\<rparr>,
                   EvRead (\<lambda>_. 0) 2 0] ?c = Some (?d, [7, 8, 9], [7, 8])"
    using v(2) c by (simp add: mux_do_def handleFrame_def stream_def deliver_def deliver_cases_def newStream_def
        frame_type_defs streamBuffer_def updStream_def Read.simps read_cases_def Let_def)
  have "[7, 8] @ pending ?d 0 = pending ?c 0 @ [7, 8, 9]"
    by (rule mux_stream_fifo [OF r _ t]) (simp_all add: c newStream_def)
  with t show ?thesis by blast
qed

end
