(* ===== verification/MuxEnd.thy ===== *)
theory MuxEnd
  imports MuxProps
begin

text \<open>
  The multiplexer from end to end: when exactly the read loop blocks, how \<open>Write\<close> cuts a
  payload into frames, that the peer's read loop reassembles it, and how stream ids are
  allocated.
\<close>

section \<open>Head-of-line blocking\<close>

lemma deliver_Blocked:
  "deliver pick a b c = Blocked \<longleftrightarrow>
     b \<noteq> [] \<and> \<not> stReadsClosed (cnHeap c ! a) \<and> streamBuffer \<le> length (stReads (cnHeap c ! a)) \<and>
     \<not> stClosed (cnHeap c ! a) \<and> \<not> cnClosed c"
  by (auto simp: deliver_def deliver_cases_def split: option.splits deliver_case.splits)

lemma handleFrame_blocks_iff:
  assumes "mux_reach side c"
  shows "handleFrame pick wr f c = Blocked \<longleftrightarrow>
    frType f = FrameData \<and> frPayload f \<noteq> [] \<and> \<not> cnClosed c \<and>
    (\<exists>a. cnStreams c (frStreamID f) = Some a \<and> \<not> stClosed (cnHeap c ! a) \<and> length (stReads (cnHeap c ! a)) = streamBuffer)"
proof -
  have inv: "mux_inv side c" using assms by (rule mux_reach_inv)
  have full: "streamBuffer \<le> length (stReads (cnHeap c ! a)) \<longleftrightarrow> length (stReads (cnHeap c ! a)) = streamBuffer"
    if "cnStreams c i = Some a" for i a
    using stream_ok_nth [OF inv, of a] live_flags [OF inv that] by (auto simp: stream_ok_def)
  have bind: "bind_outcome m (\<lambda>c'. Done (c', Continue)) = Blocked \<longleftrightarrow> m = Blocked" for m :: "Conn outcome"
    by (cases m) auto
  show ?thesis
    using live_flags [OF inv] full
    by (auto simp: handleFrame_def Let_def stream_def bind deliver_Blocked frame_type_defs
        split: option.splits if_splits)
qed

subsection \<open>Reading a sequence of frames\<close>

abbreviation data_frame :: "32 word \<Rightarrow> bytes \<Rightarrow> Frame" where
  "data_frame sid p \<equiv> \<lparr>frType = FrameData, frStreamID = sid, frPayload = p\<rparr>"

abbreviation open_frame :: "32 word \<Rightarrow> Frame" where
  "open_frame sid \<equiv> \<lparr>frType = FrameOpen, frStreamID = sid, frPayload = []\<rparr>"

lemma readLoop_frame:
  "validate f = None \<Longrightarrow>
   readLoop env k (frame_bytes f @ bs) e c =
     (case handleFrame (fePick (env k)) (feWrite (env k)) f (feOthers (env k) c) of
        Blocked \<Rightarrow> LoopBlocked f (bs, e) (feOthers (env k) c)
      | Panic \<Rightarrow> LoopPanicked
      | Done (c', Return) \<Rightarrow> LoopEnded c'
      | Done (c', Continue) \<Rightarrow> readLoop env (Suc k) bs e c')"
  by (simp add: readLoop.simps [of env k "frame_bytes f @ bs"] ReadFrame_frame_bytes Let_def)

text \<open>Several payloads for one live stream with room for them are queued in order.\<close>

definition enqueue :: "addr \<Rightarrow> bytes list \<Rightarrow> Conn \<Rightarrow> Conn" where
  "enqueue a bs c = updStream a (\<lambda>s. s\<lparr>stReads := stReads s @ bs\<rparr>) c"

lemma enqueue_Nil [simp]: "enqueue a [] c = c"
  by (simp add: enqueue_def updStream_def)

lemma enqueue_append: "a < length (cnHeap c) \<Longrightarrow> enqueue a ys (enqueue a xs c) = enqueue a (xs @ ys) c"
  by (simp add: enqueue_def updStream_def)

lemma enqueue_frame [frame_simps]:
  "cnStreams (enqueue a bs c) = cnStreams c" "cnClosed (enqueue a bs c) = cnClosed c"
  "length (cnHeap (enqueue a bs c)) = length (cnHeap c)"
  by (simp_all add: enqueue_def frame_simps)

lemma handleFrame_enqueue:
  assumes "cnStreams c sid = Some a" "p \<noteq> []" "length (stReads (cnHeap c ! a)) < streamBuffer"
    "\<not> stReadsClosed (cnHeap c ! a)" "\<not> stClosed (cnHeap c ! a)" "\<not> cnClosed c"
  shows "handleFrame pick wr (data_frame sid p) c = Done (enqueue a [p] c, Continue)"
  using assms
  by (simp add: handleFrame_def stream_def deliver_def deliver_cases_def enqueue_def frame_type_defs)

lemma readLoop_enqueue:
  assumes "cnStreams c sid = Some a" "a < length (cnHeap c)" "sid \<noteq> 0"
    "\<forall>p \<in> set ps. p \<noteq> [] \<and> length p \<le> MaxPayloadSize"
    "length (stReads (cnHeap c ! a)) + length ps \<le> streamBuffer"
    "\<not> stReadsClosed (cnHeap c ! a)" "\<not> stClosed (cnHeap c ! a)" "\<not> cnClosed c"
    and alone: "\<And>k. feOthers (env k) = id"
  shows "readLoop env k (concat (map (\<lambda>p. frame_bytes (data_frame sid p)) ps) @ bs) e c =
         readLoop env (k + length ps) bs e (enqueue a ps c)"
  using assms(1-8)
proof (induction ps arbitrary: c k)
  case (Cons p ps)
  let ?c = "enqueue a [p] c"
  have v: "validate (data_frame sid p) = None" using Cons.prems by simp
  have "readLoop env k (concat (map (\<lambda>p. frame_bytes (data_frame sid p)) (p # ps)) @ bs) e c =
      readLoop env (Suc k) (concat (map (\<lambda>p. frame_bytes (data_frame sid p)) ps) @ bs) e ?c"
    using Cons.prems by (simp add: readLoop_frame [OF v] handleFrame_enqueue alone)
  also have "\<dots> = readLoop env (Suc k + length ps) bs e (enqueue a ps ?c)"
    using Cons.prems by (intro Cons.IH) (auto simp: frame_simps enqueue_def updStream_heap)
  finally show ?case using Cons.prems by (simp add: enqueue_append)
qed simp

section \<open>Writing in chunks\<close>

text \<open>The payloads \<open>Write\<close> sends.\<close>

function chunks :: "bytes \<Rightarrow> bytes list" where
  "chunks p = (if p = [] then [] else take MaxPayloadSize p # chunks (drop MaxPayloadSize p))"
  by pat_completeness auto
termination
  by (relation "measure length") (auto simp: MaxPayloadSize_def)

declare chunks.simps [simp del]

lemma concat_chunks: "concat (chunks p) = p"
  by (induction p rule: chunks.induct) (subst chunks.simps, auto)

lemma chunks_sizes: "q \<in> set (chunks p) \<Longrightarrow> q \<noteq> [] \<and> length q \<le> MaxPayloadSize"
proof (induction p arbitrary: q rule: chunks.induct)
  case (1 p)
  then show ?case
    by (subst (asm) (2) chunks.simps) (auto simp: MaxPayloadSize_def split: if_splits)
qed

lemma length_chunks: "length (chunks p) * MaxPayloadSize < length p + MaxPayloadSize"
proof (induction p rule: chunks.induct)
  case (1 p)
  show ?case
  proof (cases "p = []")
    case True
    then show ?thesis by (subst chunks.simps) (simp add: MaxPayloadSize_def)
  next
    case False
    have "length (chunks (drop MaxPayloadSize p)) = 0" if "length p \<le> MaxPayloadSize"
      using that by (subst chunks.simps) simp
    then show ?thesis using False "1.IH"
      by (subst chunks.simps) (cases "length p \<le> MaxPayloadSize", auto simp: MaxPayloadSize_def)
  qed
qed

lemma Write_ok:
  assumes "\<not> cnClosed c" "\<not> stClosed (cnHeap c ! a)" "stID (cnHeap c ! a) = sid" "sid \<noteq> 0"
  shows "Write (\<lambda>_. WriteOK) a p w c =
    (c\<lparr>cnWire := cnWire c @ concat (map (\<lambda>q. frame_bytes (data_frame sid q)) (chunks p))\<rparr>, w + length p, None)"
  using assms
proof (induction p arbitrary: w c rule: chunks.induct)
  case (1 p)
  show ?case
  proof (cases "p = []")
    case True
    then show ?thesis by (simp add: Write.simps chunks.simps)
  next
    case False
    let ?q = "take MaxPayloadSize p"
    let ?c = "c\<lparr>cnWire := cnWire c @ frame_bytes (data_frame sid ?q)\<rparr>"
    have q: "(if length p > MaxPayloadSize then take MaxPayloadSize p else p) = ?q" by auto
    have "Write_chunk WriteOK a p c = (?c, Inr (length ?q))"
      unfolding Write_chunk_def q using "1.prems"
      by (simp add: Let_def writeFrame_def WriteFrame_append)
    moreover have "drop (length ?q) p = drop MaxPayloadSize p" by (simp add: min_def)
    moreover have "0 < length ?q" using False by (simp add: MaxPayloadSize_def)
    ultimately have "Write (\<lambda>_. WriteOK) a p w c =
        Write (\<lambda>_. WriteOK) a (drop MaxPayloadSize p) (w + length ?q) ?c"
      using False by (subst Write.simps) simp
    also have "\<dots> = (?c\<lparr>cnWire := cnWire ?c @
          concat (map (\<lambda>q. frame_bytes (data_frame sid q)) (chunks (drop MaxPayloadSize p)))\<rparr>,
        w + length ?q + length (drop MaxPayloadSize p), None)"
      using False "1.prems" by (intro "1.IH") simp_all
    finally show ?thesis using False
      by (subst chunks.simps) auto
  qed
qed

text \<open>Reading as \<open>io.Copy\<close> does, with a buffer of \<open>n\<close> bytes, until a read would block, fails, or \<open>m\<close> of them are done.\<close>

fun reads :: "(nat \<Rightarrow> nat) \<Rightarrow> nat \<Rightarrow> addr \<Rightarrow> nat \<Rightarrow> Conn \<Rightarrow> bytes" where
  "reads pick n a 0 c = []"
| "reads pick n a (Suc m) c =
     (case Read pick n a c of Done (c', Inr bs) \<Rightarrow> bs @ reads pick n a m c' | _ \<Rightarrow> [])"

lemma reads_pending:
  assumes "mux_inv side c" "a < length (cnHeap c)" "\<not> stReadsClosed (cnHeap c ! a)" "\<not> stClosed (cnHeap c ! a)"
    "\<not> cnClosed c" "0 < n" "length (pending c a) \<le> m"
  shows "reads pick n a m c = pending c a"
  using assms
proof (induction m arbitrary: c)
  case (Suc m)
  let ?s = "cnHeap c ! a"
  show ?case
  proof (cases "pending c a = []")
    case True
    then have e: "stRbuf ?s = []" "concat (stReads ?s) = []" by (simp_all add: pending_def)
    then have "stReads ?s = []" using stream_ok_nth [OF Suc.prems(1,2)] by (cases "stReads ?s") (auto simp: stream_ok_def)
    with e Suc.prems have "Read pick n a c = Blocked" by (simp add: Read_select read_cases_def)
    with True show ?thesis by simp
  next
    case False
    have ne: "stReads ?s \<noteq> []" if "stRbuf ?s = []" using False that by (auto simp: pending_def)
    have "\<exists>r. Read pick n a c = Done r"
    proof (cases "stRbuf ?s = []")
      case True
      with ne Suc.prems show ?thesis by (cases "stReads ?s") (auto simp: Read_select read_cases_def)
    qed (simp add: Read_buffered)
    then obtain c' r where d: "Read pick n a c = Done (c', r)" by auto
    from Suc.prems(1,2) d have "\<exists>bs. r = Inr bs \<and> bs \<noteq> [] \<and> pending c a = bs @ pending c' a \<and> a < length (cnHeap c') \<and>
        \<not> stReadsClosed (cnHeap c' ! a) \<and> \<not> stClosed (cnHeap c' ! a) \<and> \<not> cnClosed c'"
    proof (cases rule: Read_cases)
      case buffered
      then show ?thesis using Suc.prems by (simp add: pending_def updStream_heap frame_simps)
    next
      case (payload b)
      then have "b \<noteq> []" using stream_ok_nth [OF Suc.prems(1,2)] by (cases "stReads ?s") (auto simp: stream_ok_def)
      moreover have "concat (stReads ?s) = b @ concat (tl (stReads ?s))" using payload(2) by (metis concat.simps(2))
      ultimately show ?thesis using payload Suc.prems by (simp add: pending_def updStream_heap frame_simps)
    qed (use Suc.prems ne in auto)
    then obtain bs where bs: "r = Inr bs" "bs \<noteq> []" "pending c a = bs @ pending c' a" "a < length (cnHeap c')"
        "\<not> stReadsClosed (cnHeap c' ! a)" "\<not> stClosed (cnHeap c' ! a)" "\<not> cnClosed c'" by blast
    have "length bs > 0" using bs(2) by simp
    with bs(3) Suc.prems(7) have "length (pending c' a) \<le> m" by (simp del: length_greater_0_conv)
    from Suc.IH [OF inv_Read [OF Suc.prems(1,2) d] bs(4-7) Suc.prems(6) this] d bs show ?thesis by simp
  qed
qed (simp add: pending_def)

text \<open>C40: What one end writes to a stream the other end reads: \<open>Write\<close> reports every byte written and puts them on the
  wire as non-empty DATA frames of at most 64 KiB; a peer on which the stream is live, with room for them, gets
  through those frames with its connection open, whatever follows them on the wire; and from then on its reads, with a buffer
  of any size, return what was unread there before and then exactly the written bytes.\<close>

theorem write_then_read:
  assumes "\<not> cnClosed c" "\<not> stClosed (cnHeap c ! a)" "stID (cnHeap c ! a) = sid" "sid \<noteq> 0"
    and "mux_reach side d" "\<not> cnClosed d" "cnStreams d sid = Some b" "\<not> stClosed (cnHeap d ! b)"
    and "length p + length (stReads (cnHeap d ! b)) * MaxPayloadSize \<le> streamBuffer * MaxPayloadSize"
    and "\<And>k. feOthers (env k) = id" and "0 < n" and "length (pending d b) + length p \<le> m"
  shows "\<exists>fs d'. Write (\<lambda>_. WriteOK) a p 0 c = (c\<lparr>cnWire := cnWire c @ concat (map frame_bytes fs)\<rparr>, length p, None) \<and>
    (\<forall>f \<in> set fs. frType f = FrameData \<and> frStreamID f = sid \<and> frPayload f \<noteq> [] \<and> length (frPayload f) \<le> MaxPayloadSize) \<and>
    (\<forall>rest. readLoop env k (concat (map frame_bytes fs) @ rest) e d = readLoop env (k + length fs) rest e d') \<and>
    \<not> cnClosed d' \<and> reads pick n b m d' = pending d b @ p"
proof -
  let ?fs = "map (data_frame sid) (chunks p)"
  have fs: "concat (map frame_bytes ?fs) = concat (map (\<lambda>q. frame_bytes (data_frame sid q)) (chunks p))" by (simp add: comp_def)
  have inv: "mux_inv side d" using assms(5) by (rule mux_reach_inv)
  note live = live_flags [OF inv assms(7)] assms(8)
  have "length (chunks p) * MaxPayloadSize + length (stReads (cnHeap d ! b)) * MaxPayloadSize
      < (streamBuffer + 1) * MaxPayloadSize"
    using length_chunks [of p] assms(9) by (simp add: algebra_simps)
  then have room: "length (stReads (cnHeap d ! b)) + length (chunks p) \<le> streamBuffer"
    by (simp add: MaxPayloadSize_def)
  let ?d = "enqueue b (chunks p) d"
  have loop: "readLoop env k (concat (map frame_bytes ?fs) @ rest) e d = readLoop env (k + length ?fs) rest e ?d" for rest
    unfolding fs using live assms(4,6,7,10) room by (subst readLoop_enqueue) (auto dest: chunks_sizes)
  have p: "pending ?d b = pending d b @ p" using live by (simp add: pending_def enqueue_def updStream_heap concat_chunks)
  have "stream_ok ((cnHeap d ! b)\<lparr>stReads := stReads (cnHeap d ! b) @ chunks p\<rparr>)"
    using stream_ok_nth [OF inv, of b] live room by (auto simp: stream_ok_def dest: chunks_sizes)
  then have "mux_inv side ?d" unfolding enqueue_def using live by (intro inv_updStream_reads [OF inv]) simp_all
  then have "reads pick n b m ?d = pending ?d b"
    by (rule reads_pending) (use live assms(6,11,12) p in \<open>auto simp: frame_simps, auto simp: enqueue_def updStream_heap\<close>)
  with p loop Write_ok [OF assms(1-4), of p 0] assms(6) show ?thesis unfolding fs [symmetric]
    by (intro exI [of _ ?fs] exI [of _ ?d]) (auto simp: frame_simps dest: chunks_sizes)
qed

definition calm :: "nat \<Rightarrow> frame_env" where
  "calm k = \<lparr>fePick = 0, feWrite = WriteOK, feOthers = id\<rparr>"

lemma calm_simps [simp]: "feOthers (calm k) = id" "fePick (calm k) = 0" "feWrite (calm k) = WriteOK"
  by (simp_all add: calm_def)

theorem write_then_read_witness:
  "\<exists>fs d'. Write (\<lambda>_. WriteOK) 0 [7, 8, 9] 0 (fst (Open WriteOK (NewConn SideRelay))) =
      ((fst (Open WriteOK (NewConn SideRelay)))\<lparr>cnWire := cnWire (fst (Open WriteOK (NewConn SideRelay))) @ concat (map frame_bytes fs)\<rparr>, 3, None) \<and>
    readLoop calm 0 (concat (map frame_bytes fs)) EOF (handleOpen WriteOK 1 (NewConn SideTunnel)) =
      readLoop calm (length fs) [] EOF d' \<and> reads (\<lambda>_. 0) 2 0 3 d' = [7, 8, 9]"
proof -
  let ?c = "fst (Open WriteOK (NewConn SideRelay))" and ?d = "handleOpen WriteOK 1 (NewConn SideTunnel)"
  have v: "validate (open_frame 1) = None" by (simp add: MaxPayloadSize_def)
  have c: "cnHeap ?c = [newStream 1]" "\<not> cnClosed ?c"
    using v by (simp_all add: Open_def Open_register_def NewConn_def Let_def writeFrame_def registerStream_def)
  have d: "cnHeap ?d = [newStream 1]" "cnStreams ?d 1 = Some 0" "\<not> cnClosed ?d"
    by (simp_all add: handleOpen_def NewConn_def registerStream_def acceptBuffer_def)
  have r: "mux_reach SideTunnel ?d"
    by (rule reach_frame [OF mux_reach.start v, of 0 WriteOK]) (simp add: handleFrame_def)
  have "pending ?d 0 = []" using d by (simp add: pending_def newStream_def)
  with write_then_read [of ?c 0 1 SideTunnel ?d 0 "[7, 8, 9]" calm 2 3 0 EOF "\<lambda>_. 0"] r
  obtain fs d' where
    "Write (\<lambda>_. WriteOK) 0 [7, 8, 9] 0 ?c = (?c\<lparr>cnWire := cnWire ?c @ concat (map frame_bytes fs)\<rparr>, length [7, 8, 9 :: byte], None)"
    "\<forall>rest. readLoop calm 0 (concat (map frame_bytes fs) @ rest) EOF ?d = readLoop calm (0 + length fs) rest EOF d'"
    "reads (\<lambda>_. 0) 2 0 3 d' = [7, 8, 9]"
    by (auto simp: c d newStream_def streamBuffer_def MaxPayloadSize_def)
  from this(1,3) this(2) [rule_format, of "[]"] show ?thesis by (intro exI conjI) simp_all
qed

text \<open>The accept queue has room for 64 streams even on the relay, which never accepts one, so a peer
  that opens a stream there and sends seventeen non-empty payloads on it leaves the relay's read loop
  blocked in \<open>deliver\<close>, with nobody to read that stream: refusing streams only when the queue is full
  does not keep a peer from wedging the loop.\<close>

theorem peer_wedges_read_loop:
  assumes "\<And>k. feOthers (env k) = id" and "sid \<noteq> 0" and "length ps = streamBuffer" and "\<forall>q \<in> set (p # ps). q \<noteq> [] \<and> length q \<le> MaxPayloadSize"
  shows "\<exists>c. readLoop env 0 (frame_bytes (open_frame sid) @
        concat (map (\<lambda>q. frame_bytes (data_frame sid q)) ps) @ frame_bytes (data_frame sid p) @ rest) e
      (NewConn side) = LoopBlocked (data_frame sid p) (rest, e) c \<and> cnAccept c = [0] \<and> \<not> cnClosed c"
proof -
  let ?wr = "feWrite (env 0)"
  let ?c = "handleOpen ?wr sid (NewConn side)"
  have v: "validate (open_frame sid) = None" "validate (data_frame sid p) = None"
    using assms by simp_all
  have c: "cnHeap ?c = [newStream sid]" "cnStreams ?c sid = Some 0" "\<not> cnClosed ?c" "cnAccept ?c = [0]"
    by (simp_all add: handleOpen_def NewConn_def registerStream_def acceptBuffer_def)
  let ?d = "enqueue 0 ps ?c"
  have d: "cnStreams ?d sid = Some 0" "\<not> cnClosed ?d" "cnAccept ?d = [0]"
      "cnHeap ?d ! 0 = (newStream sid)\<lparr>stReads := ps\<rparr>"
    using c by (simp_all add: frame_simps, simp_all add: enqueue_def updStream_def newStream_def)
  have "handleFrame pick wr (data_frame sid p) ?d = Blocked" for pick wr
    using d assms by (simp add: handleFrame_def stream_def deliver_Blocked newStream_def frame_type_defs
        deliver_Blocked [THEN iffD2])
  moreover have "readLoop env 1 (concat (map (\<lambda>q. frame_bytes (data_frame sid q)) ps) @
      frame_bytes (data_frame sid p) @ rest) e ?c
    = readLoop env (1 + length ps) (frame_bytes (data_frame sid p) @ rest) e ?d"
    by (rule readLoop_enqueue) (use assms c in \<open>auto simp: newStream_def\<close>)
  moreover have "handleFrame (fePick (env 0)) ?wr (open_frame sid) (NewConn side) = Done (?c, Continue)"
    by (simp add: handleFrame_def)
  ultimately show ?thesis using d by (simp add: readLoop_frame v assms(1))
qed

lemma peer_wedges_demo:
  "\<exists>c. readLoop calm 0 (frame_bytes (open_frame 2) @
        concat (map (\<lambda>q. frame_bytes (data_frame 2 q)) (replicate 16 [1])) @ frame_bytes (data_frame 2 [1]) @ []) EOF
      (NewConn SideRelay) = LoopBlocked (data_frame 2 [1]) ([], EOF) c \<and> cnAccept c = [0] \<and> \<not> cnClosed c"
  by (rule peer_wedges_read_loop) (auto simp: streamBuffer_def MaxPayloadSize_def)

section \<open>How the read loop ends\<close>

text \<open>The connection as the loop takes up the next frame after it has handled the frames \<open>fs\<close>, if it gets there.\<close>

fun feed :: "(nat \<Rightarrow> frame_env) \<Rightarrow> nat \<Rightarrow> Frame list \<Rightarrow> Conn \<Rightarrow> Conn option" where
  "feed env k [] c = Some (feOthers (env k) c)"
| "feed env k (f # fs) c =
     (case handleFrame (fePick (env k)) (feWrite (env k)) f (feOthers (env k) c) of
        Done (c', Continue) \<Rightarrow> feed env (Suc k) fs c'
      | _ \<Rightarrow> None)"

lemma readLoop_feed:
  "list_all (\<lambda>f. validate f = None) fs \<Longrightarrow> feed env k fs c = Some d \<Longrightarrow> validate f = None \<Longrightarrow>
   handleFrame (fePick (env (k + length fs))) (feWrite (env (k + length fs))) f d = Blocked \<Longrightarrow>
   readLoop env k (concat (map frame_bytes fs) @ frame_bytes f @ rest) e c = LoopBlocked f (rest, e) d"
proof (induction fs arbitrary: k c)
  case (Cons g fs)
  then show ?case by (auto simp: readLoop_frame split: outcome.splits loop.splits)
qed (simp add: readLoop_frame)

lemma readLoop_blocked:
  "readLoop env k bs e c = LoopBlocked f r d \<Longrightarrow>
   \<exists>fs rest. list_all (\<lambda>f. validate f = None) fs \<and> validate f = None \<and> r = (rest, e) \<and>
     bs = concat (map frame_bytes fs) @ frame_bytes f @ rest \<and> feed env k fs c = Some d \<and>
     handleFrame (fePick (env (k + length fs))) (feWrite (env (k + length fs))) f d = Blocked"
proof (induction env k bs e c rule: readLoop.induct)
  case (1 env k bs e c)
  let ?c = "feOthers (env k) c"
  show ?case
  proof (cases "ReadFrame (bs, e)")
    case (Inl err)
    with "1.prems" show ?thesis by (subst (asm) readLoop.simps) (simp add: Let_def)
  next
    case (Inr x)
    obtain g bs' e' where x: "x = (g, (bs', e'))" by (metis prod.collapse)
    from fc.get_Inr [OF Inr [unfolded x]] have g: "validate g = None" "bs = frame_bytes g @ bs'" "e' = e" by auto
    show ?thesis
    proof (cases "\<exists>c'. handleFrame (fePick (env k)) (feWrite (env k)) g ?c = Done (c', Continue)")
      case True
      then obtain c' where h: "handleFrame (fePick (env k)) (feWrite (env k)) g ?c = Done (c', Continue)" by blast
      with "1.prems" Inr x g have "readLoop env (Suc k) bs' e c' = LoopBlocked f r d" by (simp add: readLoop_frame)
      with "1.IH" [OF refl Inr [unfolded x] refl refl h refl refl] g(3) obtain fs rest where
        "list_all (\<lambda>f. validate f = None) fs" "validate f = None" "r = (rest, e)" "bs' = concat (map frame_bytes fs) @ frame_bytes f @ rest"
        "feed env (Suc k) fs c' = Some d" "handleFrame (fePick (env (Suc k + length fs))) (feWrite (env (Suc k + length fs))) f d = Blocked"
        by auto
      with g h show ?thesis by (intro exI [of _ "g # fs"] exI [of _ rest]) simp
    next
      case False
      with "1.prems" g have "handleFrame (fePick (env k)) (feWrite (env k)) g ?c = Blocked" "f = g" "r = (bs', e)" "d = ?c"
        by (auto simp: readLoop_frame split: outcome.splits loop.splits prod.splits)
      with g show ?thesis by (intro exI [of _ "[]"] exI [of _ bs']) simp
    qed
  qed
qed

lemma handleFrame_Return: "handleFrame pick wr f c = Done (c', Return) \<Longrightarrow> \<exists>err. c' = closeWithErr err c"
  by (auto simp: handleFrame_def Let_def outcome_simps split: if_splits option.splits)

lemma readLoop_ends:
  assumes others: "\<And>k d. mux_reach side d \<Longrightarrow> mux_reach side (feOthers (env k) d)"
  shows "mux_reach side c \<Longrightarrow> (\<exists>d. readLoop env k bs e c = LoopEnded d \<and> mux_reach side d \<and> cnClosed d) \<or>
    (\<exists>f r d. readLoop env k bs e c = LoopBlocked f r d \<and> mux_reach side d)"
  using others
proof (induction env k bs e c rule: readLoop.induct)
  case (1 env k bs e c)
  let ?c = "feOthers (env k) c"
  have c: "mux_reach side ?c" using "1.prems" by blast
  have closes: "mux_reach side (closeWithErr err ?c) \<and> cnClosed (closeWithErr err ?c)" for err
    using mux_reach_act [OF c, of "EvReadErr err"] mux_reach_inv [OF c] by (simp add: mux_inv_def closeWithErr_closes)
  show ?case
  proof (cases "ReadFrame (bs, e)")
    case (Inl err)
    with closes show ?thesis by (subst (1 2) readLoop.simps) (simp add: Let_def)
  next
    case (Inr x)
    obtain g bs' e' where x: "x = (g, (bs', e'))" by (metis prod.collapse)
    from fc.get_Inr [OF Inr [unfolded x]] have g: "validate g = None" "bs = frame_bytes g @ bs'" "e' = e" by auto
    let ?h = "handleFrame (fePick (env k)) (feWrite (env k)) g ?c"
    have "?h \<noteq> Panic"
      using mux_do_no_panic [OF mux_reach_inv [OF c], of "EvFrame (fePick (env k)) (feWrite (env k)) g"] g(1)
      by (auto simp: mux_do_def)
    then consider (go) c' where "?h = Done (c', Continue)" | (stop) c' where "?h = Done (c', Return)" | (block) "?h = Blocked"
    proof (cases ?h)
      case (Done cl)
      with go stop show thesis by (cases cl, cases "snd cl") auto
    qed simp_all
    then show ?thesis
    proof cases
      case go
      from "1.IH" [OF refl Inr [unfolded x] refl refl go refl refl reach_frame [OF c g(1) go]] "1.prems"(2) g go
      show ?thesis by (simp add: readLoop_frame)
    next
      case stop
      with handleFrame_Return [OF stop] closes g show ?thesis by (auto simp: readLoop_frame)
    next
      case block
      with g c show ?thesis by (simp add: readLoop_frame)
    qed
  qed
qed

text \<open>C30: On a reachable connection and with any interference of the other goroutines between two frames, the read loop never panics; it
  is left blocked on a frame exactly when the bytes it reads are whole frames that it handles up to a
  non-empty DATA frame for a stream that is in the table and open and has its 16 buffers full, on a connection that is not
  closed; in every other case it ends, and then the connection is closed.\<close>

theorem readLoop_blocks_iff:
  assumes "mux_reach side c" and "\<And>k d. mux_reach side d \<Longrightarrow> mux_reach side (feOthers (env k) d)"
  shows "(readLoop env k bs e c = LoopBlocked f r d \<longleftrightarrow>
           (\<exists>fs rest a. r = (rest, e) \<and> bs = concat (map frame_bytes fs) @ frame_bytes f @ rest \<and>
              list_all (\<lambda>f. validate f = None) (f # fs) \<and> feed env k fs c = Some d \<and>
              frType f = FrameData \<and> frPayload f \<noteq> [] \<and> \<not> cnClosed d \<and> cnStreams d (frStreamID f) = Some a \<and>
              \<not> stClosed (cnHeap d ! a) \<and> length (stReads (cnHeap d ! a)) = streamBuffer)) \<and>
         ((\<exists>d. readLoop env k bs e c = LoopEnded d \<and> cnClosed d) \<or> (\<exists>f r d. readLoop env k bs e c = LoopBlocked f r d))"
proof -
  have reach: "feed env k fs c = Some d \<Longrightarrow> list_all (\<lambda>f. validate f = None) fs \<Longrightarrow> mux_reach side d" for fs
    using assms(1)
  proof (induction fs arbitrary: k c)
    case (Cons g fs)
    then show ?case using reach_frame [OF assms(2)] by (auto split: outcome.splits loop.splits prod.splits)
  qed (use assms(2) in auto)
  have "readLoop env k bs e c = LoopBlocked f r d \<longleftrightarrow>
      (\<exists>fs rest. r = (rest, e) \<and> bs = concat (map frame_bytes fs) @ frame_bytes f @ rest \<and>
         list_all (\<lambda>f. validate f = None) (f # fs) \<and> feed env k fs c = Some d \<and>
         handleFrame (fePick (env (k + length fs))) (feWrite (env (k + length fs))) f d = Blocked)"
    using readLoop_blocked [of env k bs e c f r d] readLoop_feed [of _ env k c d f] by (auto 4 3)
  moreover have "handleFrame pick wr f d = Blocked \<longleftrightarrow> frType f = FrameData \<and> frPayload f \<noteq> [] \<and> \<not> cnClosed d \<and>
      (\<exists>a. cnStreams d (frStreamID f) = Some a \<and> \<not> stClosed (cnHeap d ! a) \<and> length (stReads (cnHeap d ! a)) = streamBuffer)"
    if "feed env k fs c = Some d" "list_all (\<lambda>f. validate f = None) fs" for fs pick wr
    by (rule handleFrame_blocks_iff [OF reach [OF that]])
  moreover have "(\<exists>d. readLoop env k bs e c = LoopEnded d \<and> cnClosed d) \<or> (\<exists>f r d. readLoop env k bs e c = LoopBlocked f r d)"
    using readLoop_ends [of side env, OF assms(2,1)] by blast
  ultimately show ?thesis by auto
qed

theorem readLoop_blocks_iff_witness:
  "\<exists>d a. readLoop calm 0 (frame_bytes (open_frame 2) @
        concat (map (\<lambda>q. frame_bytes (data_frame 2 q)) (replicate 16 [1])) @ frame_bytes (data_frame 2 [1]) @ []) EOF
      (NewConn SideRelay) = LoopBlocked (data_frame 2 [1]) ([], EOF) d \<and>
     cnStreams d 2 = Some a \<and> length (stReads (cnHeap d ! a)) = 16"
proof -
  obtain d where d: "readLoop calm 0 (frame_bytes (open_frame 2) @
        concat (map (\<lambda>q. frame_bytes (data_frame 2 q)) (replicate 16 [1])) @ frame_bytes (data_frame 2 [1]) @ []) EOF
      (NewConn SideRelay) = LoopBlocked (data_frame 2 [1]) ([], EOF) d"
    using peer_wedges_demo by blast
  from readLoop_blocks_iff [OF mux_reach.start, of SideRelay calm, THEN conjunct1, THEN iffD1, OF _ d]
  show ?thesis using d by (auto simp: streamBuffer_def)
qed

section \<open>Stream ids\<close>

lemma Open_cases:
  assumes "Open wr c = (c', Inr a)"
  shows "\<not> cnClosed c \<and> cnNextID c \<noteq> 0 \<and> a = length (cnHeap c) \<and> cnNextID c' = cnNextID c + 2 \<and>
    cnHeap c' = cnHeap c @ [newStream (cnNextID c)] \<and> \<not> cnClosed c' \<and> cnStreams c' (cnNextID c) = Some a \<and>
    cnWire c' = cnWire c @ frame_bytes (open_frame (cnNextID c))"
proof -
  let ?c1 = "registerStream (cnNextID c) (c\<lparr>cnNextID := cnNextID c + 2\<rparr>)"
  have open_c: "\<not> cnClosed c" using assms by (auto simp: Open_def)
  have r: "Open_register c = (?c1, cnNextID c, length (cnHeap c))" by (simp add: Open_register_def Let_def)
  obtain c2 e where w: "writeFrame wr (open_frame (cnNextID c)) ?c1 = (c2, e)" by fastforce
  then have "e = None" "c' = c2" "a = length (cnHeap c)" using assms open_c
    by (cases e, auto simp: Open_def r)+
  with writeFrame_wire [of wr _ ?c1 c2] w
  have v: "validate (open_frame (cnNextID c)) = None"
      and c2: "c2 = ?c1\<lparr>cnWire := cnWire ?c1 @ frame_bytes (open_frame (cnNextID c))\<rparr>" by auto
  from v have "cnNextID c \<noteq> 0" by (simp add: validate_None)
  with \<open>c' = c2\<close> \<open>a = _\<close> open_c c2 show ?thesis by (simp add: frame_simps)
qed

text \<open>Streams opened by the two ends never share an id: the relay's are odd and the tunnel's even, for
  as long as the connection lives, including after the 32-bit counter wraps around; and an opened stream
  never has the reserved id 0.\<close>

theorem stream_ids_disjoint:
  assumes "mux_reach SideRelay c" and "mux_reach SideTunnel d"
    and "Open wr c = (c', Inr a)" and "Open wr' d = (d', Inr b)"
  shows "stID (cnHeap c' ! a) \<noteq> stID (cnHeap d' ! b) \<and> odd (unat (stID (cnHeap c' ! a))) \<and>
    even (unat (stID (cnHeap d' ! b))) \<and> stID (cnHeap d' ! b) \<noteq> 0"
proof -
  have "odd (unat (cnNextID c))" "even (unat (cnNextID d))"
    using mux_reach_inv [OF assms(1)] mux_reach_inv [OF assms(2)]
    by (simp_all add: mux_inv_def parity_ok_def)
  then show ?thesis using Open_cases [OF assms(3)] Open_cases [OF assms(4)]
    by (auto simp: newStream_def)
qed

lemma Open_NewConn:
  "Open WriteOK (NewConn side) =
     (fst (Open WriteOK (NewConn side)), Inr 0)"
proof -
  have "validate (open_frame (if side = SideTunnel then 2 else 1)) = None"
    by (simp add: MaxPayloadSize_def)
  then show ?thesis
    by (simp add: Open_def Open_register_def NewConn_def Let_def writeFrame_def registerStream_def)
qed

theorem stream_ids_disjoint_witness:
  "stID (cnHeap (fst (Open WriteOK (NewConn SideRelay))) ! 0) \<noteq>
   stID (cnHeap (fst (Open WriteOK (NewConn SideTunnel))) ! 0)"
  using stream_ids_disjoint [OF mux_reach.start mux_reach.start Open_NewConn Open_NewConn] by blast

text \<open>Opening streams one after the other.\<close>

fun Opens :: "nat \<Rightarrow> Conn \<Rightarrow> Conn \<times> 32 word list" where
  "Opens 0 c = (c, [])"
| "Opens (Suc n) c =
     (case Open WriteOK c of
        (c', Inl _) \<Rightarrow> (c', [])
      | (c', Inr a) \<Rightarrow> (case Opens n c' of (c'', ids) \<Rightarrow> (c'', stID (cnHeap c' ! a) # ids)))"

lemma Open_ok:
  assumes "\<not> cnClosed c" "cnNextID c \<noteq> 0"
  shows "\<exists>c'. Open WriteOK c = (c', Inr (length (cnHeap c))) \<and> \<not> cnClosed c' \<and>
    cnNextID c' = cnNextID c + 2 \<and> stID (cnHeap c' ! length (cnHeap c)) = cnNextID c"
proof -
  have "validate (open_frame (cnNextID c)) = None" using assms(2) by simp
  then have "\<exists>c'. Open WriteOK c = (c', Inr (length (cnHeap c)))"
    using assms by (simp add: Open_def Open_register_def Let_def writeFrame_def frame_simps)
  then obtain c' where c': "Open WriteOK c = (c', Inr (length (cnHeap c)))" by blast
  then show ?thesis using Open_cases [OF c'] by (auto simp: newStream_def)
qed

lemma Opens_ids:
  "\<not> cnClosed c \<Longrightarrow> unat (cnNextID c) = first \<Longrightarrow> 0 < first \<Longrightarrow> first + 2 * n \<le> 2 ^ 32 + 1 \<Longrightarrow>
   map unat (snd (Opens n c)) = map (\<lambda>i. first + 2 * i) [0..<n]"
proof (induction n arbitrary: c first)
  case (Suc n)
  then have nz: "cnNextID c \<noteq> 0" by auto
  obtain c' where c': "Open WriteOK c = (c', Inr (length (cnHeap c)))" "\<not> cnClosed c'"
      "cnNextID c' = cnNextID c + 2" "stID (cnHeap c' ! length (cnHeap c)) = cnNextID c"
    using Open_ok [OF Suc.prems(1) nz] by blast
  show ?case
  proof (cases n)
    case 0
    then show ?thesis using c' Suc.prems by simp
  next
    case (Suc m)
    then have "unat (cnNextID c') = first + 2"
      using c'(3) Suc.prems by (simp add: unat_word_ariths)
    with Suc.IH [OF c'(2), of "first + 2"] Suc.prems
    have "map unat (snd (Opens n c')) = map (\<lambda>i. first + 2 + 2 * i) [0..<n]" by simp
    moreover have "[0..<Suc n] = 0 # map Suc [0..<n]" by (simp add: upt_conv_Cons map_Suc_upt)
    ultimately show ?thesis using c' Suc.prems by (simp add: case_prod_unfold del: upt_Suc)
  qed
qed simp

text \<open>The first 2^31 - 1 streams an end opens all succeed on a connection that keeps accepting
  writes, and have pairwise distinct ids counting up by two from 1 (relay) or 2 (tunnel).\<close>

theorem stream_ids_distinct:
  assumes "n < 2 ^ 31"
  shows "map unat (snd (Opens n (NewConn side))) =
      map (\<lambda>i. (if side = SideTunnel then 2 else 1) + 2 * i) [0..<n] \<and>
    distinct (snd (Opens n (NewConn side)))"
proof -
  let ?first = "if side = SideTunnel then 2 else 1 :: nat"
  have ids: "map unat (snd (Opens n (NewConn side))) = map (\<lambda>i. ?first + 2 * i) [0..<n]"
    using assms by (intro Opens_ids) (auto simp: NewConn_def)
  moreover have "distinct (map (\<lambda>i. ?first + 2 * i) [0..<n])" by (simp add: distinct_map inj_on_def)
  ultimately show ?thesis by (metis distinct_map)
qed

theorem stream_ids_distinct_witness: "distinct (snd (Opens 3 (NewConn SideRelay)))"
  using stream_ids_distinct [of 3 SideRelay] by simp

end
