(* ===== verification/Pipe.thy ===== *)
theory Pipe
  imports MuxEnd
begin

text \<open>
  The byte pipe both halves of the tunnel use (\<open>internal/tunnel/mux.go\<close>, lines 526 to 547): two
  goroutines that copy, one for each direction, and the goroutine of \<open>pipe\<close> itself, which waits for the
  first of them on the channel \<open>done\<close>, closes both ends and waits for the second. Each goroutine is a
  program counter, and every step moves one of them.

  \<open>io.Copy\<close> reads a chunk and writes it whole before it reads the next; it returns when its source
  has ended, or when either end fails, which an end can do at any time and does once it is closed.
\<close>

section \<open>The goroutines\<close>

text \<open>
  \<open>cpLeft\<close>: what the source will still deliver; \<open>cpBuf\<close>: the chunk in hand; \<open>cpSunk\<close>: what the
  destination has taken; \<open>cpEOF\<close>: the copy returned because its source ended.
\<close>

datatype copy_pc = Copying | Sending | Exited

record copy =
  cpLeft :: bytes
  cpBuf :: bytes
  cpSunk :: bytes
  cpEOF :: bool
  cpPc :: copy_pc

datatype direction = AtoB | BtoA

datatype main_pc = AwaitFirst | CloseA | CloseB | AwaitSecond | Returned

text \<open>\<open>ppDone\<close>: how many values the channel holds; \<open>ppClosesA\<close> and \<open>ppClosesB\<close> count the calls of \<open>Close\<close>.\<close>

record pipe =
  ppAtoB :: copy
  ppBtoA :: copy
  ppDone :: nat
  ppMain :: main_pc
  ppClosesA :: nat
  ppClosesB :: nat

definition doneCapacity :: nat where
  "doneCapacity = 2"

fun dir :: "direction \<Rightarrow> pipe \<Rightarrow> copy" where
  "dir AtoB p = ppAtoB p"
| "dir BtoA p = ppBtoA p"

fun set_dir :: "direction \<Rightarrow> copy \<Rightarrow> pipe \<Rightarrow> pipe" where
  "set_dir AtoB k p = p\<lparr>ppAtoB := k\<rparr>"
| "set_dir BtoA k p = p\<lparr>ppBtoA := k\<rparr>"

definition new_copy :: "bytes \<Rightarrow> copy" where
  "new_copy src = \<lparr>cpLeft = src, cpBuf = [], cpSunk = [], cpEOF = False, cpPc = Copying\<rparr>"

definition new_pipe :: "bytes \<Rightarrow> bytes \<Rightarrow> pipe" where
  "new_pipe a b =
     \<lparr>ppAtoB = new_copy a, ppBtoA = new_copy b, ppDone = 0, ppMain = AwaitFirst, ppClosesA = 0, ppClosesB = 0\<rparr>"

text \<open>\<open>io.Copy\<close>, up to its return.\<close>

inductive copy_step :: "copy \<Rightarrow> copy \<Rightarrow> bool" where
  read_chunk: "cpPc k = Copying \<Longrightarrow> cpBuf k = [] \<Longrightarrow> 0 < n \<Longrightarrow> cpLeft k \<noteq> [] \<Longrightarrow>
     copy_step k (k\<lparr>cpBuf := take n (cpLeft k), cpLeft := drop n (cpLeft k)\<rparr>)"
| write_chunk: "cpPc k = Copying \<Longrightarrow> cpBuf k \<noteq> [] \<Longrightarrow> copy_step k (k\<lparr>cpSunk := cpSunk k @ cpBuf k, cpBuf := []\<rparr>)"
| source_ends: "cpPc k = Copying \<Longrightarrow> cpBuf k = [] \<Longrightarrow> cpLeft k = [] \<Longrightarrow> copy_step k (k\<lparr>cpEOF := True, cpPc := Sending\<rparr>)"
| end_fails: "cpPc k = Copying \<Longrightarrow>
     copy_step k (k\<lparr>cpSunk := cpSunk k @ take n (cpBuf k), cpBuf := [], cpPc := Sending\<rparr>)"

text \<open>A step of the pipe: of a copy, its send on \<open>done\<close>, or of the main goroutine.\<close>

inductive pipe_step :: "pipe \<Rightarrow> pipe \<Rightarrow> bool" where
  copies: "copy_step (dir d p) k \<Longrightarrow> pipe_step p (set_dir d k p)"
| sends: "cpPc (dir d p) = Sending \<Longrightarrow> ppDone p < doneCapacity \<Longrightarrow>
     pipe_step p (set_dir d ((dir d p)\<lparr>cpPc := Exited\<rparr>) (p\<lparr>ppDone := Suc (ppDone p)\<rparr>))"
| first: "ppMain p = AwaitFirst \<Longrightarrow> ppDone p = Suc n \<Longrightarrow> pipe_step p (p\<lparr>ppDone := n, ppMain := CloseA\<rparr>)"
| close_a: "ppMain p = CloseA \<Longrightarrow> pipe_step p (p\<lparr>ppClosesA := Suc (ppClosesA p), ppMain := CloseB\<rparr>)"
| close_b: "ppMain p = CloseB \<Longrightarrow> pipe_step p (p\<lparr>ppClosesB := Suc (ppClosesB p), ppMain := AwaitSecond\<rparr>)"
| second: "ppMain p = AwaitSecond \<Longrightarrow> ppDone p = Suc n \<Longrightarrow> pipe_step p (p\<lparr>ppDone := n, ppMain := Returned\<rparr>)"

section \<open>The invariant\<close>

text \<open>How many values the main goroutine has received when it is at a program counter, and which ends it has closed.\<close>

fun received :: "main_pc \<Rightarrow> nat" where
  "received AwaitFirst = 0"
| "received Returned = 2"
| "received _ = 1"

definition exits :: "pipe \<Rightarrow> nat" where
  "exits p = of_bool (cpPc (ppAtoB p) = Exited) + of_bool (cpPc (ppBtoA p) = Exited)"

definition copy_ok :: "bytes \<Rightarrow> copy \<Rightarrow> bool" where
  "copy_ok src k \<longleftrightarrow>
     (cpPc k = Copying \<longrightarrow> cpSunk k @ cpBuf k @ cpLeft k = src) \<and>
     (\<exists>rest. src = cpSunk k @ rest) \<and> (cpEOF k \<longrightarrow> cpPc k \<noteq> Copying \<and> cpSunk k = src)"

definition pipe_inv :: "bytes \<Rightarrow> bytes \<Rightarrow> pipe \<Rightarrow> bool" where
  "pipe_inv a b p \<longleftrightarrow>
     copy_ok a (ppAtoB p) \<and> copy_ok b (ppBtoA p) \<and> ppDone p + received (ppMain p) = exits p \<and>
     ppClosesA p = of_bool (ppMain p \<notin> {AwaitFirst, CloseA}) \<and>
     ppClosesB p = of_bool (ppMain p \<notin> {AwaitFirst, CloseA, CloseB})"

lemma copy_step_ok:
  assumes "copy_step k k'" "copy_ok src k"
  shows "copy_ok src k' \<and> cpPc k = Copying \<and> cpPc k' \<noteq> Exited"
  using assms(1)
proof cases
  case (end_fails n)
  with assms(2) show ?thesis by (auto simp: copy_ok_def intro!: exI [of _ "drop n (cpBuf k) @ cpLeft k"])
qed (use assms(2) in \<open>auto simp: copy_ok_def\<close>)

lemma dir_set_dir [simp]: "dir d (set_dir d k p) = k"
  by (cases d) simp_all

lemma set_dir_frame [simp]:
  "ppDone (set_dir d k p) = ppDone p" "ppMain (set_dir d k p) = ppMain p"
  "ppClosesA (set_dir d k p) = ppClosesA p" "ppClosesB (set_dir d k p) = ppClosesB p"
  by (cases d; simp)+

lemma pipe_inv_dir: "pipe_inv a b p \<Longrightarrow> copy_ok (case d of AtoB \<Rightarrow> a | BtoA \<Rightarrow> b) (dir d p)"
  by (cases d) (auto simp: pipe_inv_def)

lemma pipe_inv_copies:
  "pipe_inv a b p \<Longrightarrow> copy_ok (case d of AtoB \<Rightarrow> a | BtoA \<Rightarrow> b) k \<Longrightarrow> cpPc (dir d p) \<noteq> Exited \<Longrightarrow> cpPc k \<noteq> Exited \<Longrightarrow>
   pipe_inv a b (set_dir d k p)"
  by (cases d) (auto simp: pipe_inv_def exits_def)

lemma pipe_inv_sends:
  "pipe_inv a b p \<Longrightarrow> cpPc (dir d p) = Sending \<Longrightarrow>
   pipe_inv a b (set_dir d ((dir d p)\<lparr>cpPc := Exited\<rparr>) (p\<lparr>ppDone := Suc (ppDone p)\<rparr>))"
  by (cases d) (auto simp: pipe_inv_def exits_def copy_ok_def)

lemma pipe_step_inv: "pipe_inv a b p \<Longrightarrow> pipe_step p q \<Longrightarrow> pipe_inv a b q"
proof (erule pipe_step.cases, goal_cases)
  case (1 d r k)
  have "pipe_inv a b p" "copy_step (dir d p) k" using 1 by simp_all
  with copy_step_ok [OF this(2) pipe_inv_dir [OF this(1)]] have "pipe_inv a b (set_dir d k p)"
    by (intro pipe_inv_copies) auto
  with 1 show ?case by simp
next
  case (2 d r)
  then show ?case by (auto intro: pipe_inv_sends)
qed (auto simp: pipe_inv_def exits_def)

lemma pipe_inv_start: "pipe_inv a b (new_pipe a b)"
  by (simp add: pipe_inv_def new_pipe_def new_copy_def copy_ok_def exits_def)

interpretation pp: state_machine "\<lambda>p. p = new_pipe a b" pipe_step "pipe_inv a b" for a b
  by unfold_locales (simp add: pipe_inv_start, rule pipe_step_inv)

section \<open>The end of a pipe\<close>

text \<open>A copy that is running can come to its end: its end of the connection fails, or its send finds room.\<close>

lemma copy_exits:
  assumes inv: "pipe_inv a b p"
  shows "\<exists>q. pipe_step\<^sup>*\<^sup>* p q \<and> cpPc (dir d q) = Exited \<and> (cpPc (dir e p) = Exited \<longrightarrow> cpPc (dir e q) = Exited)"
proof -
  have sent: "\<exists>q. pipe_step p q \<and> cpPc (dir d q) = Exited \<and> (cpPc (dir e p) = Exited \<longrightarrow> cpPc (dir e q) = Exited)"
    if "pipe_inv a b p" "cpPc (dir d p) = Sending" for p
  proof -
    have "ppDone p < doneCapacity" using that by (cases d) (auto simp: pipe_inv_def exits_def doneCapacity_def of_bool_def split: if_splits)
    let ?q = "set_dir d ((dir d p)\<lparr>cpPc := Exited\<rparr>) (p\<lparr>ppDone := Suc (ppDone p)\<rparr>)"
    have "cpPc (dir e p) = Exited \<longrightarrow> cpPc (dir e ?q) = Exited" by (cases d; cases e) simp_all
    with pipe_step.sends [OF that(2) \<open>ppDone p < doneCapacity\<close>] show ?thesis by (intro exI [of _ ?q]) simp
  qed
  show ?thesis
  proof (cases "cpPc (dir d p)")
    case Copying
    let ?p = "set_dir d ((dir d p)\<lparr>cpSunk := cpSunk (dir d p) @ take 0 (cpBuf (dir d p)), cpBuf := [], cpPc := Sending\<rparr>) p"
    have s: "pipe_step p ?p" by (rule pipe_step.copies, rule copy_step.end_fails [OF Copying])
    from sent [OF pipe_step_inv [OF inv s]] obtain q where "pipe_step ?p q" "cpPc (dir d q) = Exited"
        "cpPc (dir e ?p) = Exited \<longrightarrow> cpPc (dir e q) = Exited" by auto
    moreover have "cpPc (dir e p) = Exited \<longrightarrow> cpPc (dir e ?p) = Exited" using Copying by (cases d; cases e) simp_all
    ultimately show ?thesis using s by (meson converse_rtranclp_into_rtranclp r_into_rtranclp)
  next
    case Sending
    from sent [OF inv this] show ?thesis by blast
  qed auto
qed

text \<open>Once both copies have ended, nothing keeps the main goroutine from its end.\<close>

lemma main_returns:
  assumes "pipe_inv a b p" "exits p = 2"
  shows "\<exists>q. pipe_step\<^sup>*\<^sup>* p q \<and> ppMain q = Returned"
proof -
  have last: "\<exists>q. pipe_step\<^sup>*\<^sup>* p q \<and> ppMain q = Returned" if "pipe_inv a b p" "exits p = 2" "ppMain p = AwaitSecond" for p
    using pipe_step.second [OF that(3), of 0] that(1,2)
    by (intro exI [of _ "p\<lparr>ppDone := 0, ppMain := Returned\<rparr>"]) (simp add: pipe_inv_def that(3) r_into_rtranclp)
  have b: "\<exists>q. pipe_step\<^sup>*\<^sup>* p q \<and> ppMain q = Returned" if "pipe_inv a b p" "exits p = 2" "ppMain p = CloseB" for p
    using last [OF pipe_step_inv [OF that(1) pipe_step.close_b [OF that(3)]]] pipe_step.close_b [OF that(3)] that(2)
    by (auto simp: exits_def intro: converse_rtranclp_into_rtranclp)
  have a: "\<exists>q. pipe_step\<^sup>*\<^sup>* p q \<and> ppMain q = Returned" if "pipe_inv a b p" "exits p = 2" "ppMain p = CloseA" for p
    using b [OF pipe_step_inv [OF that(1) pipe_step.close_a [OF that(3)]]] pipe_step.close_a [OF that(3)] that(2)
    by (auto simp: exits_def intro: converse_rtranclp_into_rtranclp)
  show ?thesis
  proof (cases "ppMain p")
    case AwaitFirst
    then have "ppDone p = Suc 1" using assms by (simp add: pipe_inv_def)
    note s = pipe_step.first [OF AwaitFirst this]
    from a [OF pipe_step_inv [OF assms(1) s]] s assms(2) show ?thesis
      by (auto simp: exits_def intro: converse_rtranclp_into_rtranclp)
  qed (use a b last assms in auto)
qed

text \<open>C31: The pipe between a public connection and its stream keeps nobody waiting and cuts nobody short: it closes an
  end only after one of its copies has finished, each end exactly once, and returns only after both copies
  have; from every state it reaches it can still come to its return, since no send on its channel
  ever blocks for good; and at every moment each end has been given a prefix of what the other sent, all of it when
  that other end finished by itself.\<close>

theorem pipe_tears_down:
  assumes "pipe_step\<^sup>*\<^sup>* (new_pipe a b) p"
  shows "(ppClosesA p + ppClosesB p > 0 \<longrightarrow> cpPc (ppAtoB p) = Exited \<or> cpPc (ppBtoA p) = Exited) \<and>
         ppClosesA p \<le> 1 \<and> ppClosesB p \<le> 1 \<and>
         (ppMain p = Returned \<longrightarrow> cpPc (ppAtoB p) = Exited \<and> cpPc (ppBtoA p) = Exited \<and> ppClosesA p = 1 \<and> ppClosesB p = 1) \<and>
         (\<exists>q. pipe_step\<^sup>*\<^sup>* p q \<and> ppMain q = Returned) \<and>
         (\<exists>rest. a = cpSunk (ppAtoB p) @ rest \<and> (cpEOF (ppAtoB p) \<longrightarrow> rest = [])) \<and>
         (\<exists>rest. b = cpSunk (ppBtoA p) @ rest \<and> (cpEOF (ppBtoA p) \<longrightarrow> rest = []))"
proof -
  have inv: "pipe_inv a b p" by (rule pp.reachable_inv [OF refl assms])
  from copy_exits [OF inv, of AtoB AtoB] obtain p1 where p1: "pipe_step\<^sup>*\<^sup>* p p1" "cpPc (dir AtoB p1) = Exited" by blast
  have inv1: "pipe_inv a b p1" by (rule pp.inv_run [OF p1(1) inv])
  from copy_exits [OF inv1, of BtoA AtoB] p1(2) obtain p2 where
    p2: "pipe_step\<^sup>*\<^sup>* p1 p2" "cpPc (dir BtoA p2) = Exited" "cpPc (dir AtoB p2) = Exited" by blast
  have "exits p2 = 2" using p2(2,3) by (simp add: exits_def)
  from main_returns [OF pp.inv_run [OF p2(1) inv1] this] obtain q where "pipe_step\<^sup>*\<^sup>* p2 q" "ppMain q = Returned" by blast
  with p1(1) p2(1) have "\<exists>q. pipe_step\<^sup>*\<^sup>* p q \<and> ppMain q = Returned" by (meson rtranclp_trans)
  moreover have "(\<exists>rest. a = cpSunk (ppAtoB p) @ rest \<and> (cpEOF (ppAtoB p) \<longrightarrow> rest = [])) \<and>
      (\<exists>rest. b = cpSunk (ppBtoA p) @ rest \<and> (cpEOF (ppBtoA p) \<longrightarrow> rest = []))"
    using inv by (auto simp: pipe_inv_def copy_ok_def)
  moreover have "received (ppMain p) \<le> exits p" using inv unfolding pipe_inv_def by linarith
  ultimately show ?thesis using inv
    by (cases "ppMain p") (auto simp: pipe_inv_def exits_def of_bool_def split: if_splits)
qed

text \<open>A client that sends one byte and hangs up.\<close>

lemma hang_up: "pipe_step\<^sup>*\<^sup>* (new_pipe [7] [])
    ((new_pipe [7] [])\<lparr>ppAtoB := \<lparr>cpLeft = [], cpBuf = [], cpSunk = [7], cpEOF = True, cpPc = Sending\<rparr>\<rparr>)"
proof -
  let ?p = "\<lambda>k. (new_pipe [7] [])\<lparr>ppAtoB := k\<rparr>"
  let ?k = "\<lambda>l b s e pc. \<lparr>cpLeft = l, cpBuf = b, cpSunk = s, cpEOF = e, cpPc = pc\<rparr>"
  have step: "pipe_step (?p k) (?p k')" if "copy_step k k'" for k k'
    using pipe_step.copies [of AtoB "?p k" k'] that by simp
  have "new_pipe [7] [] = ?p (?k [7] [] [] False Copying)" by (simp add: new_pipe_def new_copy_def)
  moreover have "pipe_step (?p (?k [7] [] [] False Copying)) (?p (?k [] [7] [] False Copying))"
    by (rule step) (use copy_step.read_chunk [of "?k [7] [] [] False Copying" 1] in simp)
  moreover have "pipe_step (?p (?k [] [7] [] False Copying)) (?p (?k [] [] [7] False Copying))"
    by (rule step) (use copy_step.write_chunk [of "?k [] [7] [] False Copying"] in simp)
  moreover have "pipe_step (?p (?k [] [] [7] False Copying)) (?p (?k [] [] [7] True Sending))"
    by (rule step) (use copy_step.source_ends [of "?k [] [] [7] False Copying"] in simp)
  ultimately show ?thesis by (metis (no_types, lifting) converse_rtranclp_into_rtranclp rtranclp.rtrancl_refl)
qed

theorem pipe_tears_down_witness:
  "\<exists>q. pipe_step\<^sup>*\<^sup>* (new_pipe [7] []) q \<and> ppMain q = Returned \<and> ppClosesA q = 1 \<and> ppClosesB q = 1"
proof -
  from pipe_tears_down [OF hang_up] obtain q where
    "pipe_step\<^sup>*\<^sup>* ((new_pipe [7] [])\<lparr>ppAtoB := \<lparr>cpLeft = [], cpBuf = [], cpSunk = [7], cpEOF = True, cpPc = Sending\<rparr>\<rparr>) q"
    "ppMain q = Returned" by blast
  with hang_up have q: "pipe_step\<^sup>*\<^sup>* (new_pipe [7] []) q" "ppMain q = Returned" by (auto intro: rtranclp_trans)
  from pipe_tears_down [OF q(1)] q show ?thesis by blast
qed

end
