(* ===== verification/Json.thy ===== *)
theory Json
  imports GoStrings
begin

text \<open>
  What the gateway uses of \<open>encoding/json\<close>: decoded values (Go's \<open>interface{}\<close>), and
  \<open>json.Marshal\<close> with its string escaping (HTML escaping on, invalid UTF-8 replaced), as the
  \<open>Marshal\<close> of the Go version in \<open>go.mod\<close> does it. A number is kept as its text.
\<close>

section \<open>Values\<close>

datatype json =
    JNull
  | JBool bool
  | JNumber gostring
  | JString gostring
  | JArray "json list"
  | JObject "(gostring \<times> json) list"

text \<open>\<open>m[key]\<close> on a decoded object; a missing key is Go's nil.\<close>

definition field :: "(gostring \<times> json) list \<Rightarrow> gostring \<Rightarrow> json" where
  "field m k = (case map_of m k of Some v \<Rightarrow> v | None \<Rightarrow> JNull)"

section \<open>UTF-8\<close>

abbreviation code :: "char \<Rightarrow> nat" where
  "code c \<equiv> of_char c"

definition isCont :: "char \<Rightarrow> bool" where
  "isCont c \<longleftrightarrow> 128 \<le> code c \<and> code c \<le> 191"

text \<open>The encoding of one rune, and the length of the one a string starts with; 0 when there is none.\<close>

fun isRune :: "gostring \<Rightarrow> bool" where
  "isRune [a] \<longleftrightarrow> code a < 128"
| "isRune [a, b] \<longleftrightarrow> 194 \<le> code a \<and> code a \<le> 223 \<and> isCont b"
| "isRune [a, b, c] \<longleftrightarrow>
     224 \<le> code a \<and> code a \<le> 239 \<and> isCont b \<and> isCont c \<and>
     (code a = 224 \<longrightarrow> 160 \<le> code b) \<and> (code a = 237 \<longrightarrow> code b \<le> 159)"
| "isRune [a, b, c, d] \<longleftrightarrow>
     240 \<le> code a \<and> code a \<le> 244 \<and> isCont b \<and> isCont c \<and> isCont d \<and>
     (code a = 240 \<longrightarrow> 144 \<le> code b) \<and> (code a = 244 \<longrightarrow> code b \<le> 143)"
| "isRune _ \<longleftrightarrow> False"

definition rune_len :: "gostring \<Rightarrow> nat" where
  "rune_len s =
     (if isRune (take 1 s) then 1 else if isRune (take 2 s) then 2
      else if isRune (take 3 s) then 3 else if isRune (take 4 s) then 4 else 0)"

lemma isRune_cases [consumes 1]:
  assumes "isRune r"
  obtains a where "r = [a]" | a b where "r = [a, b]" | a b c where "r = [a, b, c]"
  | a b c d where "r = [a, b, c, d]"
  using assms by (cases r rule: isRune.cases) auto

lemma isRune_len: "isRune r \<Longrightarrow> rune_len (r @ t) = length r"
  by (cases r rule: isRune_cases) (auto simp: rune_len_def)

lemma rune_len_isRune: "rune_len s \<noteq> 0 \<Longrightarrow> isRune (take (rune_len s) s)"
  by (auto simp: rune_len_def split: if_splits)

lemma rune_decomp:
  assumes "rune_len s \<noteq> 0"
  obtains r t where "s = r @ t" "isRune r" "rune_len s = length r"
  using rune_len_isRune [OF assms] isRune_len [of "take (rune_len s) s" "drop (rune_len s) s"]
  by (metis append_take_drop_id)

lemma isRune_not_Nil: "isRune r \<Longrightarrow> r \<noteq> []"
  by auto

function valid_utf8 :: "gostring \<Rightarrow> bool" where
  "valid_utf8 s =
     (if s = [] then True else if rune_len s = 0 then False else valid_utf8 (drop (rune_len s) s))"
  by pat_completeness auto
termination
  by (relation "measure length") auto

declare valid_utf8.simps [simp del]

lemma valid_utf8_Nil [simp]: "valid_utf8 []"
  by (subst valid_utf8.simps) simp

section \<open>Marshal\<close>

definition hex_digit :: "nat \<Rightarrow> char" where
  "hex_digit n = hexChars ! n"

text \<open>\<open>appendString\<close> on a byte below 128: safe bytes stand for themselves.\<close>

definition escape_ascii :: "char \<Rightarrow> gostring" where
  "escape_ascii c =
     (let b = code c in
      if b = 92 \<or> b = 34 then [CHR 0x5C, c]
      else if b = 8 then [CHR 0x5C, CHR ''b'']
      else if b = 12 then [CHR 0x5C, CHR ''f'']
      else if b = 10 then [CHR 0x5C, CHR ''n'']
      else if b = 13 then [CHR 0x5C, CHR ''r'']
      else if b = 9 then [CHR 0x5C, CHR ''t'']
      else if b < 32 \<or> b = 60 \<or> b = 62 \<or> b = 38 then
        [CHR 0x5C, CHR ''u'', CHR ''0'', CHR ''0'', hex_digit (b div 16), hex_digit (b mod 16)]
      else [c])"

text \<open>U+2028 and U+2029 are \<open>E2 80 A8\<close> and \<open>E2 80 A9\<close>.\<close>

definition lineSep :: "gostring \<Rightarrow> bool" where
  "lineSep r \<longleftrightarrow> r = [CHR 0xE2, CHR 0x80, CHR 0xA8] \<or> r = [CHR 0xE2, CHR 0x80, CHR 0xA9]"

definition escape_rune :: "gostring \<Rightarrow> gostring" where
  "escape_rune r =
     (case r of
        [c] \<Rightarrow> escape_ascii c
      | _ \<Rightarrow> if lineSep r then CHR 0x5C # ''u202'' @ [hex_digit (code (last r) mod 16)] else r)"

function escape :: "gostring \<Rightarrow> gostring" where
  "escape s =
     (if s = [] then []
      else if rune_len s = 0 then CHR 0x5C # ''ufffd'' @ escape (tl s)
      else escape_rune (take (rune_len s) s) @ escape (drop (rune_len s) s))"
  by pat_completeness auto
termination
  by (relation "measure length") auto

declare escape.simps [simp del]

lemma escape_Nil [simp]: "escape [] = []"
  by (simp add: escape.simps)

lemma escape_rune_append: "isRune r \<Longrightarrow> escape (r @ t) = escape_rune r @ escape t"
  using isRune_not_Nil [of r] by (subst escape.simps) (simp add: isRune_len)

definition quote :: "gostring \<Rightarrow> gostring" where
  "quote s = CHR 0x22 # escape s @ [CHR 0x22]"

fun Marshal :: "json \<Rightarrow> gostring" where
  "Marshal JNull = ''null''"
| "Marshal (JBool b) = (if b then ''true'' else ''false'')"
| "Marshal (JNumber n) = n"
| "Marshal (JString s) = quote s"
| "Marshal (JArray vs) = ''['' @ Join (map Marshal vs) '','' @ '']''"
| "Marshal (JObject kvs) = ''{'' @ Join (map (\<lambda>(k, v). quote k @ '':'' @ Marshal v) kvs) '','' @ ''}''"

section \<open>Reading a quoted string back\<close>

text \<open>
  A decoder for the strings \<open>quote\<close> writes; it serves only to show that quoting loses nothing
  on valid UTF-8. The first argument bounds the number of runes.
\<close>

definition hex_value :: "char \<Rightarrow> nat" where
  "hex_value c = (if is_digit c then code c - 48 else code c - 87)"

definition unescape_esc :: "gostring \<Rightarrow> (gostring \<times> gostring) option" where
  "unescape_esc s =
     (case s of
        [] \<Rightarrow> None
      | x # r \<Rightarrow>
          if x = CHR ''u'' then
            (case r of
               a # b # c # d # r' \<Rightarrow>
                 if a = CHR ''2'' then
                   Some ([CHR 0xE2, CHR 0x80, char_of (160 + hex_value d)], r')
                 else Some ([char_of (16 * hex_value c + hex_value d)], r')
             | _ \<Rightarrow> None)
          else if x = CHR ''b'' then Some ([char_of (8 :: nat)], r)
          else if x = CHR ''f'' then Some ([char_of (12 :: nat)], r)
          else if x = CHR ''n'' then Some ([char_of (10 :: nat)], r)
          else if x = CHR ''r'' then Some ([char_of (13 :: nat)], r)
          else if x = CHR ''t'' then Some ([char_of (9 :: nat)], r)
          else Some ([x], r))"

definition unescape1 :: "gostring \<Rightarrow> (gostring \<times> gostring) option" where
  "unescape1 s =
     (if s = [] then None
      else if hd s = CHR 0x5C then unescape_esc (tl s)
      else Some (take (rune_len s) s, drop (rune_len s) s))"

fun unescape :: "nat \<Rightarrow> gostring \<Rightarrow> (gostring \<times> gostring) option" where
  "unescape 0 s = None"
| "unescape (Suc n) s =
     (if s = [] then None
      else if hd s = CHR 0x22 then Some ([], tl s)
      else (case unescape1 s of
                None \<Rightarrow> None
              | Some (t, r) \<Rightarrow> (case unescape n r of None \<Rightarrow> None | Some (u, r') \<Rightarrow> Some (t @ u, r'))))"

lemma hex_value_digit: "n < 16 \<Longrightarrow> hex_value (hex_digit n) = n"
  by (auto simp: hex_value_def hex_digit_def hexChars_def less_Suc_eq numeral_eq_Suc is_digit_def)

lemma code_eq: "code c = n \<Longrightarrow> c = char_of n"
  by (metis char_of_char)

lemma unescape1_plain: "isRune r \<Longrightarrow> hd r \<noteq> CHR 0x5C \<Longrightarrow> unescape1 (r @ t) = Some (r, t)"
  using isRune_not_Nil [of r] by (simp add: unescape1_def isRune_len)

lemma unescape1_ascii:
  assumes "code c < 128"
  shows "unescape1 (escape_ascii c @ t) = Some ([c], t)"
proof -
  let ?b = "code c"
  consider (backslash) "?b = 92 \<or> ?b = 34" | (escape_letter) "?b \<in> {8, 12, 10, 13, 9}"
    | (hexadecimal) "?b \<notin> {92, 34, 8, 12, 10, 13, 9}" "?b < 32 \<or> ?b = 60 \<or> ?b = 62 \<or> ?b = 38"
    | (plain) "?b \<notin> {92, 34, 8, 12, 10, 13, 9}" "\<not> (?b < 32 \<or> ?b = 60 \<or> ?b = 62 \<or> ?b = 38)"
    by blast
  then show ?thesis
  proof cases
    case backslash
    then have "c \<notin> set ''ubfnrt''" by auto
    with backslash show ?thesis by (simp add: escape_ascii_def Let_def unescape1_def unescape_esc_def)
  next
    case escape_letter
    then have "c = char_of ?b" by simp
    with escape_letter show ?thesis
      by (elim insertE) (simp_all add: escape_ascii_def Let_def unescape1_def unescape_esc_def)
  next
    case hexadecimal
    then have "?b div 16 < 16" "?b mod 16 < 16" by auto
    with hexadecimal show ?thesis
      by (simp add: escape_ascii_def Let_def unescape1_def unescape_esc_def hex_value_digit)
  next
    case plain
    then have "hd [c] \<noteq> CHR 0x5C" by auto
    with plain unescape1_plain [of "[c]" t] assms show ?thesis by (simp add: escape_ascii_def Let_def)
  qed
qed

lemma lineSep_chars: "char_of (168 :: nat) = CHR 0xA8" "char_of (169 :: nat) = CHR 0xA9"
  by (rule code_eq [symmetric], simp)+

lemma unescape1_lineSep: "lineSep r \<Longrightarrow> unescape1 (escape_rune r @ t) = Some (r, t)"
  by (auto simp: lineSep_def escape_rune_def unescape1_def unescape_esc_def hex_value_digit lineSep_chars)

lemma unescape1_rune:
  assumes "isRune r"
  shows "unescape1 (escape_rune r @ t) = Some (r, t)"
proof (cases "lineSep r \<or> length r = 1")
  case True
  then show ?thesis
  proof
    assume "length r = 1"
    then obtain c where "r = [c]" by (auto simp: length_Suc_conv)
    with assms show ?thesis by (simp add: escape_rune_def unescape1_ascii)
  qed (rule unescape1_lineSep)
next
  case False
  then have "escape_rune r = r" by (auto simp: escape_rune_def split: list.split)
  moreover have "hd r \<noteq> CHR 0x5C"
    by (rule isRune_cases [OF assms]) (use assms False in auto)
  ultimately show ?thesis using assms by (simp add: unescape1_plain)
qed

lemma escape_rune_hd: "isRune r \<Longrightarrow> escape_rune r \<noteq> [] \<and> hd (escape_rune r) \<noteq> CHR 0x22"
  by (cases r rule: isRune_cases)
    (auto simp: escape_rune_def escape_ascii_def Let_def lineSep_def)

lemma unescape_step:
  "isRune r \<Longrightarrow> unescape (Suc n) (escape_rune r @ t) =
     (case unescape n t of None \<Rightarrow> None | Some (u, t') \<Rightarrow> Some (r @ u, t'))"
  using escape_rune_hd [of r] by (simp add: unescape1_rune)

lemma unescape_escape:
  "valid_utf8 s \<Longrightarrow> length s < n \<Longrightarrow> unescape n (escape s @ CHR 0x22 # t) = Some (s, t)"
proof (induction s arbitrary: n rule: valid_utf8.induct)
  case (1 s)
  obtain m where n: "n = Suc m" using "1.prems"(2) by (cases n) auto
  show ?case
  proof (cases "s = []")
    case True
    with n show ?thesis by simp
  next
    case False
    with "1.prems"(1) have l: "rune_len s \<noteq> 0" and v: "valid_utf8 (drop (rune_len s) s)"
      by (subst (asm) valid_utf8.simps; simp split: if_splits)+
    from rune_decomp [OF l] obtain r u where r: "s = r @ u" "isRune r" "rune_len s = length r" .
    with "1.IH" [OF False l v, of m] "1.prems"(2) n isRune_not_Nil [OF r(2)]
    have "unescape m (escape u @ CHR 0x22 # t) = Some (u, t)" by (cases r) auto
    with r n show ?thesis by (simp add: escape_rune_append unescape_step del: unescape.simps)
  qed
qed

lemma quote_inj:
  assumes "valid_utf8 s" "valid_utf8 s'" "quote s @ t = quote s' @ t'"
  shows "s = s' \<and> t = t'"
proof -
  let ?n = "Suc (length s + length s')"
  have "unescape ?n (escape s @ CHR 0x22 # t) = unescape ?n (escape s' @ CHR 0x22 # t')"
    using assms(3) by (simp add: quote_def)
  then show ?thesis using assms(1,2) by (simp add: unescape_escape del: unescape.simps)
qed

end
