(* ===== verification/OpenAI.thy ===== *)
theory OpenAI
  imports Json
begin

text \<open>
  The OpenAI side of the gateway (\<open>internal/gateway/openai.go\<close>): the request and response
  types, the text of a message, the flattening of a conversation into one prompt, finish
  reasons, usage, and the response and stream-chunk constructors. An \<open>error\<close> is its text.
  A \<open>float64\<close> cost is a value of a type variable: the gateway only passes it on. The sampling
  parameters of a request, which the gateway decodes and never reads, are their JSON text.
\<close>

section \<open>Types\<close>

record ToolCallFunction =
  tfName :: gostring
  tfArguments :: gostring

record ToolCall =
  tcID :: gostring
  tcType :: gostring
  tcFunction :: ToolCallFunction

record OpenAIMessage =
  omRole :: gostring
  omContent :: json
  omToolCallID :: gostring
  omToolCalls :: "ToolCall list"

record ToolFunctionSchema =
  fsName :: gostring
  fsDescription :: gostring
  fsParameters :: json

record ToolSchema =
  tsType :: gostring
  tsFunction :: ToolFunctionSchema

record ReasoningSpec =
  rsEnabled :: "bool option"
  rsEffort :: gostring

record JSONSchemaSpec =
  jsName :: gostring
  jsSchema :: "json option"
  jsStrict :: "bool option"

record ResponseFormat =
  rfType :: gostring
  rfJSONSchema :: "JSONSchemaSpec option"

record ChatCompletionRequest =
  ccModel :: gostring
  ccMessages :: "OpenAIMessage list"
  ccTools :: "ToolSchema list"
  ccToolChoice :: json
  ccStream :: bool
  ccReasoningEffort :: gostring
  ccTemperature :: gostring
  ccTopP :: gostring
  ccMaxTokens :: int
  ccMaxCompletionTokens :: int
  ccReasoning :: "ReasoningSpec option"
  ccResponseFormat :: "ResponseFormat option"

record Usage =
  usInputTokens :: int
  usOutputTokens :: int
  usCacheReadInputTokens :: int
  usCacheCreationInputTokens :: int

record 'f Completion =
  cmText :: gostring
  cmReasoningText :: gostring
  cmModel :: gostring
  cmStopReason :: "gostring option"
  cmUsage :: Usage
  cmCostUSD :: "'f option"
  cmCLISessionID :: gostring

section \<open>The text of a message\<close>

definition unsupportedContent :: gostring where
  "unsupportedContent = ''only text content parts are supported by this gateway''"

fun part_text :: "json \<Rightarrow> gostring option" where
  "part_text (JObject m) =
     (case (field m ''type'', field m ''text'') of
        (JString t, JString text) \<Rightarrow> if t = ''text'' then Some text else None
      | _ \<Rightarrow> None)"
| "part_text _ = None"

fun parts_text :: "json list \<Rightarrow> gostring + gostring list" where
  "parts_text [] = Inr []"
| "parts_text (p # ps) =
     (case part_text p of
        None \<Rightarrow> Inl unsupportedContent
      | Some t \<Rightarrow> (case parts_text ps of Inl e \<Rightarrow> Inl e | Inr ts \<Rightarrow> Inr (t # ts)))"

definition textOf :: "OpenAIMessage \<Rightarrow> gostring + gostring" where
  "textOf msg =
     (case omContent msg of
        JNull \<Rightarrow> Inr []
      | JString s \<Rightarrow> Inr s
      | JArray arr \<Rightarrow> (case parts_text arr of Inl e \<Rightarrow> Inl e | Inr parts \<Rightarrow> Inr (Join parts []))
      | _ \<Rightarrow> Inl unsupportedContent)"

section \<open>Flattening a conversation\<close>

definition nl2 :: gostring where
  "nl2 = [char_of (10 :: nat), char_of (10 :: nat)]"

definition defaultSystemPrompt :: gostring where
  "defaultSystemPrompt = ''You are a helpful assistant.''"

definition transcriptInstruction :: gostring where
  "transcriptInstruction =
     ''The user message contains a conversation transcript with turns marked \"[user]:\" and \"[assistant]:\". '' @
     ''Continue the conversation by writing the next assistant reply to the final user turn. '' @
     ''Output only the reply itself, with no role marker or commentary about the transcript.''"

definition toolTranscriptInstruction :: gostring where
  "toolTranscriptInstruction =
     ''Turns marked \"[assistant called tool <name> (<id>)]\" and \"[tool <name> (<id>) returned]\" record tool calls '' @
     ''the assistant made earlier and the results those tools produced; '' @
     ''treat them as completed context when writing the reply.''"

datatype turn_kind = KUser | KAssistant | KTool

record turn =
  tnKind :: turn_kind
  tnRaw :: gostring
  tnRendered :: gostring

text \<open>The variables of \<open>BuildPrompt\<close>'s loop.\<close>

record prompt_state =
  psSystemParts :: "gostring list"
  psTurns :: "turn list"
  psToolNames :: "gostring \<rightharpoonup> gostring"
  psHasToolTurns :: bool

definition call_turn :: "ToolCall \<Rightarrow> turn" where
  "call_turn tc =
     \<lparr>tnKind = KTool, tnRaw = [],
      tnRendered = ''[assistant called tool '' @ tfName (tcFunction tc) @ '' ('' @ tcID tc @ '')]: '' @ tfArguments (tcFunction tc)\<rparr>"

definition add_call :: "ToolCall \<Rightarrow> prompt_state \<Rightarrow> prompt_state" where
  "add_call tc st =
     st\<lparr>psToolNames := (psToolNames st)(tcID tc \<mapsto> tfName (tcFunction tc)),
        psTurns := psTurns st @ [call_turn tc], psHasToolTurns := True\<rparr>"

definition nameOr :: "(gostring \<rightharpoonup> gostring) \<Rightarrow> gostring \<Rightarrow> gostring" where
  "nameOr names k = (case names k of None \<Rightarrow> ''unknown'' | Some n \<Rightarrow> if n = [] then ''unknown'' else n)"

definition add_message :: "OpenAIMessage \<Rightarrow> prompt_state \<Rightarrow> gostring + prompt_state" where
  "add_message msg st =
     (if omRole msg = ''system'' \<or> omRole msg = ''developer'' then
        (case textOf msg of Inl e \<Rightarrow> Inl e
         | Inr text \<Rightarrow> Inr (st\<lparr>psSystemParts := psSystemParts st @ [text]\<rparr>))
      else if omRole msg = ''user'' then
        (case textOf msg of Inl e \<Rightarrow> Inl e
         | Inr text \<Rightarrow> Inr (st\<lparr>psTurns := psTurns st @
             [\<lparr>tnKind = KUser, tnRaw = text, tnRendered = ''[user]: '' @ text\<rparr>]\<rparr>))
      else if omRole msg = ''assistant'' then
        (case textOf msg of Inl e \<Rightarrow> Inl e
         | Inr text \<Rightarrow>
             let st = (if text \<noteq> [] \<or> omToolCalls msg = [] then
                         st\<lparr>psTurns := psTurns st @
                           [\<lparr>tnKind = KAssistant, tnRaw = text, tnRendered = ''[assistant]: '' @ text\<rparr>]\<rparr>
                       else st)
             in Inr (fold add_call (omToolCalls msg) st))
      else if omRole msg = ''tool'' then
        (if omToolCallID msg = [] then Inl ''tool messages must carry a tool_call_id''
         else
           (case textOf msg of Inl e \<Rightarrow> Inl e
            | Inr text \<Rightarrow>
                let name = nameOr (psToolNames st) (omToolCallID msg)
                in Inr (st\<lparr>psTurns := psTurns st @
                     [\<lparr>tnKind = KTool, tnRaw = [],
                       tnRendered = ''[tool '' @ name @ '' ('' @ omToolCallID msg @ '') returned]: '' @ text\<rparr>],
                     psHasToolTurns := True\<rparr>)))
      else Inl (''unsupported message role: '' @ omRole msg))"

fun add_messages :: "OpenAIMessage list \<Rightarrow> prompt_state \<Rightarrow> gostring + prompt_state" where
  "add_messages [] st = Inr st"
| "add_messages (m # ms) st = (case add_message m st of Inl e \<Rightarrow> Inl e | Inr st' \<Rightarrow> add_messages ms st')"

definition BuildPrompt :: "OpenAIMessage list \<Rightarrow> gostring + (gostring \<times> gostring)" where
  "BuildPrompt messages =
     (if messages = [] then Inl ''messages must be a non-empty array''
      else
        (case add_messages messages \<lparr>psSystemParts = [], psTurns = [], psToolNames = Map.empty, psHasToolTurns = False\<rparr> of
           Inl e \<Rightarrow> Inl e
         | Inr st \<Rightarrow>
             let turns = psTurns st in
             if turns = [] \<or> tnKind (last turns) = KAssistant then
               Inl ''the last non-system message must be a user message''
             else
               let systemPrompt = Join (psSystemParts st) nl2;
                   systemPrompt = (if systemPrompt = [] then defaultSystemPrompt else systemPrompt)
               in if length turns = 1 \<and> tnKind (hd turns) = KUser then
                    Inr (systemPrompt, tnRaw (hd turns))
                  else
                    Inr (systemPrompt @ nl2 @ transcriptInstruction @
                           (if psHasToolTurns st then '' '' @ toolTranscriptInstruction else []),
                         Join (map tnRendered turns) nl2)))"

section \<open>Responses\<close>

definition MapFinishReason :: "gostring option \<Rightarrow> gostring" where
  "MapFinishReason stopReason =
     (case stopReason of
        None \<Rightarrow> ''stop''
      | Some r \<Rightarrow> if r = ''max_tokens'' then ''length''
                   else if r = ''refusal'' then ''content_filter'' else ''stop'')"

record 'f OpenAIUsage =
  ouPromptTokens :: int
  ouCompletionTokens :: int
  ouTotalTokens :: int
  ouCachedTokens :: int
  ouCostUSD :: "'f option"
  ouCacheWriteTokens :: int

definition ToOpenAIUsage :: "Usage \<Rightarrow> 'f option \<Rightarrow> 'f OpenAIUsage" where
  "ToOpenAIUsage usage costUSD =
     (let promptTokens = wrap64 (wrap64 (usInputTokens usage + usCacheReadInputTokens usage)
                                 + usCacheCreationInputTokens usage)
      in \<lparr>ouPromptTokens = promptTokens,
          ouCompletionTokens = usOutputTokens usage,
          ouTotalTokens = wrap64 (promptTokens + usOutputTokens usage),
          ouCachedTokens = usCacheReadInputTokens usage,
          ouCostUSD = costUSD,
          ouCacheWriteTokens = usCacheCreationInputTokens usage\<rparr>)"

text \<open>One record for both message shapes: a plain completion has no \<open>tool_calls\<close> member.\<close>

record Message =
  mgRole :: gostring
  mgContent :: "gostring option"
  mgReasoningContent :: gostring
  mgToolCalls :: "ToolCall list option"

record Choice =
  chIndex :: int
  chMessage :: Message
  chFinishReason :: gostring

record 'f CompletionResponse =
  crID :: gostring
  crObject :: gostring
  crCreated :: int
  crModel :: gostring
  crChoices :: "Choice list"
  crUsage :: "'f OpenAIUsage"

definition CompletionResponseWithCost :: "gostring \<Rightarrow> int \<Rightarrow> 'f Completion \<Rightarrow> 'f CompletionResponse" where
  "CompletionResponseWithCost rid created c =
     \<lparr>crID = rid, crObject = ''chat.completion'', crCreated = created, crModel = cmModel c,
      crChoices = [\<lparr>chIndex = 0,
                    chMessage = \<lparr>mgRole = ''assistant'', mgContent = Some (cmText c),
                                 mgReasoningContent = cmReasoningText c, mgToolCalls = None\<rparr>,
                    chFinishReason = MapFinishReason (cmStopReason c)\<rparr>],
      crUsage = ToOpenAIUsage (cmUsage c) (cmCostUSD c)\<rparr>"

text \<open>What of a pending call reaches the client: its id, name and canonical arguments.\<close>

record announced =
  anID :: gostring
  anName :: gostring
  anArguments :: gostring

definition ToolCallsFromPending :: "announced list \<Rightarrow> ToolCall list" where
  "ToolCallsFromPending calls =
     map (\<lambda>p. \<lparr>tcID = anID p, tcType = ''function'',
                tcFunction = \<lparr>tfName = anName p, tfArguments = anArguments p\<rparr>\<rparr>) calls"

definition NewToolCallResponse ::
  "gostring \<Rightarrow> int \<Rightarrow> gostring \<Rightarrow> gostring \<Rightarrow> gostring \<Rightarrow> announced list \<Rightarrow> 'f OpenAIUsage \<Rightarrow> 'f CompletionResponse" where
  "NewToolCallResponse rid created model text reasoningText calls usage =
     \<lparr>crID = rid, crObject = ''chat.completion'', crCreated = created, crModel = model,
      crChoices = [\<lparr>chIndex = 0,
                    chMessage = \<lparr>mgRole = ''assistant'',
                                 mgContent = (if text \<noteq> [] then Some text else None),
                                 mgReasoningContent = reasoningText,
                                 mgToolCalls = Some (ToolCallsFromPending calls)\<rparr>,
                    chFinishReason = ''tool_calls''\<rparr>],
      crUsage = usage\<rparr>"

datatype delta =
    DRole
  | DContent gostring
  | DReasoning gostring
  | DToolCalls "(nat \<times> ToolCall) list"
  | DEmpty

record 'f StreamChunk =
  scID :: gostring
  scObject :: gostring
  scCreated :: int
  scModel :: gostring
  scDelta :: delta
  scFinishReason :: "gostring option"
  scUsage :: "'f OpenAIUsage option"

definition NewStreamChunk ::
  "gostring \<Rightarrow> int \<Rightarrow> gostring \<Rightarrow> delta \<Rightarrow> gostring option \<Rightarrow> 'f OpenAIUsage option \<Rightarrow> 'f StreamChunk" where
  "NewStreamChunk rid created model d finishReason usage =
     \<lparr>scID = rid, scObject = ''chat.completion.chunk'', scCreated = created, scModel = model,
      scDelta = d, scFinishReason = finishReason, scUsage = usage\<rparr>"

section \<open>A reference definition of the transcript\<close>

text \<open>
  The turns of a conversation, one message at a time: what a message contributes depends only
  on the message and, for the name in a tool result's marker, on the calls made before it.
\<close>

definition calls_made :: "OpenAIMessage list \<Rightarrow> ToolCall list" where
  "calls_made ms = concat (map omToolCalls (filter (\<lambda>m. omRole m = ''assistant'') ms))"

definition names_after :: "OpenAIMessage list \<Rightarrow> gostring \<rightharpoonup> gostring" where
  "names_after ms = map_of (rev (map (\<lambda>tc. (tcID tc, tfName (tcFunction tc))) (calls_made ms)))"

definition text_of :: "OpenAIMessage \<Rightarrow> gostring" where
  "text_of m = (case textOf m of Inl e \<Rightarrow> [] | Inr t \<Rightarrow> t)"

definition isSystem :: "OpenAIMessage \<Rightarrow> bool" where
  "isSystem m \<longleftrightarrow> omRole m = ''system'' \<or> omRole m = ''developer''"

definition acceptable :: "OpenAIMessage \<Rightarrow> bool" where
  "acceptable m \<longleftrightarrow>
     omRole m \<in> {''system'', ''developer'', ''user'', ''assistant'', ''tool''} \<and>
     textOf m = Inr (text_of m) \<and> (omRole m = ''tool'' \<longrightarrow> omToolCallID m \<noteq> [])"

definition msg_turns :: "(gostring \<rightharpoonup> gostring) \<Rightarrow> OpenAIMessage \<Rightarrow> turn list" where
  "msg_turns names m =
     (if omRole m = ''user'' then
        [\<lparr>tnKind = KUser, tnRaw = text_of m, tnRendered = ''[user]: '' @ text_of m\<rparr>]
      else if omRole m = ''assistant'' then
        (if text_of m \<noteq> [] \<or> omToolCalls m = [] then
           [\<lparr>tnKind = KAssistant, tnRaw = text_of m, tnRendered = ''[assistant]: '' @ text_of m\<rparr>] else [])
        @ map call_turn (omToolCalls m)
      else if omRole m = ''tool'' then
        [\<lparr>tnKind = KTool, tnRaw = [],
          tnRendered = ''[tool '' @ nameOr names (omToolCallID m) @ '' ('' @ omToolCallID m @ '') returned]: '' @ text_of m\<rparr>]
      else [])"

fun turns_of :: "OpenAIMessage list \<Rightarrow> OpenAIMessage list \<Rightarrow> turn list" where
  "turns_of prior [] = []"
| "turns_of prior (m # ms) = msg_turns (names_after prior) m @ turns_of (prior @ [m]) ms"

definition system_of :: "OpenAIMessage list \<Rightarrow> gostring" where
  "system_of ms =
     (let s = Join (map text_of (filter isSystem ms)) nl2 in if s = [] then defaultSystemPrompt else s)"

definition hasTool :: "turn list \<Rightarrow> bool" where
  "hasTool ts = list_ex (\<lambda>t. tnKind t = KTool) ts"

definition transcript :: "OpenAIMessage list \<Rightarrow> gostring \<times> gostring" where
  "transcript ms =
     (let ts = turns_of [] ms in
      if length ts = 1 \<and> tnKind (hd ts) = KUser then (system_of ms, tnRaw (hd ts))
      else (system_of ms @ nl2 @ transcriptInstruction @
              (if hasTool ts then '' '' @ toolTranscriptInstruction else []),
            Join (map tnRendered ts) nl2))"

section \<open>The loop computes the reference definition\<close>

definition state_of :: "OpenAIMessage list \<Rightarrow> turn list \<Rightarrow> prompt_state" where
  "state_of ms ts =
     \<lparr>psSystemParts = map text_of (filter isSystem ms), psTurns = ts,
      psToolNames = names_after ms, psHasToolTurns = hasTool ts\<rparr>"

lemma names_after_snoc:
  "names_after (ms @ [m]) =
     (if omRole m = ''assistant'' then
        fold (\<lambda>tc f. f(tcID tc \<mapsto> tfName (tcFunction tc))) (omToolCalls m) (names_after ms)
      else names_after ms)"
proof -
  have "fold (\<lambda>tc f. f(tcID tc \<mapsto> tfName (tcFunction tc))) tcs f =
      f ++ map_of (rev (map (\<lambda>tc. (tcID tc, tfName (tcFunction tc))) tcs))" for tcs :: "ToolCall list" and f
    by (induction tcs arbitrary: f) simp_all
  then show ?thesis by (simp add: names_after_def calls_made_def)
qed

lemma fold_add_call:
  "fold add_call tcs st =
     st\<lparr>psToolNames := fold (\<lambda>tc f. f(tcID tc \<mapsto> tfName (tcFunction tc))) tcs (psToolNames st),
        psTurns := psTurns st @ map call_turn tcs, psHasToolTurns := psHasToolTurns st \<or> tcs \<noteq> []\<rparr>"
  by (induction tcs arbitrary: st) (auto simp: add_call_def)

lemma hasTool_simps [simp]:
  "hasTool [] \<longleftrightarrow> False" "hasTool (t # ts) \<longleftrightarrow> tnKind t = KTool \<or> hasTool ts"
  "hasTool (ts @ us) \<longleftrightarrow> hasTool ts \<or> hasTool us" "hasTool (map call_turn tcs) \<longleftrightarrow> tcs \<noteq> []"
  by (auto simp: hasTool_def call_turn_def list_ex_iff ex_in_conv)

lemma add_message_accepts:
  assumes "acceptable m"
  shows "add_message m (state_of ms ts) = Inr (state_of (ms @ [m]) (ts @ msg_turns (names_after ms) m))"
proof -
  have t: "textOf m = Inr (text_of m)" using assms by (simp add: acceptable_def)
  consider "omRole m = ''system''" | "omRole m = ''developer''" | "omRole m = ''user''"
    | "omRole m = ''assistant''" | "omRole m = ''tool''" "omToolCallID m \<noteq> []"
    using assms by (auto simp: acceptable_def)
  then show ?thesis
    by cases
      (auto simp: add_message_def state_of_def t msg_turns_def names_after_snoc isSystem_def
        fold_add_call Let_def)
qed

lemma add_message_rejects: "\<not> acceptable m \<Longrightarrow> \<exists>e. add_message m st = Inl e"
  by (cases "textOf m") (auto simp: add_message_def acceptable_def text_of_def)

lemma add_messages_eq:
  "list_all acceptable ms \<Longrightarrow>
   add_messages ms (state_of prior ts) = Inr (state_of (prior @ ms) (ts @ turns_of prior ms))"
  by (induction ms arbitrary: prior ts) (simp_all add: add_message_accepts)

lemma add_messages_rejects: "\<not> list_all acceptable ms \<Longrightarrow> \<exists>e. add_messages ms st = Inl e"
proof (induction ms arbitrary: st)
  case (Cons m ms)
  then show ?case
    using add_message_rejects [of m st] by (cases "add_message m st") auto
qed simp

lemma start_state_of:
  "\<lparr>psSystemParts = [], psTurns = [], psToolNames = Map.empty, psHasToolTurns = False\<rparr> = state_of [] []"
  by (simp add: state_of_def names_after_def calls_made_def hasTool_def)

definition flattens :: "OpenAIMessage list \<Rightarrow> bool" where
  "flattens ms \<longleftrightarrow> ms \<noteq> [] \<and> list_all acceptable ms \<and> turns_of [] ms \<noteq> [] \<and>
     tnKind (last (turns_of [] ms)) \<noteq> KAssistant"

lemma BuildPrompt_accepts: "flattens ms \<Longrightarrow> BuildPrompt ms = Inr (transcript ms)"
  by (simp add: flattens_def BuildPrompt_def start_state_of add_messages_eq)
    (simp add: state_of_def transcript_def system_of_def Let_def)

lemma BuildPrompt_rejects:
  assumes "\<not> flattens ms"
  shows "\<exists>e. BuildPrompt ms = Inl e"
proof (cases "list_all acceptable ms")
  case True
  with assms show ?thesis
    by (auto simp: flattens_def BuildPrompt_def start_state_of add_messages_eq) (auto simp: state_of_def)
next
  case False
  then obtain e where "add_messages ms (state_of [] []) = Inl e" using add_messages_rejects by blast
  then show ?thesis by (simp add: BuildPrompt_def start_state_of)
qed

lemma BuildPrompt_Inr: "BuildPrompt ms = Inr r \<longleftrightarrow> flattens ms \<and> r = transcript ms"
  using BuildPrompt_accepts [of ms] BuildPrompt_rejects [of ms] by (cases "flattens ms") auto

text \<open>C10: A conversation is flattened exactly when it is not empty, every message has a known role and
  only text, every tool result names its call, and the last turn is not the assistant's; the prompt
  is then the reference transcript, in which each message's turns are rendered in order and a tool
  result carries the name of the latest earlier call with its id.\<close>

theorem BuildPrompt_transcript:
  "BuildPrompt ms = Inr r \<longleftrightarrow>
     ms \<noteq> [] \<and> list_all acceptable ms \<and> turns_of [] ms \<noteq> [] \<and>
     tnKind (last (turns_of [] ms)) \<noteq> KAssistant \<and> r = transcript ms"
  by (auto simp: BuildPrompt_Inr flattens_def)

lemma Join_infix: "t \<in> set ts \<Longrightarrow> \<exists>pre post. Join ts sep = pre @ t @ post"
proof (induction ts)
  case (Cons u us)
  show ?case
  proof (cases "t = u")
    case True
    then have "Join (u # us) sep = [] @ t @ (if us = [] then [] else sep @ Join us sep)"
      by (cases us) auto
    then show ?thesis by blast
  next
    case False
    with Cons.prems have "t \<in> set us" by simp
    from Cons.IH [OF this] obtain pre post where "Join us sep = pre @ t @ post" by blast
    moreover from \<open>t \<in> set us\<close> have "us \<noteq> []" by auto
    ultimately have "Join us sep = pre @ t @ post" "us \<noteq> []" by simp_all
    then have "Join (u # us) sep = (u @ sep @ pre) @ t @ post" by (simp add: Join_Cons)
    then show ?thesis by blast
  qed
qed simp

lemma msg_turns_text:
  "acceptable m \<Longrightarrow> \<not> isSystem m \<Longrightarrow> text_of m \<noteq> [] \<Longrightarrow>
   \<exists>t \<in> set (msg_turns names m). (\<exists>mark. tnRendered t = mark @ text_of m) \<and> (tnKind t = KUser \<longrightarrow> tnRaw t = text_of m)"
  by (fastforce simp: acceptable_def isSystem_def msg_turns_def)

lemma turns_of_mem: "m \<in> set ms \<Longrightarrow> \<exists>names. set (msg_turns names m) \<subseteq> set (turns_of prior ms)"
  by (induction ms arbitrary: prior) (auto, blast)

text \<open>Flattening loses nothing the client said: whenever a conversation is accepted, the text of every
  user, assistant and tool message stands verbatim in the prompt.\<close>

theorem prompt_keeps_every_text:
  assumes "BuildPrompt ms = Inr (systemPrompt, prompt)" and "m \<in> set ms" and "\<not> isSystem m"
  shows "\<exists>pre post. prompt = pre @ text_of m @ post"
proof (cases "text_of m = []")
  case False
  let ?ts = "turns_of [] ms"
  have ok: "list_all acceptable ms" and tr: "(systemPrompt, prompt) = transcript ms"
    using assms(1) by (simp_all add: BuildPrompt_Inr flattens_def)
  have "acceptable m" using ok assms(2) by (simp add: list_all_iff)
  from msg_turns_text [OF this assms(3) False] turns_of_mem [OF assms(2), of "[]"]
  obtain t mark where t: "t \<in> set ?ts" "tnRendered t = mark @ text_of m" "tnKind t = KUser \<longrightarrow> tnRaw t = text_of m"
    by blast
  show ?thesis
  proof (cases "length ?ts = 1 \<and> tnKind (hd ?ts) = KUser")
    case True
    then have "?ts = [t]" using t(1) by (cases ?ts) auto
    with True tr t(3) have "prompt = [] @ text_of m @ []" by (simp add: transcript_def)
    then show ?thesis by blast
  next
    case False
    then have p: "prompt = Join (map tnRendered ?ts) nl2" using tr by (auto simp: transcript_def Let_def)
    from t(1) have "tnRendered t \<in> set (map tnRendered ?ts)" by simp
    from Join_infix [OF this, of nl2] obtain pre post where "prompt = pre @ tnRendered t @ post"
      unfolding p by blast
    then have "prompt = (pre @ mark) @ text_of m @ post" by (simp add: t(2))
    then show ?thesis by blast
  qed
qed auto

abbreviation user_msg :: "gostring \<Rightarrow> OpenAIMessage" where
  "user_msg s \<equiv> \<lparr>omRole = ''user'', omContent = JString s, omToolCallID = [], omToolCalls = []\<rparr>"

abbreviation assistant_msg :: "gostring \<Rightarrow> OpenAIMessage" where
  "assistant_msg s \<equiv> \<lparr>omRole = ''assistant'', omContent = JString s, omToolCallID = [], omToolCalls = []\<rparr>"

theorem prompt_keeps_every_text_witness: "\<exists>pre post. ''hi'' = pre @ ''hi'' @ post"
proof -
  have "BuildPrompt [user_msg ''hi''] = Inr (defaultSystemPrompt, ''hi'')"
    by (simp add: BuildPrompt_def add_message_def textOf_def)
  from prompt_keeps_every_text [OF this, of "user_msg ''hi''"]
  show ?thesis by (simp add: isSystem_def text_of_def textOf_def)
qed

text \<open>A stop for tools is not told apart from an ordinary one by \<open>MapFinishReason\<close>; the tool path sets its reason itself.\<close>

lemma tool_use_finish: "MapFinishReason (Some ''tool_use'') = ''stop''"
  by (simp add: MapFinishReason_def)

end
