(* ===== verification/Session.thy ===== *)
theory Session
  imports OpenAI "HOL-Library.Char_ord" "HOL-Library.List_Lexorder"
begin

text \<open>
  The table of tool-calling sessions (\<open>internal/gateway/session.go\<close>): sessions and their pending
  tool calls, the global index from tool-call ids to sessions, and every operation on them.
  Handlers keep pointers to sessions and calls after they leave the table, so sessions live in
  a heap \<open>smHeap\<close> and a \<open>*Session\<close> is an address in it; a \<open>*PendingToolCall\<close> is a position in its
  session's \<open>Pending\<close>, which only grows. Where the code uses two critical sections, the model
  has two operations, and their composition.

  Random ids and the clock are arguments. The iteration order of a Go map is an argument too.
\<close>

section \<open>Canonical arguments\<close>

text \<open>\<open>Marshal\<close> of a decoded object writes its keys in order.\<close>

fun sortKeys :: "json \<Rightarrow> json" where
  "sortKeys (JArray vs) = JArray (map sortKeys vs)"
| "sortKeys (JObject kvs) = JObject (sort_key fst (map (\<lambda>(k, v). (k, sortKeys v)) kvs))"
| "sortKeys v = v"

text \<open>\<open>json.Unmarshal\<close> into an \<open>interface{}\<close> is a parameter; it decodes an object to distinct keys.\<close>

definition canonicalJSON :: "(gostring \<Rightarrow> json option) \<Rightarrow> gostring \<Rightarrow> gostring" where
  "canonicalJSON unmarshal raw =
     (if raw = [] then ''{}''
      else (case unmarshal raw of None \<Rightarrow> raw | Some v \<Rightarrow> Marshal (sortKeys v)))"

section \<open>Sessions and pending calls\<close>

text \<open>A \<open>Resolver\<close> is a channel of capacity 1.\<close>

record resolver =
  rvBuf :: "gostring list"
  rvClosed :: bool

record PendingToolCall =
  pcID :: gostring
  pcName :: gostring
  pcArguments :: gostring
  pcResolver :: resolver
  pcClaimed :: bool
  pcResolved :: bool

text \<open>\<open>seCmd\<close>: a started process is attached; \<open>seKills\<close> counts the kills sent to it.\<close>

record Session =
  seID :: gostring
  seCmd :: bool
  seKills :: nat
  seTools :: "ToolSchema list"
  sePending :: "PendingToolCall list"
  sePendingByID :: "gostring \<rightharpoonup> nat"
  seCreatedAt :: int
  seLastActivity :: int
  seReaped :: bool

record SessionManager =
  smHeap :: "Session list"
  smSessions :: "gostring \<rightharpoonup> nat"
  smIndex :: "gostring \<rightharpoonup> gostring"
  smMaxSessions :: int
  smToolTimeoutMS :: int
  smSessionIdleMS :: int
  smDone :: bool

record ToolUseBlock =
  tuID :: gostring
  tuName :: gostring
  tuInput :: gostring

definition NewSessionManager :: "int \<Rightarrow> int \<Rightarrow> int \<Rightarrow> SessionManager" where
  "NewSessionManager maxSessions toolTimeoutMS sessionIdleMS =
     \<lparr>smHeap = [], smSessions = Map.empty, smIndex = Map.empty, smMaxSessions = maxSessions,
      smToolTimeoutMS = toolTimeoutMS, smSessionIdleMS = sessionIdleMS, smDone = False\<rparr>"

abbreviation updSession :: "nat \<Rightarrow> (Session \<Rightarrow> Session) \<Rightarrow> SessionManager \<Rightarrow> SessionManager" where
  "updSession a f sm \<equiv> sm\<lparr>smHeap := (smHeap sm)[a := f (smHeap sm ! a)]\<rparr>"

text \<open>The ids are the hexadecimal form of random bytes.\<close>

definition newSessionID :: "bytes \<Rightarrow> gostring" where
  "newSessionID b = hex_bytes b"

definition NewToolCallID :: "bytes \<Rightarrow> gostring" where
  "NewToolCallID b = ''call_'' @ hex_bytes b"

definition CreateSession :: "gostring \<Rightarrow> ToolSchema list \<Rightarrow> int \<Rightarrow> SessionManager \<Rightarrow> SessionManager \<times> nat option" where
  "CreateSession sid tools now sm =
     (if int (card (dom (smSessions sm))) \<ge> smMaxSessions sm then (sm, None)
      else
        let a = length (smHeap sm);
            sess = \<lparr>seID = sid, seCmd = False, seKills = 0, seTools = tools, sePending = [],
                    sePendingByID = Map.empty, seCreatedAt = now, seLastActivity = now, seReaped = False\<rparr>
        in (sm\<lparr>smHeap := smHeap sm @ [sess], smSessions := (smSessions sm)(sid \<mapsto> a)\<rparr>, Some a))"

definition GetSession :: "gostring \<Rightarrow> SessionManager \<Rightarrow> nat option" where
  "GetSession sid sm = smSessions sm sid"

definition GetSessionByToolCallID :: "gostring \<Rightarrow> SessionManager \<Rightarrow> nat option" where
  "GetSessionByToolCallID cid sm =
     (case smIndex sm cid of None \<Rightarrow> None | Some sid \<Rightarrow> smSessions sm sid)"

definition GetSessionCount :: "SessionManager \<Rightarrow> nat" where
  "GetSessionCount sm = card (dom (smSessions sm))"

section \<open>Announcing, resolving and claiming calls\<close>

definition newPending :: "(gostring \<Rightarrow> json option) \<Rightarrow> ToolUseBlock \<Rightarrow> gostring \<Rightarrow> PendingToolCall" where
  "newPending unmarshal u cid =
     \<lparr>pcID = cid, pcName = tuName u, pcArguments = canonicalJSON unmarshal (tuInput u),
      pcResolver = \<lparr>rvBuf = [], rvClosed = False\<rparr>, pcClaimed = False, pcResolved = False\<rparr>"

definition addPending :: "PendingToolCall \<Rightarrow> Session \<Rightarrow> Session" where
  "addPending p s =
     s\<lparr>sePending := sePending s @ [p], sePendingByID := (sePendingByID s)(pcID p \<mapsto> length (sePending s))\<rparr>"

text \<open>The first critical section of \<open>RegisterAnnouncedCalls\<close>; None is the nil of a reaped session.\<close>

definition Register_pending ::
  "(gostring \<Rightarrow> json option) \<Rightarrow> nat \<Rightarrow> ToolUseBlock list \<Rightarrow> gostring list \<Rightarrow> int \<Rightarrow> SessionManager \<Rightarrow>
   SessionManager \<times> PendingToolCall list option" where
  "Register_pending unmarshal a uses ids now sm =
     (if seReaped (smHeap sm ! a) then (sm, None)
      else
        let calls = map (\<lambda>(u, cid). newPending unmarshal u cid) (zip uses ids)
        in (updSession a (\<lambda>s. (fold addPending calls s)\<lparr>seLastActivity := now\<rparr>) sm, Some calls))"

definition Register_index :: "nat \<Rightarrow> gostring list \<Rightarrow> SessionManager \<Rightarrow> SessionManager" where
  "Register_index a ids sm =
     sm\<lparr>smIndex := fold (\<lambda>cid m. m(cid \<mapsto> seID (smHeap sm ! a))) ids (smIndex sm)\<rparr>"

definition RegisterAnnouncedCalls ::
  "(gostring \<Rightarrow> json option) \<Rightarrow> nat \<Rightarrow> ToolUseBlock list \<Rightarrow> gostring list \<Rightarrow> int \<Rightarrow> SessionManager \<Rightarrow>
   SessionManager \<times> PendingToolCall list option" where
  "RegisterAnnouncedCalls unmarshal a uses ids now sm =
     (case Register_pending unmarshal a uses ids now sm of
        (sm', None) \<Rightarrow> (sm', None)
      | (sm', Some calls) \<Rightarrow> (Register_index a (map pcID calls) sm', Some calls))"

text \<open>Channel operations on a resolver.\<close>

definition send :: "gostring \<Rightarrow> resolver \<Rightarrow> resolver outcome" where
  "send v c =
     (if rvClosed c then Panic else if length (rvBuf c) \<ge> 1 then Blocked
      else Done (c\<lparr>rvBuf := rvBuf c @ [v]\<rparr>))"

definition close_chan :: "resolver \<Rightarrow> resolver outcome" where
  "close_chan c = (if rvClosed c then Panic else Done (c\<lparr>rvClosed := True\<rparr>))"

definition recv :: "resolver \<Rightarrow> (resolver \<times> gostring option) outcome" where
  "recv c =
     (case rvBuf c of
        v # vs \<Rightarrow> Done (c\<lparr>rvBuf := vs\<rparr>, Some v)
      | [] \<Rightarrow> if rvClosed c then Done (c, None) else Blocked)"

definition updPending :: "nat \<Rightarrow> (PendingToolCall \<Rightarrow> PendingToolCall) \<Rightarrow> Session \<Rightarrow> Session" where
  "updPending i f s = s\<lparr>sePending := (sePending s)[i := f (sePending s ! i)]\<rparr>"

definition Resolve_pending :: "nat \<Rightarrow> gostring \<Rightarrow> gostring \<Rightarrow> int \<Rightarrow> SessionManager \<Rightarrow> (SessionManager \<times> bool) outcome" where
  "Resolve_pending a cid result now sm =
     (case sePendingByID (smHeap sm ! a) cid of
        None \<Rightarrow> Done (sm, False)
      | Some i \<Rightarrow>
          let p = sePending (smHeap sm ! a) ! i in
          if pcResolved p then Done (sm, False)
          else
            bind_outcome (send result (pcResolver p)) (\<lambda>c.
              Done (updSession a (\<lambda>s. (updPending i (\<lambda>p. p\<lparr>pcResolved := True, pcResolver := c\<rparr>) s)
                                      \<lparr>seLastActivity := now\<rparr>) sm, True)))"

definition Resolve_index :: "gostring \<Rightarrow> SessionManager \<Rightarrow> SessionManager" where
  "Resolve_index cid sm = sm\<lparr>smIndex := (smIndex sm)(cid := None)\<rparr>"

definition ResolveToolCall :: "nat \<Rightarrow> gostring \<Rightarrow> gostring \<Rightarrow> int \<Rightarrow> SessionManager \<Rightarrow> (SessionManager \<times> bool) outcome" where
  "ResolveToolCall a cid result now sm =
     bind_outcome (Resolve_pending a cid result now sm) (\<lambda>(sm', ok).
       Done (if ok then Resolve_index cid sm' else sm', ok))"

text \<open>The loop of \<open>ClaimPendingCall\<close>: the first position, from \<open>i\<close> on, of an unclaimed match.\<close>

fun find_claim :: "gostring \<Rightarrow> gostring \<Rightarrow> nat \<Rightarrow> PendingToolCall list \<Rightarrow> nat option" where
  "find_claim name args i [] = None"
| "find_claim name args i (p # ps) =
     (if \<not> pcClaimed p \<and> pcName p = name \<and> pcArguments p = args then Some i
      else find_claim name args (Suc i) ps)"

definition ClaimPendingCall :: "nat \<Rightarrow> gostring \<Rightarrow> gostring \<Rightarrow> int \<Rightarrow> SessionManager \<Rightarrow> SessionManager \<times> nat option" where
  "ClaimPendingCall a name canonArgs now sm =
     (case find_claim name canonArgs 0 (sePending (smHeap sm ! a)) of
        None \<Rightarrow> (sm, None)
      | Some i \<Rightarrow>
          (updSession a (\<lambda>s. (updPending i (\<lambda>p. p\<lparr>pcClaimed := True\<rparr>) s)\<lparr>seLastActivity := now\<rparr>) sm, Some i))"

text \<open>The MCP handler's \<open>result, ok := <-call.Resolver\<close>.\<close>

definition Await :: "nat \<Rightarrow> nat \<Rightarrow> SessionManager \<Rightarrow> (SessionManager \<times> gostring option) outcome" where
  "Await a i sm =
     bind_outcome (recv (pcResolver (sePending (smHeap sm ! a) ! i))) (\<lambda>(c, v).
       Done (updSession a (updPending i (\<lambda>p. p\<lparr>pcResolver := c\<rparr>)) sm, v))"

section \<open>Reaping\<close>

fun reap_pending :: "PendingToolCall list \<Rightarrow> PendingToolCall list outcome" where
  "reap_pending [] = Done []"
| "reap_pending (p # ps) =
     (if pcResolved p then bind_outcome (reap_pending ps) (\<lambda>qs. Done (p # qs))
      else
        bind_outcome (close_chan (pcResolver p)) (\<lambda>c.
          bind_outcome (reap_pending ps) (\<lambda>qs. Done (p\<lparr>pcResolved := True, pcResolver := c\<rparr> # qs))))"

definition reapSessionLocked :: "gostring \<Rightarrow> SessionManager \<Rightarrow> SessionManager outcome" where
  "reapSessionLocked sid sm =
     (case smSessions sm sid of
        None \<Rightarrow> Done sm
      | Some a \<Rightarrow>
          bind_outcome (reap_pending (sePending (smHeap sm ! a))) (\<lambda>ps.
            let sm' = updSession a (\<lambda>s. s\<lparr>seReaped := True, sePending := ps,
                                          seKills := (if seCmd s then Suc (seKills s) else seKills s)\<rparr>) sm
            in Done (sm'\<lparr>smSessions := (smSessions sm')(sid := None),
                         smIndex := map_drop (\<lambda>v. v = sid) (smIndex sm')\<rparr>)))"

definition ReapSession :: "gostring \<Rightarrow> SessionManager \<Rightarrow> SessionManager outcome" where
  "ReapSession = reapSessionLocked"

fun reap_all :: "gostring list \<Rightarrow> SessionManager \<Rightarrow> SessionManager outcome" where
  "reap_all [] sm = Done sm"
| "reap_all (sid # sids) sm = bind_outcome (reapSessionLocked sid sm) (reap_all sids)"

text \<open>The set of sessions a request supersedes, as a list, and \<open>ReapSuperseded\<close> over any order of it.\<close>

definition superseded :: "gostring list \<Rightarrow> nat option \<Rightarrow> SessionManager \<Rightarrow> gostring list" where
  "superseded ids keep sm =
     remdups (List.map_filter (\<lambda>cid.
       case smIndex sm cid of
         None \<Rightarrow> None
       | Some sid \<Rightarrow>
           (case keep of
              Some k \<Rightarrow> if sid = seID (smHeap sm ! k) then None else Some sid
            | None \<Rightarrow> Some sid)) ids)"

definition ReapSuperseded ::
  "(gostring list \<Rightarrow> gostring list) \<Rightarrow> gostring list \<Rightarrow> nat option \<Rightarrow> SessionManager \<Rightarrow> (SessionManager \<times> nat) outcome" where
  "ReapSuperseded order ids keep sm =
     bind_outcome (reap_all (order (superseded ids keep sm)) sm) (\<lambda>sm'.
       Done (sm', length (superseded ids keep sm)))"

definition milliseconds :: "int \<Rightarrow> int" where
  "milliseconds ms = wrap64 (ms * 1000000)"

definition expired :: "int \<Rightarrow> SessionManager \<Rightarrow> Session \<Rightarrow> bool" where
  "expired now sm s =
     (let hasPending = list_ex (\<lambda>p. \<not> pcResolved p) (sePending s);
          age = now - seLastActivity s
      in hasPending \<and> age > milliseconds (smToolTimeoutMS sm) \<or>
         \<not> hasPending \<and> age > milliseconds (smSessionIdleMS sm))"

text \<open>
  One round of the sweeper holds the table's lock throughout, but a session's own lock only while it
  looks at that session: \<open>sweep_check\<close> is that look. \<open>others sid\<close> is what the goroutines that need
  no more than a session's lock do between the check of \<open>sid\<close> and the reap, or the next check. The table's
  ids are visited in the order of the list.
\<close>

definition sweep_check :: "int \<Rightarrow> gostring \<Rightarrow> SessionManager \<Rightarrow> bool" where
  "sweep_check now sid sm = (case smSessions sm sid of None \<Rightarrow> False | Some a \<Rightarrow> expired now sm (smHeap sm ! a))"

fun sweep :: "(gostring \<Rightarrow> SessionManager \<Rightarrow> SessionManager) \<Rightarrow> int \<Rightarrow> gostring list \<Rightarrow> SessionManager \<Rightarrow> SessionManager outcome" where
  "sweep others now [] sm = Done sm"
| "sweep others now (sid # order) sm =
     (if sweep_check now sid sm then bind_outcome (reapSessionLocked sid (others sid sm)) (sweep others now order)
      else sweep others now order (others sid sm))"

definition sweep_interval :: "int \<Rightarrow> int \<Rightarrow> int" where
  "sweep_interval toolTimeoutMS sessionIdleMS =
     (let interval = (if sessionIdleMS < toolTimeoutMS then sessionIdleMS else toolTimeoutMS);
          interval = (if interval < 0 then - ((- interval) div 10) else interval div 10);
          interval = (if interval < 10 then 10 else interval)
      in if interval > 5000 then 5000 else interval)"

definition Close :: "gostring list \<Rightarrow> SessionManager \<Rightarrow> SessionManager outcome" where
  "Close ids sm = bind_outcome (reap_all ids sm) (\<lambda>sm'. Done (sm'\<lparr>smDone := True\<rparr>))"

text \<open>\<open>StartClaudeSession\<close> attaches the process it has started (\<open>claudecli.go\<close>, lines 369 to 371).\<close>

definition AttachCmd :: "nat \<Rightarrow> SessionManager \<Rightarrow> SessionManager" where
  "AttachCmd a sm = updSession a (\<lambda>s. s\<lparr>seCmd := True\<rparr>) sm"

end
