(* ===== verification/ClaudeCli.thy ===== *)
theory ClaudeCli
  imports Session
begin

text \<open>
  The two ways the gateway runs the \<open>claude\<close> CLI (\<open>internal/gateway/claudecli.go\<close>):
  \<open>RunClaude\<close>, which reads one run to its end, and the reader goroutine of a tool session, which
  turns the run's output into session events and registers the calls it announces.

  The CLI itself is outside: what it writes is an argument. So is \<open>json.Unmarshal\<close> of a line into
  a \<open>streamJsonLine\<close>. A \<open>float64\<close> cost is a value of a type variable.
\<close>

section \<open>Lines of output\<close>

record ClaudeCliError =
  ceMessage :: gostring
  ceStatusCode :: int

record content_block =
  cbType :: gostring
  cbText :: gostring
  cbID :: gostring
  cbName :: gostring
  cbInput :: gostring

record line_message =
  lmModel :: gostring
  lmContent :: "content_block list"

record line_delta =
  ldType :: gostring
  ldText :: gostring
  ldThinking :: gostring
  ldStopReason :: "gostring option"

record line_event =
  leType :: gostring
  leDelta :: "line_delta option"
  leUsage :: "Usage option"

record 'f streamJsonLine =
  slType :: gostring
  slSubtype :: gostring
  slIsError :: bool
  slResult :: gostring
  slSessionID :: gostring
  slStopReason :: "gostring option"
  slTotalCostUSD :: "'f option"
  slUsage :: "Usage option"
  slMessage :: "line_message option"
  slEvent :: "line_event option"

text \<open>
  \<open>bufio.Scanner\<close> on lines: a carriage return before the newline is dropped, a last line needs no
  newline, and a line that does not fit the buffer with its newline ends the scan, the rest of the
  output unread.
\<close>

definition dropCR :: "gostring \<Rightarrow> gostring" where
  "dropCR l = (if l \<noteq> [] \<and> last l = CHR 0x0D then butlast l else l)"

definition raw_lines :: "gostring \<Rightarrow> gostring list" where
  "raw_lines s = (let ls = Split s (CHR 0x0A) in if last ls = [] then butlast ls else ls)"

definition scan_lines :: "nat \<Rightarrow> gostring \<Rightarrow> gostring list" where
  "scan_lines maxTokenSize s = map dropCR (takeWhile (\<lambda>l. length l < maxTokenSize) (raw_lines s))"

definition MaxScanTokenSize :: nat where
  "MaxScanTokenSize = 64 * 1024"

definition sessionTokenSize :: nat where
  "sessionTokenSize = 4 * 1024 * 1024"

text \<open>Both readers skip empty lines and lines that do not parse.\<close>

definition parsed_lines :: "(gostring \<Rightarrow> 'f streamJsonLine option) \<Rightarrow> nat \<Rightarrow> gostring \<Rightarrow> 'f streamJsonLine list" where
  "parsed_lines parse m out =
     List.map_filter (\<lambda>l. if l = [] then None else parse l) (scan_lines m out)"

section \<open>One run\<close>

record RunClaudeOptions =
  roPrompt :: gostring
  roSystemPrompt :: gostring
  roModel :: gostring
  roEffort :: gostring
  roTimeoutMs :: int
  roPersist :: bool
  roResumeSessionID :: gostring
  roExposeReasoning :: bool

definition run_args :: "RunClaudeOptions \<Rightarrow> gostring list" where
  "run_args opts =
     [''-p'', ''--output-format'', ''stream-json'', ''--include-partial-messages'', ''--verbose'', ''--tools'', [],
      ''--disable-slash-commands'', ''--system-prompt'', roSystemPrompt opts] @
     (if roPersist opts then
        (if roResumeSessionID opts \<noteq> [] then [''--resume'', roResumeSessionID opts] else [])
      else [''--no-session-persistence'']) @
     (if roModel opts \<noteq> [] then [''--model'', roModel opts] else []) @
     (if roEffort opts \<noteq> [] then [''--effort'', roEffort opts] else [])"

text \<open>What \<open>OnTextDelta\<close> and \<open>OnReasoningDelta\<close> are called with, in order.\<close>

datatype callback = TextDelta gostring | ReasoningDelta gostring

record 'f run_state =
  rnStreamedText :: gostring
  rnReasoningText :: gostring
  rnResultText :: "gostring option"
  rnModel :: gostring
  rnStopReason :: "gostring option"
  rnCostUsd :: "'f option"
  rnUsage :: Usage
  rnCliSessionID :: gostring
  rnSawResult :: bool
  rnCallbacks :: "callback list"

definition zeroUsage :: Usage where
  "zeroUsage = \<lparr>usInputTokens = 0, usOutputTokens = 0, usCacheReadInputTokens = 0, usCacheCreationInputTokens = 0\<rparr>"

definition run_start :: "RunClaudeOptions \<Rightarrow> 'f run_state" where
  "run_start opts =
     \<lparr>rnStreamedText = [], rnReasoningText = [], rnResultText = None,
      rnModel = (if roModel opts = [] then ''unknown'' else roModel opts),
      rnStopReason = None, rnCostUsd = None, rnUsage = zeroUsage, rnCliSessionID = [], rnSawResult = False,
      rnCallbacks = []\<rparr>"

definition error_detail :: "'f streamJsonLine \<Rightarrow> gostring" where
  "error_detail l =
     (if slResult l \<noteq> [] then slResult l else if slSubtype l \<noteq> [] then slSubtype l else ''unknown error'')"

definition reported_error :: "'f streamJsonLine \<Rightarrow> ClaudeCliError" where
  "reported_error l = \<lparr>ceMessage = ''claude CLI reported an error: '' @ error_detail l, ceStatusCode = 502\<rparr>"

definition run_event :: "bool \<Rightarrow> line_event \<Rightarrow> 'f run_state \<Rightarrow> 'f run_state" where
  "run_event exposeReasoning ev st =
     (case leDelta ev of
        None \<Rightarrow> st
      | Some d \<Rightarrow>
          if leType ev = ''content_block_delta'' then
            (if ldType d = ''text_delta'' \<and> ldText d \<noteq> [] then
               st\<lparr>rnStreamedText := rnStreamedText st @ ldText d, rnCallbacks := rnCallbacks st @ [TextDelta (ldText d)]\<rparr>
             else if exposeReasoning \<and> ldType d = ''thinking_delta'' \<and> ldThinking d \<noteq> [] then
               st\<lparr>rnReasoningText := rnReasoningText st @ ldThinking d, rnCallbacks := rnCallbacks st @ [ReasoningDelta (ldThinking d)]\<rparr>
             else st)
          else if leType ev = ''message_delta'' \<and> ldStopReason d \<noteq> None then st\<lparr>rnStopReason := ldStopReason d\<rparr>
          else st)"

definition run_result :: "'f streamJsonLine \<Rightarrow> 'f run_state \<Rightarrow> 'f run_state" where
  "run_result l st =
     st\<lparr>rnSawResult := True,
        rnResultText := (if slResult l \<noteq> [] then Some (slResult l) else rnResultText st),
        rnStopReason := (if slStopReason l \<noteq> None then slStopReason l else rnStopReason st),
        rnCostUsd := (if slTotalCostUSD l \<noteq> None then slTotalCostUSD l else rnCostUsd st),
        rnUsage := (case slUsage l of Some u \<Rightarrow> u | None \<Rightarrow> rnUsage st)\<rparr>"

text \<open>The scan loop; an error result ends it.\<close>

fun run_loop :: "bool \<Rightarrow> 'f streamJsonLine list \<Rightarrow> 'f run_state \<Rightarrow> ClaudeCliError option \<times> 'f run_state" where
  "run_loop exposeReasoning [] st = (None, st)"
| "run_loop exposeReasoning (l # ls) st =
     (let st = (if slSessionID l \<noteq> [] then st\<lparr>rnCliSessionID := slSessionID l\<rparr> else st) in
      case (if slType l = ''stream_event'' then slEvent l else None) of
        Some ev \<Rightarrow> run_loop exposeReasoning ls (run_event exposeReasoning ev st)
      | None \<Rightarrow>
          (case (if slType l = ''assistant'' then slMessage l else None) of
             Some m \<Rightarrow>
               run_loop exposeReasoning ls (if lmModel m \<noteq> [] then st\<lparr>rnModel := lmModel m\<rparr> else st)
           | None \<Rightarrow>
               if slType l = ''result'' then
                 (if slIsError l then (Some (reported_error l), st\<lparr>rnSawResult := True\<rparr>)
                  else run_loop exposeReasoning ls (run_result l st))
               else run_loop exposeReasoning ls st))"

text \<open>What the run of a process amounts to: it could not be started, or its output, its exit code and
  whether the deadline had passed when it was over.\<close>

datatype start_step = StdoutPipe | StderrPipe | Spawn

datatype cli_run = NotStarted start_step gostring | CliOutput gostring int bool

definition start_error :: "start_step \<Rightarrow> gostring \<Rightarrow> ClaudeCliError" where
  "start_error step err =
     \<lparr>ceMessage = (case step of StdoutPipe \<Rightarrow> ''failed to create stdout pipe: ''
                   | StderrPipe \<Rightarrow> ''failed to create stderr pipe: ''
                   | Spawn \<Rightarrow> ''failed to spawn claude CLI: '') @ err,
      ceStatusCode = 500\<rparr>"

definition RunClaude ::
  "(gostring \<Rightarrow> 'f streamJsonLine option) \<Rightarrow> RunClaudeOptions \<Rightarrow> cli_run \<Rightarrow> (ClaudeCliError + 'f Completion) \<times> callback list" where
  "RunClaude parse opts run =
     (case run of
        NotStarted step err \<Rightarrow> (Inl (start_error step err), [])
      | CliOutput out exitCode deadline \<Rightarrow>
          (case run_loop (roExposeReasoning opts) (parsed_lines parse MaxScanTokenSize out) (run_start opts) of
             (Some err, st) \<Rightarrow> (Inl err, rnCallbacks st)
           | (None, st) \<Rightarrow>
               if deadline then
                 (Inl \<lparr>ceMessage = ''claude CLI timed out after '' @ string_of_int (roTimeoutMs opts) @ ''ms'', ceStatusCode = 504\<rparr>,
                  rnCallbacks st)
               else if \<not> rnSawResult st then
                 (Inl \<lparr>ceMessage = ''claude CLI exited without a result: exit code '' @ string_of_int exitCode, ceStatusCode = 502\<rparr>,
                  rnCallbacks st)
               else
                 (Inr \<lparr>cmText = (case rnResultText st of Some t \<Rightarrow> t | None \<Rightarrow> rnStreamedText st),
                       cmReasoningText = rnReasoningText st, cmModel = rnModel st, cmStopReason = rnStopReason st,
                       cmUsage = rnUsage st, cmCostUSD = rnCostUsd st, cmCLISessionID = rnCliSessionID st\<rparr>,
                  rnCallbacks st)))"

section \<open>A tool session's process\<close>

record SessionRunOptions =
  soPrompt :: gostring
  soSystemPrompt :: gostring
  soModel :: gostring
  soEffort :: gostring
  soMCPURL :: gostring
  soToolTimeoutMS :: int
  soExposeReasoning :: bool

definition mcpRelayServerName :: gostring where
  "mcpRelayServerName = ''relay''"

definition stripMCPToolPrefix :: "gostring \<Rightarrow> gostring" where
  "stripMCPToolPrefix name = TrimPrefix name (''mcp__'' @ mcpRelayServerName @ ''__'')"

definition session_args :: "SessionRunOptions \<Rightarrow> gostring list" where
  "session_args opts =
     [''-p'', ''--output-format'', ''stream-json'', ''--include-partial-messages'', ''--verbose'', ''--tools'', [],
      ''--no-session-persistence'', ''--disable-slash-commands'', ''--system-prompt'', soSystemPrompt opts,
      ''--strict-mcp-config'', ''--mcp-config'',
      ''{\"mcpServers\":{\"'' @ mcpRelayServerName @ ''\":{\"type\":\"http\",\"url\":\"'' @ soMCPURL opts @ ''\"}}}''] @
     (if soModel opts \<noteq> [] then [''--model'', soModel opts] else []) @
     (if soEffort opts \<noteq> [] then [''--effort'', soEffort opts] else [])"

definition session_env :: "SessionRunOptions \<Rightarrow> gostring list" where
  "session_env opts =
     (let mcpTimeout = wrap64 (soToolTimeoutMS opts + 60000)
      in [''MCP_TOOL_TIMEOUT='' @ string_of_int mcpTimeout, ''MCP_TIMEOUT='' @ string_of_int mcpTimeout])"

text \<open>
  The process is started with its arguments, the variables added to its environment and its standard
  input; \<open>start\<close> says which step of that fails, if one does. The reader goroutine is started with it.
\<close>

type_synonym starter = "gostring list \<Rightarrow> gostring list \<Rightarrow> gostring \<Rightarrow> (start_step \<times> gostring) option"

definition StartClaudeSession :: "starter \<Rightarrow> nat \<Rightarrow> SessionRunOptions \<Rightarrow> SessionManager \<Rightarrow> SessionManager \<times> ClaudeCliError option" where
  "StartClaudeSession start a opts sm =
     (case start (session_args opts) (session_env opts) (soPrompt opts) of
        Some (step, err) \<Rightarrow> (sm, Some (start_error step err))
      | None \<Rightarrow> (AttachCmd a sm, None))"

text \<open>The events of a session, one constructor per \<open>Type\<close> with the fields that type sets.\<close>

datatype 'f SessionEvent =
    EvText gostring
  | EvReasoning gostring
  | EvToolCalls gostring "announced list"
  | EvStop "gostring option" "Usage option"
  | EvRunEnd "gostring option" "gostring option" "'f option" "Usage option" "ClaudeCliError option"

definition announced_of :: "PendingToolCall \<Rightarrow> announced" where
  "announced_of p = \<lparr>anID = pcID p, anName = pcName p, anArguments = pcArguments p\<rparr>"

definition tool_uses :: "content_block list \<Rightarrow> ToolUseBlock list" where
  "tool_uses content =
     map (\<lambda>b. \<lparr>tuID = cbID b, tuName = stripMCPToolPrefix (cbName b), tuInput = cbInput b\<rparr>)
       (filter (\<lambda>b. cbType b = ''tool_use'') content)"

definition relay_event :: "bool \<Rightarrow> line_event \<Rightarrow> 'f SessionEvent list" where
  "relay_event exposeReasoning ev =
     (case leDelta ev of
        Some d \<Rightarrow>
          if leType ev = ''content_block_delta'' \<and> ldType d = ''text_delta'' \<and> ldText d \<noteq> [] then [EvText (ldText d)]
          else if exposeReasoning \<and> leType ev = ''content_block_delta'' \<and> ldType d = ''thinking_delta'' \<and> ldThinking d \<noteq> []
            then [EvReasoning (ldThinking d)]
          else if leType ev = ''message_delta'' then [EvStop (ldStopReason d) (leUsage ev)] else []
      | None \<Rightarrow> if leType ev = ''message_delta'' then [EvStop None (leUsage ev)] else [])"

definition relay_result :: "'f streamJsonLine \<Rightarrow> 'f SessionEvent" where
  "relay_result l =
     EvRunEnd (if slResult l \<noteq> [] then Some (slResult l) else None) (slStopReason l) (slTotalCostUSD l) (slUsage l)
       (if slIsError l then Some (reported_error l) else None)"

text \<open>
  One line in the reader of session \<open>a\<close>: the table after it, and the events sent. The ids minted
  for the announced calls are an argument.
\<close>

definition relay_line ::
  "(gostring \<Rightarrow> json option) \<Rightarrow> bool \<Rightarrow> nat \<Rightarrow> gostring list \<Rightarrow> int \<Rightarrow> 'f streamJsonLine \<Rightarrow> SessionManager \<Rightarrow>
   SessionManager \<times> 'f SessionEvent list" where
  "relay_line um exposeReasoning a ids now l sm =
     (if slType l = ''stream_event'' then
        (case slEvent l of None \<Rightarrow> (sm, []) | Some ev \<Rightarrow> (sm, relay_event exposeReasoning ev))
      else if slType l = ''assistant'' then
        (case slMessage l of
           None \<Rightarrow> (sm, [])
         | Some m \<Rightarrow>
             let uses = tool_uses (lmContent m);
                 (sm', calls) = (if uses \<noteq> [] then
                     (case RegisterAnnouncedCalls um a uses ids now sm of
                        (sm', None) \<Rightarrow> (sm', [])
                      | (sm', Some ps) \<Rightarrow> (sm', map announced_of ps))
                   else (sm, []))
             in (sm', if lmModel m \<noteq> [] \<or> calls \<noteq> [] then [EvToolCalls (lmModel m) calls] else []))
      else if slType l = ''result'' then (sm, [relay_result l])
      else (sm, []))"

text \<open>
  The reader's environment at a line: what the other goroutines have made of the table since the last
  one, the ids that would be minted and the clock.
\<close>

record reader_env =
  reMeanwhile :: "SessionManager \<Rightarrow> SessionManager"
  reIDs :: "gostring list"
  reNow :: int

fun relay_loop ::
  "(gostring \<Rightarrow> json option) \<Rightarrow> bool \<Rightarrow> nat \<Rightarrow> (nat \<Rightarrow> reader_env) \<Rightarrow> nat \<Rightarrow> 'f streamJsonLine list \<Rightarrow> SessionManager \<Rightarrow>
   SessionManager \<times> 'f SessionEvent list" where
  "relay_loop um exposeReasoning a env k [] sm = (sm, [])"
| "relay_loop um exposeReasoning a env k (l # ls) sm =
     (case relay_line um exposeReasoning a (reIDs (env k)) (reNow (env k)) l (reMeanwhile (env k) sm) of
        (sm', evs) \<Rightarrow>
          (case relay_loop um exposeReasoning a env (Suc k) ls sm' of (sm'', evs') \<Rightarrow> (sm'', evs @ evs')))"

definition noResult :: "'f SessionEvent" where
  "noResult = EvRunEnd None None None None (Some \<lparr>ceMessage = ''claude CLI exited without a result'', ceStatusCode = 502\<rparr>)"

definition relaySessionStream ::
  "(gostring \<Rightarrow> json option) \<Rightarrow> (gostring \<Rightarrow> 'f streamJsonLine option) \<Rightarrow> bool \<Rightarrow> nat \<Rightarrow> (nat \<Rightarrow> reader_env) \<Rightarrow> gostring \<Rightarrow>
   SessionManager \<Rightarrow> SessionManager \<times> 'f SessionEvent list" where
  "relaySessionStream um parse exposeReasoning a env out sm =
     (let ls = parsed_lines parse sessionTokenSize out;
          (sm', evs) = relay_loop um exposeReasoning a env 0 ls sm
      in (sm', if list_ex (\<lambda>l. slType l = ''result'') ls then evs else evs @ [noResult]))"

section \<open>What a run returns\<close>

definition is_result :: "'f streamJsonLine \<Rightarrow> bool" where
  "is_result l \<longleftrightarrow> slType l = ''result''"

definition line_callbacks :: "bool \<Rightarrow> 'f streamJsonLine \<Rightarrow> callback list" where
  "line_callbacks x l =
     (case (if slType l = ''stream_event'' then slEvent l else None) of
        None \<Rightarrow> []
      | Some ev \<Rightarrow>
          (case leDelta ev of
             None \<Rightarrow> []
           | Some d \<Rightarrow>
               if leType ev \<noteq> ''content_block_delta'' then []
               else if ldType d = ''text_delta'' \<and> ldText d \<noteq> [] then [TextDelta (ldText d)]
               else if x \<and> ldType d = ''thinking_delta'' \<and> ldThinking d \<noteq> [] then [ReasoningDelta (ldThinking d)]
               else []))"

fun cb_text :: "callback \<Rightarrow> gostring" where
  "cb_text (TextDelta t) = t"
| "cb_text (ReasoningDelta t) = []"

fun cb_reasoning :: "callback \<Rightarrow> gostring" where
  "cb_reasoning (TextDelta t) = []"
| "cb_reasoning (ReasoningDelta t) = t"

text \<open>The text of the last successful result line that has one.\<close>

definition final_text :: "'f streamJsonLine list \<Rightarrow> gostring option" where
  "final_text ls =
     (let ts = map slResult (filter (\<lambda>l. is_result l \<and> slResult l \<noteq> []) ls) in if ts = [] then None else Some (last ts))"

definition texts_ok :: "'f run_state \<Rightarrow> bool" where
  "texts_ok st \<longleftrightarrow>
     rnStreamedText st = concat (map cb_text (rnCallbacks st)) \<and>
     rnReasoningText st = concat (map cb_reasoning (rnCallbacks st))"

lemma run_event_cb:
  "slType l = ''stream_event'' \<Longrightarrow> slEvent l = Some ev \<Longrightarrow> texts_ok st \<Longrightarrow>
   texts_ok (run_event x ev st) \<and> rnCallbacks (run_event x ev st) = rnCallbacks st @ line_callbacks x l \<and>
   rnSawResult (run_event x ev st) = rnSawResult st \<and> rnResultText (run_event x ev st) = rnResultText st"
  by (auto simp: run_event_def line_callbacks_def texts_ok_def split: option.split)

lemma line_callbacks_other: "slType l \<noteq> ''stream_event'' \<or> slEvent l = None \<Longrightarrow> line_callbacks x l = []"
  by (auto simp: line_callbacks_def)

lemma final_text_Cons:
  "final_text (l # ls) =
     (case final_text ls of Some t \<Rightarrow> Some t
      | None \<Rightarrow> if is_result l \<and> slResult l \<noteq> [] then Some (slResult l) else None)"
  by (auto simp: final_text_def Let_def filter_empty_conv)

lemma run_loop_spec:
  "texts_ok st \<Longrightarrow> run_loop x ls st = (r, st') \<Longrightarrow>
     (r = None \<longleftrightarrow> \<not> list_ex (\<lambda>l. is_result l \<and> slIsError l) ls) \<and>
     (r = None \<longrightarrow> texts_ok st' \<and> rnCallbacks st' = rnCallbacks st @ concat (map (line_callbacks x) ls) \<and>
        (rnSawResult st' \<longleftrightarrow> rnSawResult st \<or> list_ex is_result ls) \<and>
        rnResultText st' = (case final_text ls of Some t \<Rightarrow> Some t | None \<Rightarrow> rnResultText st))"
proof (induction ls arbitrary: st)
  case Nil
  then show ?case by (simp add: final_text_def)
next
  case (Cons l ls)
  define st1 where "st1 = (if slSessionID l \<noteq> [] then st\<lparr>rnCliSessionID := slSessionID l\<rparr> else st)"
  have ok: "texts_ok st1" and frame: "rnCallbacks st1 = rnCallbacks st" "rnSawResult st1 = rnSawResult st" "rnResultText st1 = rnResultText st"
    using Cons.prems(1) by (simp_all add: texts_ok_def st1_def)
  note step = Cons.prems(2) [unfolded run_loop.simps Let_def, folded st1_def]
  consider (event) ev where "slType l = ''stream_event''" "slEvent l = Some ev"
    | (assistant) m where "slType l = ''assistant''" "slMessage l = Some m"
    | (result) "slType l = ''result''"
    | (other) "slType l \<noteq> ''result''" "slType l = ''stream_event'' \<longrightarrow> slEvent l = None" "slType l = ''assistant'' \<longrightarrow> slMessage l = None"
    by (cases "slEvent l"; cases "slMessage l") blast+
  then show ?case
  proof cases
    case event
    note e = run_event_cb [OF event ok, of x]
    from step event have "run_loop x ls (run_event x ev st1) = (r, st')" by simp
    from Cons.IH [OF _ this] e frame event show ?thesis
      by (simp add: is_result_def final_text_Cons split: option.split)
  next
    case assistant
    define st2 where "st2 = (if lmModel m \<noteq> [] then st1\<lparr>rnModel := lmModel m\<rparr> else st1)"
    have ok2: "texts_ok st2" and frame2: "rnCallbacks st2 = rnCallbacks st" "rnSawResult st2 = rnSawResult st" "rnResultText st2 = rnResultText st"
      using ok frame by (simp_all add: texts_ok_def st2_def)
    from step assistant have "run_loop x ls st2 = (r, st')" by (simp add: st2_def)
    from Cons.IH [OF ok2 this] frame2 assistant line_callbacks_other [of l x] show ?thesis
      by (simp add: is_result_def final_text_Cons split: option.split)
  next
    case result
    show ?thesis
    proof (cases "slIsError l")
      case True
      from step result True have "\<exists>y. r = Some y" by auto
      then obtain y where "r = Some y" ..
      with result True show ?thesis by (simp add: is_result_def)
    next
      case False
      define st2 where "st2 = run_result l st1"
      have ok2: "texts_ok st2" and frame2: "rnCallbacks st2 = rnCallbacks st" "rnSawResult st2"
          "rnResultText st2 = (if slResult l \<noteq> [] then Some (slResult l) else rnResultText st)"
        using ok frame by (simp_all add: texts_ok_def run_result_def st2_def)
      from step result False have "run_loop x ls st2 = (r, st')" by (simp add: st2_def)
      from Cons.IH [OF ok2 this] frame2 False result line_callbacks_other [of l x] show ?thesis
        by (simp add: is_result_def final_text_Cons split: option.split)
    qed
  next
    case other
    from step other have "run_loop x ls st1 = (r, st')" by (auto split: if_splits)
    from Cons.IH [OF ok this] frame other line_callbacks_other [of l x] show ?thesis
      by (auto simp: is_result_def final_text_Cons split: option.split)
  qed
qed

lemma texts_ok_start: "texts_ok (run_start opts)"
  by (simp add: texts_ok_def run_start_def)

lemma run_loop_error:
  "run_loop x ls st = (Some e, st') \<Longrightarrow> ceStatusCode e = 502"
proof (induction ls arbitrary: st)
  case (Cons l ls)
  then show ?case by (auto simp: reported_error_def Let_def split: option.splits if_splits)
qed simp


lemma RunClaude_deltas:
  assumes "RunClaude parse opts (CliOutput out exitCode deadline) = (Inr c, cbs)"
  shows "cbs = concat (map (line_callbacks (roExposeReasoning opts)) (parsed_lines parse MaxScanTokenSize out)) \<and>
         cmText c = (case final_text (parsed_lines parse MaxScanTokenSize out) of
                       Some t \<Rightarrow> t | None \<Rightarrow> concat (map cb_text cbs)) \<and>
         cmReasoningText c = concat (map cb_reasoning cbs)"
proof -
  let ?ls = "parsed_lines parse MaxScanTokenSize out"
  obtain r st where r: "run_loop (roExposeReasoning opts) ?ls (run_start opts) = (r, st)" by fastforce
  with assms have n: "r = None" and c: "cbs = rnCallbacks st" "cmReasoningText c = rnReasoningText st"
      "cmText c = (case rnResultText st of Some t \<Rightarrow> t | None \<Rightarrow> rnStreamedText st)"
    by (auto simp: RunClaude_def split: option.splits if_splits)
  from run_loop_spec [OF texts_ok_start r] n have
    "texts_ok st" "rnCallbacks st = concat (map (line_callbacks (roExposeReasoning opts)) ?ls)"
    "rnResultText st = final_text ?ls"
    by (simp_all add: run_start_def split: option.splits)
  with c show ?thesis by (simp add: texts_ok_def split: option.split)
qed

text \<open>C34: A successful run returns the text of its last result, or else what it streamed; and the deltas
  handed to the streaming callbacks, in order, are exactly the text and the reasoning of the stream.\<close>

theorem RunClaude_texts:
  assumes "RunClaude parse opts (CliOutput out exitCode deadline) = (Inr c, cbs)"
  shows "cbs = concat (map (line_callbacks (roExposeReasoning opts)) (parsed_lines parse MaxScanTokenSize out)) \<and>
         cmText c = (case final_text (parsed_lines parse MaxScanTokenSize out) of
                       Some t \<Rightarrow> t | None \<Rightarrow> concat (map cb_text cbs)) \<and>
         cmReasoningText c = concat (map cb_reasoning cbs)"
  using assms by (rule RunClaude_deltas)

section \<open>Long lines\<close>

lemma Split_no_sep_single: "sep \<notin> set s \<Longrightarrow> Split s sep = [s]"
  by (induction s) auto

lemma parsed_lines_cut:
  assumes "raw_lines out = pre @ l # post" "m \<le> length l"
  shows "parsed_lines parse m out =
     List.map_filter (\<lambda>l. if l = [] then None else parse l) (map dropCR (takeWhile (\<lambda>l. length l < m) pre))"
proof -
  have "takeWhile (\<lambda>l. length l < m) (pre @ l # post) = takeWhile (\<lambda>l. length l < m) pre"
    using assms(2) by (induction pre) auto
  with assms(1) show ?thesis by (simp add: parsed_lines_def scan_lines_def)
qed

text \<open>A completion longer than the default scanner buffer is lost: a result line of 64 KiB or more ends the
  scan unread, and a run with no earlier result is answered with status 502 although the CLI succeeded.\<close>

theorem long_result_lost:
  assumes "raw_lines out = pre @ l # post" and "64 * 1024 \<le> length l"
    and "list_all (\<lambda>k. \<forall>v. parse (dropCR k) = Some v \<longrightarrow> \<not> is_result v) pre"
  shows "fst (RunClaude parse opts (CliOutput out exitCode False)) =
    Inl \<lparr>ceMessage = ''claude CLI exited without a result: exit code '' @ string_of_int exitCode, ceStatusCode = 502\<rparr>"
proof -
  let ?ls = "parsed_lines parse MaxScanTokenSize out"
  have ls: "?ls = List.map_filter (\<lambda>l. if l = [] then None else parse l) (map dropCR (takeWhile (\<lambda>l. length l < MaxScanTokenSize) pre))"
    by (rule parsed_lines_cut [OF assms(1)]) (use assms(2) in \<open>simp add: MaxScanTokenSize_def\<close>)
  have none: "\<not> list_ex is_result ?ls"
    using assms(3) unfolding ls
    by (auto simp: list_ex_iff list_all_iff List.map_filter_def split: if_splits dest!: set_takeWhileD)
  obtain r st where r: "run_loop (roExposeReasoning opts) ?ls (run_start opts) = (r, st)" by fastforce
  from run_loop_spec [OF texts_ok_start r] none have "r = None" "\<not> rnSawResult st"
    by (auto simp: run_start_def list_ex_iff)
  with r show ?thesis by (simp add: RunClaude_def)
qed

abbreviation ok_line :: "gostring \<Rightarrow> nat streamJsonLine" where
  "ok_line t \<equiv> \<lparr>slType = ''result'', slSubtype = [], slIsError = False, slResult = t, slSessionID = [], slStopReason = None,
     slTotalCostUSD = None, slUsage = None, slMessage = None, slEvent = None\<rparr>"

abbreviation plain_options :: RunClaudeOptions where
  "plain_options \<equiv> \<lparr>roPrompt = [], roSystemPrompt = [], roModel = [], roEffort = [], roTimeoutMs = 0, roPersist = False,
     roResumeSessionID = [], roExposeReasoning = False\<rparr>"

lemma raw_lines_single: "s \<noteq> [] \<Longrightarrow> CHR 0x0A \<notin> set s \<Longrightarrow> raw_lines s = [s]"
  by (simp add: raw_lines_def Split_no_sep_single)


theorem RunClaude_texts_witness:
  "\<exists>c. RunClaude (\<lambda>t. Some (ok_line t)) plain_options (CliOutput ''hi'' 0 False) = (Inr c, []) \<and> cmText c = ''hi''"
proof -
  have ls: "parsed_lines (\<lambda>t. Some (ok_line t)) MaxScanTokenSize ''hi'' = [ok_line ''hi'']"
    by (simp add: parsed_lines_def scan_lines_def raw_lines_single MaxScanTokenSize_def dropCR_def List.map_filter_def)
  obtain c cbs where c: "RunClaude (\<lambda>t. Some (ok_line t)) plain_options (CliOutput ''hi'' 0 False) = (Inr c, cbs)"
    by (simp add: RunClaude_def ls Let_def run_result_def)
  from RunClaude_texts [OF c] have "cbs = []" "cmText c = ''hi''"
    by (simp_all add: ls line_callbacks_def final_text_def is_result_def)
  with c show ?thesis by blast
qed

theorem long_result_lost_witness:
  "isl (fst (RunClaude (\<lambda>t. Some (ok_line t)) plain_options (CliOutput (replicate 65536 CHR ''a'') 0 False)))"
proof -
  have "raw_lines (replicate 65536 CHR ''a'') = [] @ replicate 65536 CHR ''a'' # []"
    unfolding append_Nil by (rule raw_lines_single) (simp_all flip: length_0_conv)
  from long_result_lost [OF this, of "\<lambda>t. Some (ok_line t)" plain_options 0] show ?thesis by simp
qed

text \<open>The session id is read off the stream in either mode: a run that was not persisted reports one just the same.\<close>

lemma run_start_persist: "run_start (opts\<lparr>roPersist := persist\<rparr>) = run_start opts"
  by (simp add: run_start_def)

lemma session_id_any_mode: "RunClaude parse (opts\<lparr>roPersist := persist\<rparr>) run = RunClaude parse opts run"
  by (cases run) (auto simp: RunClaude_def run_start_persist split: prod.split option.split)

section \<open>A session's stream\<close>

lemma stripMCPToolPrefix_qualified: "stripMCPToolPrefix (''mcp__relay__'' @ n) = n"
  using TrimPrefix_append [of "''mcp__relay__''" n] by (simp add: stripMCPToolPrefix_def mcpRelayServerName_def)

fun is_run_end :: "'f SessionEvent \<Rightarrow> bool" where
  "is_run_end (EvRunEnd _ _ _ _ _) = True"
| "is_run_end _ = False"

lemma relay_line_end: "is_result l \<Longrightarrow> snd (relay_line um x a ids now l sm) = [relay_result l]"
  by (simp add: relay_line_def is_result_def)

lemma relay_loop_end:
  "list_ex is_result ls \<Longrightarrow> list_ex is_run_end (snd (relay_loop um x a env k ls sm))"
proof (induction ls arbitrary: k sm)
  case (Cons l ls)
  obtain sm' evs where l: "relay_line um x a (reIDs (env k)) (reNow (env k)) l (reMeanwhile (env k) sm) = (sm', evs)" by fastforce
  obtain sm'' evs' where r: "relay_loop um x a env (Suc k) ls sm' = (sm'', evs')" by fastforce
  show ?case
  proof (cases "is_result l")
    case True
    from relay_line_end [OF this, of um x a "reIDs (env k)" "reNow (env k)" "reMeanwhile (env k) sm"] l r show ?thesis
      by (simp add: relay_result_def)
  next
    case False
    with Cons.prems have "list_ex is_result ls" by simp
    from Cons.IH [OF this, of "Suc k" sm'] l r show ?thesis by simp
  qed
qed simp

text \<open>The stream of a tool session always ends with the end of its run being told: whatever the CLI writes,
  or if it dies without a word, a run_end event is sent before the events channel is closed.\<close>

lemma session_stream_ends:
  "list_ex is_run_end (snd (relaySessionStream um parse x a env out sm))"
proof (cases "list_ex is_result (parsed_lines parse sessionTokenSize out)")
  case True
  obtain sm' evs where r: "relay_loop um x a env 0 (parsed_lines parse sessionTokenSize out) sm = (sm', evs)" by fastforce
  from relay_loop_end [OF True, of um x a env 0 sm] r True show ?thesis
    by (simp add: relaySessionStream_def Let_def is_result_def [abs_def])
next
  case False
  then show ?thesis
    by (simp add: relaySessionStream_def Let_def is_result_def [abs_def] noResult_def split: prod.split)
qed

end
