(* ===== verification/Config.thy ===== *)
theory Config
  imports OpenAI
begin

text \<open>
  The gateway's configuration (\<open>Config\<close> in \<open>internal/gateway/server.go\<close>) and what it decides about a
  request before anything is run: the model and the reasoning effort.
\<close>

section \<open>Configuration\<close>

record Config =
  cfPort :: int
  cfHost :: gostring
  cfAPIKey :: gostring
  cfDefaultModel :: gostring
  cfModels :: "gostring list"
  cfClaudeBin :: gostring
  cfTimeoutMS :: int
  cfConcurrency :: int
  cfMaxSessions :: int
  cfToolTimeoutMS :: int
  cfSessionIdleMS :: int
  cfContextLengths :: "gostring \<rightharpoonup> int"
  cfDefaultContextLength :: int
  cfResumeSessions :: bool
  cfResumeMaxEntries :: int
  cfExposeReasoning :: bool
  cfUsageDB :: gostring

definition defaults :: "Config \<Rightarrow> Config" where
  "defaults c =
     c\<lparr>cfMaxSessions := (if cfMaxSessions c \<le> 0 then 16 else cfMaxSessions c),
       cfToolTimeoutMS := (if cfToolTimeoutMS c \<le> 0 then 120000 else cfToolTimeoutMS c),
       cfSessionIdleMS := (if cfSessionIdleMS c \<le> 0 then 600000 else cfSessionIdleMS c),
       cfResumeMaxEntries := (if cfResumeMaxEntries c \<le> 0 then 32 else cfResumeMaxEntries c)\<rparr>"

section \<open>Resolving what a request asks for\<close>

definition aliases :: "gostring list \<Rightarrow> gostring set" where
  "aliases models = {''sonnet'', ''opus'', ''haiku'', ''fable''} \<union> set (map ToLower models)"

definition resolveModel :: "Config \<Rightarrow> gostring \<Rightarrow> gostring" where
  "resolveModel c requested =
     (if requested = [] then cfDefaultModel c
      else
        let normalized = ToLower (TrimSpace requested)
        in if HasPrefix normalized ''claude'' then TrimSpace requested
           else if normalized \<in> aliases (cfModels c) then TrimSpace requested
           else cfDefaultModel c)"

definition validReasoningEfforts :: "gostring list" where
  "validReasoningEfforts = [''low'', ''medium'', ''high'', ''xhigh'', ''max'']"

definition resolveEffort :: "gostring \<Rightarrow> ReasoningSpec option \<Rightarrow> gostring" where
  "resolveEffort reasoningEffort reasoning =
     (if reasoningEffort \<noteq> [] then
        (if reasoningEffort \<in> set validReasoningEfforts then reasoningEffort else [])
      else
        (case reasoning of
           None \<Rightarrow> []
         | Some r \<Rightarrow>
             if rsEnabled r = Some False then []
             else if rsEffort r \<in> set validReasoningEfforts then rsEffort r else []))"

end
