(* ===== verification/Turn.thy ===== *)
theory Turn
  imports ClaudeCli Config
begin

text \<open>
  One turn of a tool-calling session, as the server drives it (\<open>internal/gateway/server.go\<close>): which
  session a request continues, the collection of session events until the turn ends, and the handler
  that starts or resumes a session and answers with tool calls, a final completion or an error.

  What a turn's \<open>select\<close> receives is a list of inputs, in the order it takes them: an event of the
  session, the closing of its channel, the turn's timer, the end of the request's context. A turn
  that needs an input the list does not have is \<open>Blocked\<close>.
\<close>

section \<open>Which session a request continues\<close>

record toolResultMessage =
  trToolCallID :: gostring
  trContent :: gostring

text \<open>The trailing tool messages, oldest first; content that is no text counts as empty.\<close>

definition tool_result :: "OpenAIMessage \<Rightarrow> toolResultMessage" where
  "tool_result m =
     \<lparr>trToolCallID = omToolCallID m, trContent = (case textOf m of Inl e \<Rightarrow> [] | Inr text \<Rightarrow> text)\<rparr>"

definition trailing_results :: "OpenAIMessage list \<Rightarrow> toolResultMessage list" where
  "trailing_results messages = rev (map tool_result (takeWhile (\<lambda>m. omRole m = ''tool'') (rev messages)))"

fun first_session :: "toolResultMessage list \<Rightarrow> SessionManager \<Rightarrow> nat option" where
  "first_session [] sm = None"
| "first_session (tr # trs) sm =
     (case GetSessionByToolCallID (trToolCallID tr) sm of Some a \<Rightarrow> Some a | None \<Rightarrow> first_session trs sm)"

definition findContinuationSession ::
  "OpenAIMessage list \<Rightarrow> SessionManager \<Rightarrow> nat option \<times> toolResultMessage list" where
  "findContinuationSession messages sm = (let results = trailing_results messages in (first_session results sm, results))"

definition message_ids :: "OpenAIMessage \<Rightarrow> gostring list" where
  "message_ids m =
     (if omToolCallID m \<noteq> [] then [omToolCallID m] else []) @ filter (\<lambda>cid. cid \<noteq> []) (map tcID (omToolCalls m))"

definition referencedToolCallIDs :: "OpenAIMessage list \<Rightarrow> gostring list" where
  "referencedToolCallIDs messages = concat (map message_ids messages)"

definition toolChoiceIsNone :: "json \<Rightarrow> bool" where
  "toolChoiceIsNone toolChoice = (case toolChoice of JString choice \<Rightarrow> choice = ''none'' | _ \<Rightarrow> False)"

section \<open>Collecting a turn\<close>

datatype 'f turn_input =
    TEvent "'f SessionEvent"
  | TStreamClosed
  | TTimeout
  | TCancelled

record 'f turnOutcome =
  toText :: gostring
  toReasoningText :: gostring
  toCalls :: "announced list"
  toModel :: gostring
  toStopReason :: "gostring option"
  toUsage :: Usage
  toCostUSD :: "'f option"
  toFinal :: bool
  toErr :: "ClaudeCliError option"

text \<open>The variables of \<open>collectTurn\<close>, with the calls it has made to \<open>onDelta\<close> and \<open>onReasoningDelta\<close>.\<close>

record 'f turn_state =
  tnOut :: "'f turnOutcome"
  tnSawToolStop :: bool
  tnDeltas :: "callback list"

definition turn_start :: "'f turn_state" where
  "turn_start =
     \<lparr>tnOut = \<lparr>toText = [], toReasoningText = [], toCalls = [], toModel = [], toStopReason = None, toUsage = zeroUsage,
               toCostUSD = None, toFinal = False, toErr = None\<rparr>,
      tnSawToolStop = False, tnDeltas = []\<rparr>"

definition turn_fail :: "gostring \<Rightarrow> int \<Rightarrow> 'f turn_state \<Rightarrow> 'f turn_state" where
  "turn_fail msg status st = st\<lparr>tnOut := (tnOut st)\<lparr>toErr := Some \<lparr>ceMessage = msg, ceStatusCode = status\<rparr>\<rparr>\<rparr>"

text \<open>One event: the state after it, and whether it ended the run.\<close>

fun turn_event :: "'f SessionEvent \<Rightarrow> 'f turn_state \<Rightarrow> 'f turn_state \<times> bool" where
  "turn_event (EvText t) st =
     (st\<lparr>tnOut := (tnOut st)\<lparr>toText := toText (tnOut st) @ t\<rparr>, tnDeltas := tnDeltas st @ [TextDelta t]\<rparr>, False)"
| "turn_event (EvReasoning t) st =
     (st\<lparr>tnOut := (tnOut st)\<lparr>toReasoningText := toReasoningText (tnOut st) @ t\<rparr>,
         tnDeltas := tnDeltas st @ [ReasoningDelta t]\<rparr>, False)"
| "turn_event (EvToolCalls model calls) st =
     (st\<lparr>tnOut := (tnOut st)\<lparr>toModel := (if model \<noteq> [] then model else toModel (tnOut st)),
                               toCalls := toCalls (tnOut st) @ calls\<rparr>\<rparr>, False)"
| "turn_event (EvStop stopReason usage) st =
     (st\<lparr>tnOut := (tnOut st)\<lparr>toStopReason := (if stopReason \<noteq> None then stopReason else toStopReason (tnOut st)),
                               toUsage := (case usage of None \<Rightarrow> toUsage (tnOut st) | Some u \<Rightarrow> u)\<rparr>,
         tnSawToolStop := (tnSawToolStop st \<or> stopReason = Some ''tool_use'')\<rparr>, False)"
| "turn_event (EvRunEnd resultText stopReason costUSD usage err) st =
     (case err of
        Some e \<Rightarrow> (st\<lparr>tnOut := (tnOut st)\<lparr>toFinal := True, toErr := Some e\<rparr>\<rparr>, True)
      | None \<Rightarrow>
          (st\<lparr>tnOut := (tnOut st)\<lparr>toFinal := True,
                toText := (case resultText of None \<Rightarrow> toText (tnOut st) | Some t \<Rightarrow> t),
                toStopReason := (if stopReason \<noteq> None then stopReason else toStopReason (tnOut st)),
                toUsage := (case usage of None \<Rightarrow> toUsage (tnOut st) | Some u \<Rightarrow> u),
                toCostUSD := costUSD\<rparr>\<rparr>, True))"

text \<open>The loop: the state at its return, and the inputs it has not taken.\<close>

fun collect :: "int \<Rightarrow> 'f turn_input list \<Rightarrow> 'f turn_state \<Rightarrow> ('f turn_state \<times> 'f turn_input list) outcome" where
  "collect timeoutMs [] st = Blocked"
| "collect timeoutMs (TStreamClosed # ins) st = Done (turn_fail ''claude CLI stream ended unexpectedly'' 502 st, ins)"
| "collect timeoutMs (TTimeout # ins) st =
     Done (turn_fail (''claude CLI turn timed out after '' @ string_of_int timeoutMs @ ''ms'') 504 st, ins)"
| "collect timeoutMs (TCancelled # ins) st = Done (turn_fail ''client disconnected'' 499 st, ins)"
| "collect timeoutMs (TEvent ev # ins) st =
     (case turn_event ev st of
        (st', ended) \<Rightarrow>
          if ended \<or> (tnSawToolStop st' \<and> toCalls (tnOut st') \<noteq> []) then Done (st', ins)
          else collect timeoutMs ins st')"

definition collectTurn :: "int \<Rightarrow> 'f turn_input list \<Rightarrow> ('f turn_state \<times> 'f turn_input list) outcome" where
  "collectTurn timeoutMs ins = collect timeoutMs ins turn_start"

section \<open>Responses\<close>

datatype 'f sse =
    SChunk "'f StreamChunk"
  | SError gostring
  | SDone

record ModelInfo =
  miID :: gostring
  miContextLength :: int
  miMaxModelLen :: int

datatype 'f body =
    BError gostring gostring
  | BCompletion "'f CompletionResponse"
  | BModels "ModelInfo list"
  | BOk
  | BText "gostring list"
  | BStatic gostring

text \<open>A whole body with its status, or an event stream, whose status is 200.\<close>

datatype 'f response =
    RBody int "'f body"
  | RStream "'f sse list"

text \<open>What the deferred function of the request log sees.\<close>

record 'f turn_log =
  tlStatus :: int
  tlPromptTokens :: int
  tlCompletionTokens :: int
  tlCostUSD :: "'f option"

definition sendError :: "int \<Rightarrow> gostring \<Rightarrow> gostring \<Rightarrow> 'f response" where
  "sendError status message errType = RBody status (BError message errType)"

definition prompt_tokens :: "Usage \<Rightarrow> int" where
  "prompt_tokens u = wrap64 (wrap64 (usInputTokens u + usCacheReadInputTokens u) + usCacheCreationInputTokens u)"

definition failed_log :: "int \<Rightarrow> 'f turn_log" where
  "failed_log status = \<lparr>tlStatus = status, tlPromptTokens = 0, tlCompletionTokens = 0, tlCostUSD = None\<rparr>"

definition usage_log :: "int \<Rightarrow> Usage \<Rightarrow> 'f option \<Rightarrow> 'f turn_log" where
  "usage_log status u cost =
     \<lparr>tlStatus = status, tlPromptTokens = prompt_tokens u, tlCompletionTokens = usOutputTokens u, tlCostUSD = cost\<rparr>"

definition role_chunk :: "gostring \<Rightarrow> int \<Rightarrow> gostring \<Rightarrow> 'f sse" where
  "role_chunk rid created model = SChunk (NewStreamChunk rid created model DRole None None)"

definition delta_chunk :: "gostring \<Rightarrow> int \<Rightarrow> gostring \<Rightarrow> callback \<Rightarrow> 'f sse" where
  "delta_chunk rid created model cb =
     SChunk (NewStreamChunk rid created model
       (case cb of TextDelta t \<Rightarrow> DContent t | ReasoningDelta t \<Rightarrow> DReasoning t) None None)"

section \<open>The handler of a tool turn\<close>

record 'f turn_env =
  teSessionID :: gostring
  teStart :: starter
  teNow :: int
  teStarting :: "SessionManager \<Rightarrow> SessionManager"
  teMeanwhile :: "SessionManager \<Rightarrow> SessionManager"
  teInputs :: "'f turn_input list"

text \<open>
  What the other goroutines (the sessions' readers, MCP handlers, the sweeper, other requests) make of the
  table: \<open>teStarting\<close> after the session was created and before its process is attached, \<open>teMeanwhile\<close>
  while the handler waits for its turn.
\<close>

fun resolve_all :: "nat \<Rightarrow> toolResultMessage list \<Rightarrow> int \<Rightarrow> SessionManager \<Rightarrow> SessionManager outcome" where
  "resolve_all a [] now sm = Done sm"
| "resolve_all a (tr # trs) now sm =
     bind_outcome (ResolveToolCall a (trToolCallID tr) (trContent tr) now sm) (\<lambda>(sm', ok). resolve_all a trs now sm')"

definition session_options :: "Config \<Rightarrow> gostring \<Rightarrow> gostring \<Rightarrow> gostring \<Rightarrow> gostring \<Rightarrow> gostring \<Rightarrow> gostring \<Rightarrow> SessionRunOptions" where
  "session_options c base model effort sid systemPrompt prompt =
     \<lparr>soPrompt = prompt, soSystemPrompt = systemPrompt, soModel = model, soEffort = effort, soMCPURL = base @ ''/mcp/'' @ sid,
      soToolTimeoutMS = cfToolTimeoutMS c, soExposeReasoning = cfExposeReasoning c\<rparr>"

text \<open>The first half: start a session or resume one. \<open>Inl\<close> is an answer, \<open>Inr\<close> the session to wait for.\<close>

definition open_turn ::
  "Config \<Rightarrow> gostring \<Rightarrow> gostring \<Rightarrow> gostring \<Rightarrow> 'f turn_env \<Rightarrow> ChatCompletionRequest \<Rightarrow> nat option \<Rightarrow> toolResultMessage list \<Rightarrow>
   SessionManager \<Rightarrow> (SessionManager \<times> ('f response \<times> 'f turn_log + nat)) outcome" where
  "open_turn c base model effort env req contSess toolResults sm =
     (case contSess of
        Some a \<Rightarrow> bind_outcome (resolve_all a toolResults (teNow env) sm) (\<lambda>sm'. Done (sm', Inr a))
      | None \<Rightarrow>
          (case BuildPrompt (ccMessages req) of
             Inl err \<Rightarrow> Done (sm, Inl (sendError 400 err ''invalid_request_error'', failed_log 400))
           | Inr (systemPrompt, prompt) \<Rightarrow>
               (case CreateSession (teSessionID env) (ccTools req) (teNow env) sm of
                  (sm', None) \<Rightarrow>
                    Done (sm', Inl (sendError 429 (''too many live tool sessions (max '' @ string_of_int (cfMaxSessions c) @ ''); retry later'')
                                      ''rate_limit_error'', failed_log 429))
                | (sm', Some a) \<Rightarrow>
                    (case StartClaudeSession (teStart env) a (session_options c base model effort (teSessionID env) systemPrompt prompt) (teStarting env sm') of
                       (sm', Some err) \<Rightarrow>
                         bind_outcome (ReapSession (teSessionID env) sm') (\<lambda>sm''.
                           Done (sm'', Inl (sendError (ceStatusCode err) (ceMessage err) ''api_error'', failed_log (ceStatusCode err))))
                     | (sm', None) \<Rightarrow> Done (sm', Inr a)))))"

definition outcome_completion :: "'f turnOutcome \<Rightarrow> 'f Completion" where
  "outcome_completion out =
     \<lparr>cmText = toText out, cmReasoningText = toReasoningText out, cmModel = toModel out, cmStopReason = toStopReason out,
      cmUsage = toUsage out, cmCostUSD = toCostUSD out, cmCLISessionID = []\<rparr>"

text \<open>\<open>session\<close> is the id of the session; a failed or final turn reaps it.\<close>

definition answer_turn ::
  "gostring \<Rightarrow> int \<Rightarrow> 'f turnOutcome \<Rightarrow> gostring \<Rightarrow> SessionManager \<Rightarrow> (SessionManager \<times> 'f response \<times> 'f turn_log) outcome" where
  "answer_turn rid created out sid sm =
     (case toErr out of
        Some err \<Rightarrow>
          bind_outcome (ReapSession sid sm) (\<lambda>sm'.
            Done (sm', sendError (ceStatusCode err) (ceMessage err) ''api_error'',
                  usage_log (ceStatusCode err) (toUsage out) (toCostUSD out)))
      | None \<Rightarrow>
          if toFinal out then
            bind_outcome (ReapSession sid sm) (\<lambda>sm'.
              Done (sm', RBody 200 (BCompletion (CompletionResponseWithCost rid created (outcome_completion out))),
                    usage_log 200 (toUsage out) (toCostUSD out)))
          else
            Done (sm, RBody 200 (BCompletion (NewToolCallResponse rid created (toModel out) (toText out) (toReasoningText out)
                        (toCalls out) (ToOpenAIUsage (toUsage out) (toCostUSD out)))),
                  usage_log 200 (toUsage out) (toCostUSD out)))"

definition stream_turn ::
  "gostring \<Rightarrow> int \<Rightarrow> gostring \<Rightarrow> callback list \<Rightarrow> 'f turnOutcome \<Rightarrow> gostring \<Rightarrow> SessionManager \<Rightarrow>
   (SessionManager \<times> 'f response \<times> 'f turn_log) outcome" where
  "stream_turn rid created model deltas out sid sm =
     (let opening = role_chunk rid created model # map (delta_chunk rid created model) deltas;
          usage = ToOpenAIUsage (toUsage out) (toCostUSD out);
          finishing = (\<lambda>finish. [SChunk (NewStreamChunk rid created (toModel out) DEmpty (Some finish) (Some usage)), SDone])
      in (case toErr out of
            Some err \<Rightarrow>
              bind_outcome (ReapSession sid sm) (\<lambda>sm'. Done (sm', RStream (opening @ [SError (ceMessage err)]), failed_log 200))
          | None \<Rightarrow>
              if toFinal out then
                bind_outcome (ReapSession sid sm) (\<lambda>sm'.
                  Done (sm', RStream (opening @ finishing (MapFinishReason (toStopReason out))),
                        usage_log 200 (toUsage out) (toCostUSD out)))
              else
                Done (sm, RStream (opening @
                        SChunk (NewStreamChunk rid created (toModel out)
                          (DToolCalls (enumerate 0 (ToolCallsFromPending (toCalls out)))) None None) # finishing ''tool_calls''),
                      usage_log 200 (toUsage out) (toCostUSD out))))"

definition handleToolTurn ::
  "Config \<Rightarrow> gostring \<Rightarrow> 'f turn_env \<Rightarrow> ChatCompletionRequest \<Rightarrow> nat option \<Rightarrow> toolResultMessage list \<Rightarrow> gostring \<Rightarrow> int \<Rightarrow>
   gostring \<Rightarrow> gostring \<Rightarrow> SessionManager \<Rightarrow> (SessionManager \<times> 'f response \<times> 'f turn_log) outcome" where
  "handleToolTurn c base env req contSess toolResults rid created model effort sm =
     bind_outcome (open_turn c base model effort env req contSess toolResults sm) (\<lambda>(sm', opened).
       case opened of
         Inl (resp, tlog) \<Rightarrow> Done (sm', resp, tlog)
       | Inr a \<Rightarrow>
           bind_outcome (collectTurn (cfTimeoutMS c) (teInputs env)) (\<lambda>(st, rest).
             let sm'' = teMeanwhile env sm';
                 sid = seID (smHeap sm'' ! a);
                 out = (if toModel (tnOut st) = [] then (tnOut st)\<lparr>toModel := model\<rparr> else tnOut st)
             in if ccStream req then stream_turn rid created model (tnDeltas st) out sid sm''
                else answer_turn rid created out sid sm''))"

section \<open>Where a turn ends\<close>

fun ev_calls :: "'f SessionEvent \<Rightarrow> announced list" where
  "ev_calls (EvToolCalls model calls) = calls"
| "ev_calls _ = []"

fun ev_delta :: "'f SessionEvent \<Rightarrow> callback list" where
  "ev_delta (EvText t) = [TextDelta t]"
| "ev_delta (EvReasoning t) = [ReasoningDelta t]"
| "ev_delta _ = []"

fun tool_stop :: "'f SessionEvent \<Rightarrow> bool" where
  "tool_stop (EvStop stopReason usage) = (stopReason = Some ''tool_use'')"
| "tool_stop _ = False"

text \<open>A turn is over when the run is, or when the model has stopped for tools and announced at least one call.\<close>

definition turn_over :: "'f SessionEvent list \<Rightarrow> bool" where
  "turn_over evs \<longleftrightarrow> list_ex is_run_end evs \<or> (list_ex tool_stop evs \<and> concat (map ev_calls evs) \<noteq> [])"

definition interrupt :: "'f turn_input \<Rightarrow> bool" where
  "interrupt x \<longleftrightarrow> x = TStreamClosed \<or> x = TTimeout \<or> x = TCancelled"

text \<open>The state of the loop after the events \<open>evs\<close>.\<close>

definition seen :: "'f SessionEvent list \<Rightarrow> 'f turn_state \<Rightarrow> bool" where
  "seen evs st \<longleftrightarrow>
     tnDeltas st = concat (map ev_delta evs) \<and> toCalls (tnOut st) = concat (map ev_calls evs) \<and>
     toReasoningText (tnOut st) = concat (map cb_reasoning (concat (map ev_delta evs))) \<and>
     tnSawToolStop st = list_ex tool_stop evs \<and> toFinal (tnOut st) = list_ex is_run_end evs \<and>
     (\<not> list_ex is_run_end evs \<longrightarrow> toErr (tnOut st) = None \<and> toText (tnOut st) = concat (map cb_text (concat (map ev_delta evs))))"

lemma seen_start: "seen [] turn_start"
  by (simp add: seen_def turn_start_def)

lemma turn_event_seen:
  "seen evs st \<Longrightarrow> \<not> list_ex is_run_end evs \<Longrightarrow>
   seen (evs @ [ev]) (fst (turn_event ev st)) \<and> snd (turn_event ev st) = is_run_end ev"
  by (cases ev) (auto simp: seen_def split: option.split)

definition ends_turn :: "'f turn_input list \<Rightarrow> 'f SessionEvent list \<Rightarrow> 'f turn_state \<Rightarrow> 'f turn_input list \<Rightarrow> bool" where
  "ends_turn ins evs st rest \<longleftrightarrow>
     (\<exists>x st0. interrupt x \<and> ins = map TEvent evs @ x # rest \<and> \<not> turn_over evs \<and> seen evs st0 \<and>
        (\<exists>msg status. st = turn_fail msg status st0)) \<or>
     (ins = map TEvent evs @ rest \<and> turn_over evs \<and> evs \<noteq> [] \<and> \<not> turn_over (butlast evs) \<and> seen evs st)"

lemma ends_interrupt:
  "interrupt x \<Longrightarrow> seen evs st \<Longrightarrow> \<not> turn_over evs \<Longrightarrow>
   \<exists>evs'. ends_turn (map TEvent evs @ x # ins) (evs @ evs') (turn_fail msg status st) ins"
  by (rule exI [of _ "[]"]) (simp add: ends_turn_def; blast)

lemma collect_ends:
  "collect ms ins st = Done (st', rest) \<Longrightarrow> seen evs0 st \<Longrightarrow> \<not> turn_over evs0 \<Longrightarrow>
   \<exists>evs. ends_turn (map TEvent evs0 @ ins) (evs0 @ evs) st' rest"
proof (induction ms ins st arbitrary: evs0 rule: collect.induct)
  case (5 ms ev ins st)
  obtain st1 b where e: "turn_event ev st = (st1, b)" by fastforce
  from "5.prems"(3) have "\<not> list_ex is_run_end evs0" by (auto simp: turn_over_def)
  from turn_event_seen [OF "5.prems"(2) this, of ev] e
  have s: "seen (evs0 @ [ev]) st1" and b: "b = is_run_end ev" by simp_all
  have over: "turn_over (evs0 @ [ev]) \<longleftrightarrow> b \<or> (tnSawToolStop st1 \<and> toCalls (tnOut st1) \<noteq> [])"
    using s b "5.prems"(3) unfolding seen_def turn_over_def by (simp only: list_ex_append) auto
  show ?case
  proof (cases "turn_over (evs0 @ [ev])")
    case True
    with over e "5.prems"(1) have "st' = st1" "rest = ins" by auto
    with True s "5.prems"(3) show ?thesis unfolding ends_turn_def by (intro exI [of _ "[ev]"]) simp
  next
    case False
    with over e "5.prems"(1) have "collect ms ins st1 = Done (st', rest)" by (simp split: if_splits)
    from over False have "\<not> (b \<or> (tnSawToolStop st1 \<and> toCalls (tnOut st1) \<noteq> []))" by simp
    from "5.IH" [OF e [symmetric] this \<open>collect ms ins st1 = Done (st', rest)\<close> s False]
    obtain evs where "ends_turn (map TEvent (evs0 @ [ev]) @ ins) ((evs0 @ [ev]) @ evs) st' rest" by auto
    then show ?thesis by (intro exI [of _ "ev # evs"]) simp
  qed
qed (auto simp: interrupt_def intro!: ends_interrupt)

lemma collectTurn_ends: "collectTurn ms ins = Done (st, rest) \<Longrightarrow> \<exists>evs. ends_turn ins evs st rest"
  using collect_ends [of ms ins turn_start st rest "[]"] seen_start by (auto simp: collectTurn_def turn_over_def)

lemma collectTurn_cut:
  assumes "collectTurn ms ins = Done (st, rest)"
  shows "\<exists>evs.
    tnDeltas st = concat (map ev_delta evs) \<and> toCalls (tnOut st) = concat (map ev_calls evs) \<and>
    toReasoningText (tnOut st) = concat (map cb_reasoning (tnDeltas st)) \<and> toFinal (tnOut st) = list_ex is_run_end evs \<and>
    ((\<exists>x. interrupt x \<and> ins = map TEvent evs @ x # rest \<and> \<not> turn_over evs \<and> toErr (tnOut st) \<noteq> None) \<or>
     (ins = map TEvent evs @ rest \<and> turn_over evs \<and> \<not> turn_over (butlast evs) \<and>
      (toErr (tnOut st) \<noteq> None \<longrightarrow> list_ex is_run_end evs)))"
proof -
  from collectTurn_ends [OF assms] obtain evs where e: "ends_turn ins evs st rest" by blast
  show ?thesis
    by (rule exI [of _ evs]) (use e in \<open>auto simp: ends_turn_def seen_def turn_fail_def\<close>)
qed

text \<open>C21: A turn takes the shortest run of session events in which the CLI ended or both stopped for tools and
  announced a call, unless it is interrupted first; its calls, reasoning and deltas are exactly those of
  these events, and what follows them is left for the next turn.\<close>

theorem turn_boundary:
  assumes "collectTurn ms ins = Done (st, rest)"
  shows "\<exists>evs.
    tnDeltas st = concat (map ev_delta evs) \<and> toCalls (tnOut st) = concat (map ev_calls evs) \<and>
    toReasoningText (tnOut st) = concat (map cb_reasoning (tnDeltas st)) \<and> toFinal (tnOut st) = list_ex is_run_end evs \<and>
    ((\<exists>x. interrupt x \<and> ins = map TEvent evs @ x # rest \<and> \<not> turn_over evs \<and> toErr (tnOut st) \<noteq> None) \<or>
     (ins = map TEvent evs @ rest \<and> turn_over evs \<and> \<not> turn_over (butlast evs) \<and>
      (toErr (tnOut st) \<noteq> None \<longrightarrow> list_ex is_run_end evs)))"
  by (rule collectTurn_cut [OF assms])

abbreviation demo_inputs :: "nat turn_input list" where
  "demo_inputs \<equiv> [TEvent (EvText ''t''), TEvent (EvStop (Some ''tool_use'') None),
     TEvent (EvToolCalls [] [\<lparr>anID = ''c'', anName = ''f'', anArguments = []\<rparr>]), TEvent (EvText ''u'')]"

theorem turn_boundary_witness:
  "\<exists>st evs. collectTurn 5 demo_inputs = Done (st, [TEvent (EvText ''u'')]) \<and>
     tnDeltas st = [TextDelta ''t''] \<and> tnDeltas st = concat (map ev_delta (evs :: nat SessionEvent list)) \<and> length evs = 3"
proof -
  obtain st where r: "collectTurn 5 demo_inputs = Done (st, [TEvent (EvText ''u'')])" and d: "tnDeltas st = [TextDelta ''t'']"
    and e: "toErr (tnOut st) = None"
    by (simp add: collectTurn_def turn_start_def)
  from turn_boundary [OF r] d e obtain evs where
    "tnDeltas st = concat (map ev_delta evs)" "demo_inputs = map TEvent evs @ [TEvent (EvText ''u'')]"
    by blast
  from arg_cong [OF this(2), of length] have "length evs = 3" by simp
  show ?thesis
    by (intro exI conjI) (rule r, rule d, rule \<open>tnDeltas st = concat (map ev_delta evs)\<close>, rule \<open>length evs = 3\<close>)
qed

section \<open>Turn after turn\<close>

lemma collectTurn_rest: "collectTurn ms ins = Done (st, rest) \<Longrightarrow> length rest < length ins"
  by (drule collectTurn_ends) (auto simp: ends_turn_def)

lemma collect_returns:
  "list_ex is_run_end evs \<Longrightarrow> \<exists>r. collect ms (map TEvent evs @ tail) st = Done r"
proof (induction evs arbitrary: st)
  case (Cons ev evs)
  obtain st1 b where e: "turn_event ev st = (st1, b)" by fastforce
  then have b: "is_run_end ev \<Longrightarrow> b" by (cases ev) (auto split: option.splits)
  show ?case
  proof (cases "b \<or> (tnSawToolStop st1 \<and> toCalls (tnOut st1) \<noteq> [])")
    case True
    with e show ?thesis by auto
  next
    case False
    with Cons b have "\<exists>r. collect ms (map TEvent evs @ tail) st1 = Done r" by auto
    with e False show ?thesis by auto
  qed
qed simp

lemma collectTurn_returns: "list_ex is_run_end evs \<Longrightarrow> \<exists>st rest. collectTurn ms (map TEvent evs @ tail) = Done (st, rest)"
  using collect_returns [of evs ms tail turn_start] by (auto simp: collectTurn_def)

text \<open>The turns of one run, one request after the other, until one is final, fails or blocks.\<close>

function turns :: "int \<Rightarrow> 'f turn_input list \<Rightarrow> 'f turnOutcome list" where
  "turns ms ins =
     (case collectTurn ms ins of
        Done (st, rest) \<Rightarrow>
          if toFinal (tnOut st) \<or> toErr (tnOut st) \<noteq> None then [tnOut st] else tnOut st # turns ms rest
      | _ \<Rightarrow> [])"
  by pat_completeness auto
termination
  by (relation "measure (\<lambda>(ms, ins). length ins)") (auto simp: collectTurn_rest)

declare turns.simps [simp del]

text \<open>Without an interruption a turn takes a prefix of the events, up to the end of the run at most, and leaves the rest.\<close>

lemma collectTurn_prefix:
  assumes "collectTurn ms (map TEvent evs) = Done (st, rest)"
  obtains us vs where "evs = us @ vs" "rest = map TEvent vs" "toCalls (tnOut st) = concat (map ev_calls us)"
    "toFinal (tnOut st) = list_ex is_run_end us" "toErr (tnOut st) \<noteq> None \<Longrightarrow> list_ex is_run_end us"
    "\<not> list_ex is_run_end (butlast us)"
proof -
  from collectTurn_cut [OF assms] obtain us where
    calls: "toCalls (tnOut st) = concat (map ev_calls us)" and final: "toFinal (tnOut st) = list_ex is_run_end us" and
    cut: "(\<exists>x. interrupt x \<and> map TEvent evs = map TEvent us @ x # rest) \<or>
       (map TEvent evs = map TEvent us @ rest \<and> \<not> turn_over (butlast us) \<and> (toErr (tnOut st) \<noteq> None \<longrightarrow> list_ex is_run_end us))"
    by blast
  have "\<not> interrupt x" if "map TEvent evs = map TEvent us @ x # rest" for x
  proof -
    have "x \<in> set (map TEvent evs)" unfolding that by simp
    then show ?thesis by (auto simp: interrupt_def)
  qed
  with cut have ins: "map TEvent evs = map TEvent us @ rest" and err: "toErr (tnOut st) \<noteq> None \<longrightarrow> list_ex is_run_end us"
    and first: "\<not> list_ex is_run_end (butlast us)"
    by (auto simp: turn_over_def)
  from ins [unfolded map_eq_append_conv] obtain us' vs where
    "evs = us' @ vs" "map TEvent us = map TEvent us'" "rest = map TEvent vs" by blast
  moreover from this(2) have "us' = us" by (simp add: inj_map_eq_map inj_def)
  ultimately show ?thesis using that calls final err first by blast
qed

text \<open>Whatever way the events of a run are cut into turns, each call of them is in exactly one turn, in order.\<close>

lemma turns_calls:
  "list_ex is_run_end evs \<Longrightarrow>
   concat (map toCalls (turns ms (map TEvent evs))) = concat (map ev_calls (takeWhile (\<lambda>ev. \<not> is_run_end ev) evs))"
proof (induction "length evs" arbitrary: evs rule: less_induct)
  case less
  from collectTurn_returns [OF less.prems, of ms "[]"] obtain st rest where
    d: "collectTurn ms (map TEvent evs) = Done (st, rest)" by auto
  from collectTurn_prefix [OF d] obtain us vs where split: "evs = us @ vs" and rest: "rest = map TEvent vs"
    and calls: "toCalls (tnOut st) = concat (map ev_calls us)" and final: "toFinal (tnOut st) = list_ex is_run_end us"
    and err: "toErr (tnOut st) \<noteq> None \<Longrightarrow> list_ex is_run_end us" and first: "\<not> list_ex is_run_end (butlast us)" by blast
  show ?case
  proof (cases "list_ex is_run_end us")
    case True
    define pre fin where "pre = butlast us" and "fin = last us"
    from True have "us \<noteq> []" by auto
    then have us: "us = pre @ [fin]" by (simp add: pre_def fin_def)
    have pre: "\<not> list_ex is_run_end pre" using first by (simp add: pre_def)
    with True us have fin: "is_run_end fin" by simp
    then have "ev_calls fin = []" by (cases fin) auto
    with us have c: "concat (map ev_calls us) = concat (map ev_calls pre)" by simp
    from us split pre fin have "takeWhile (\<lambda>ev. \<not> is_run_end ev) evs = pre"
      by (simp add: takeWhile_append list_ex_iff)
    with c calls final True d show ?thesis by (subst turns.simps) simp
  next
    case False
    with less.prems split have end_vs: "list_ex is_run_end vs" by simp
    from collectTurn_rest [OF d] rest have "length vs < length evs" by simp
    note ih = less.hyps [OF this end_vs]
    from False split have "takeWhile (\<lambda>ev. \<not> is_run_end ev) evs = us @ takeWhile (\<lambda>ev. \<not> is_run_end ev) vs"
      by (simp add: takeWhile_append list_ex_iff)
    with d final False err rest calls ih show ?thesis by (subst turns.simps) auto
  qed
qed

end
