(* ===== verification/Mcp.thy ===== *)
theory Mcp
  imports Session
begin

text \<open>
  The MCP endpoint the spawned CLI talks to (\<open>internal/gateway/mcpserver.go\<close>): JSON-RPC dispatch, the
  list of tools, and a tool call, which claims an announced call, waits for its result and answers.
  Decoding a body or the parameters of a call is \<open>json.Unmarshal\<close>, a parameter. Between two steps
  of a handler the other goroutines run: what they make of the session table is an argument.
\<close>

section \<open>Requests and replies\<close>

record JSONRPCRequest =
  jrJsonrpc :: gostring
  jrMethod :: gostring
  jrParams :: gostring
  jrID :: json

record ToolsCallParams =
  tpName :: gostring
  tpArguments :: gostring

text \<open>
  \<open>McpHttp\<close> is a plain HTTP error, \<open>McpAccepted\<close> the empty 202 of a notification; the two others are
  JSON-RPC responses with status 200.
\<close>

datatype mcp_reply =
    McpHttp int gostring
  | McpAccepted
  | McpResult json json
  | McpError int gostring json

definition initialize_result :: json where
  "initialize_result =
     JObject [(''protocolVersion'', JString ''2025-03-26''),
       (''capabilities'', JObject [(''tools'', JObject [])]),
       (''serverInfo'', JObject [(''name'', JString ''valyrium-relay''), (''version'', JString ''1.0.0'')])]"

definition tool_entry :: "ToolSchema \<Rightarrow> json" where
  "tool_entry tool =
     JObject [(''name'', JString (fsName (tsFunction tool))), (''description'', JString (fsDescription (tsFunction tool))),
       (''inputSchema'', fsParameters (tsFunction tool))]"

definition tools_result :: "ToolSchema list \<Rightarrow> json" where
  "tools_result tools = JObject [(''tools'', JArray (map tool_entry tools))]"

definition text_result :: "gostring \<Rightarrow> json" where
  "text_result result = JObject [(''content'', JArray [JObject [(''type'', JString ''text''), (''text'', JString result)]])]"

definition handleMCPInitialize :: "json \<Rightarrow> mcp_reply" where
  "handleMCPInitialize rid = McpResult initialize_result rid"

definition handleMCPToolsList :: "json \<Rightarrow> nat \<Rightarrow> SessionManager \<Rightarrow> mcp_reply" where
  "handleMCPToolsList rid a sm = McpResult (tools_result (seTools (smHeap sm ! a))) rid"

section \<open>A tool call\<close>

text \<open>
  The polling loop: one attempt per entry of \<open>polls\<close>, each with what the others have made of the table
  before it and the time; no entry is left when the deadline has passed.
\<close>

fun poll_claim ::
  "nat \<Rightarrow> gostring \<Rightarrow> gostring \<Rightarrow> ((SessionManager \<Rightarrow> SessionManager) \<times> int) list \<Rightarrow> SessionManager \<Rightarrow> SessionManager \<times> nat option" where
  "poll_claim a name canonArgs [] sm = (sm, None)"
| "poll_claim a name canonArgs ((others, now) # polls) sm =
     (case ClaimPendingCall a name canonArgs now (others sm) of
        (sm', Some i) \<Rightarrow> (sm', Some i)
      | (sm', None) \<Rightarrow> poll_claim a name canonArgs polls sm')"

text \<open>\<open>%q\<close> is a parameter.\<close>

definition not_announced :: "(gostring \<Rightarrow> gostring) \<Rightarrow> gostring \<Rightarrow> gostring" where
  "not_announced q name = ''tool call '' @ q name @ '' was never announced on this session''"

text \<open>The parked half: the receive on the resolver and the reply.\<close>

definition await_result :: "json \<Rightarrow> nat \<Rightarrow> nat \<Rightarrow> SessionManager \<Rightarrow> (SessionManager \<times> mcp_reply) outcome" where
  "await_result rid a i sm =
     bind_outcome (Await a i sm) (\<lambda>(sm', v).
       Done (sm', (case v of
          None \<Rightarrow> McpError (- 32600) ''session reaped before a tool result arrived'' rid
        | Some result \<Rightarrow> McpResult (text_result result) rid)))"

record mcp_env =
  meParams :: "gostring \<Rightarrow> ToolsCallParams option"
  meUnmarshal :: "gostring \<Rightarrow> json option"
  meQuote :: "gostring \<Rightarrow> gostring"
  mePolls :: "((SessionManager \<Rightarrow> SessionManager) \<times> int) list"
  meWhileParked :: "SessionManager \<Rightarrow> SessionManager"

definition handleMCPToolsCall ::
  "mcp_env \<Rightarrow> gostring \<Rightarrow> json \<Rightarrow> nat \<Rightarrow> SessionManager \<Rightarrow> (SessionManager \<times> mcp_reply) outcome" where
  "handleMCPToolsCall env params rid a sm =
     (case meParams env params of
        None \<Rightarrow> Done (sm, McpError (- 32602) ''invalid params'' rid)
      | Some p \<Rightarrow>
          (case poll_claim a (tpName p) (canonicalJSON (meUnmarshal env) (tpArguments p)) (mePolls env) sm of
             (sm', None) \<Rightarrow> Done (sm', McpError (- 32600) (not_announced (meQuote env) (tpName p)) rid)
           | (sm', Some i) \<Rightarrow> await_result rid a i (meWhileParked env sm')))"

section \<open>Dispatch\<close>

text \<open>\<open>body\<close>: None when reading it failed. \<open>decode\<close>: the body as a request.\<close>

definition handleMCPEndpoint ::
  "mcp_env \<Rightarrow> (gostring \<Rightarrow> JSONRPCRequest option) \<Rightarrow> gostring \<Rightarrow> gostring option \<Rightarrow> gostring \<Rightarrow> SessionManager \<Rightarrow>
   (SessionManager \<times> mcp_reply) outcome" where
  "handleMCPEndpoint env decode meth body sessionID sm =
     (if meth \<noteq> ''POST'' then Done (sm, McpHttp 404 ''method not allowed'')
      else
        (case body of
           None \<Rightarrow> Done (sm, McpHttp 400 ''failed to read body'')
         | Some b \<Rightarrow>
             (case decode b of
                None \<Rightarrow> Done (sm, McpHttp 400 ''invalid JSON-RPC request'')
              | Some req \<Rightarrow>
                  if jrJsonrpc req \<noteq> ''2.0'' then Done (sm, McpHttp 400 ''unsupported jsonrpc version'')
                  else if jrID req = JNull then Done (sm, McpAccepted)
                  else
                    (case GetSession sessionID sm of
                       None \<Rightarrow> Done (sm, McpError (- 32600) ''session not found'' (jrID req))
                     | Some a \<Rightarrow>
                         if jrMethod req = ''initialize'' then Done (sm, handleMCPInitialize (jrID req))
                         else if jrMethod req = ''tools/list'' then Done (sm, handleMCPToolsList (jrID req) a sm)
                         else if jrMethod req = ''tools/call'' then handleMCPToolsCall env (jrParams req) (jrID req) a sm
                         else Done (sm, McpError (- 32601) (''method not found: '' @ jrMethod req) (jrID req))))))"

section \<open>Facts\<close>

text \<open>Only a tool call on a live session touches the table.\<close>

lemma mcp_read_only:
  "handleMCPEndpoint env decode meth body sid sm = Done (sm', rep) \<Longrightarrow>
   sm' = sm \<or> (\<exists>a. smSessions sm sid = Some a)"
  by (auto simp: handleMCPEndpoint_def GetSession_def split: if_splits option.splits)

text \<open>A JSON-RPC request is answered under its own id, a notification not at all.\<close>

fun reply_id :: "mcp_reply \<Rightarrow> json option" where
  "reply_id (McpResult r rid) = Some rid"
| "reply_id (McpError c m rid) = Some rid"
| "reply_id _ = None"

lemma tools_call_id: "handleMCPToolsCall env params rid a sm = Done (sm', rep) \<Longrightarrow> reply_id rep = Some rid"
  by (auto simp: handleMCPToolsCall_def await_result_def outcome_simps split: option.splits prod.splits)

lemma endpoint_id:
  "handleMCPEndpoint env decode ''POST'' (Some b) sid sm = Done (sm', rep) \<Longrightarrow> decode b = Some req \<Longrightarrow>
   jrJsonrpc req = ''2.0'' \<Longrightarrow> reply_id rep = (if jrID req = JNull then None else Some (jrID req))"
  by (auto simp: handleMCPEndpoint_def handleMCPInitialize_def handleMCPToolsList_def split: if_splits option.splits
      dest: tools_call_id)

end
