(* ===== verification/Formats.thy ===== *)
theory Formats
  imports Session
begin

text \<open>
  Two small routines of the gateway: structured output by prompting
  (\<open>internal/gateway/responseformat.go\<close>) and the context window of a model id
  (\<open>internal/gateway/contextlength.go\<close>). An error is its text; \<open>json.Unmarshal\<close> is a parameter.
\<close>

section \<open>Structured output\<close>

definition jsonObjectInstruction :: gostring where
  "jsonObjectInstruction =
     ''You must respond with a single valid JSON object and nothing else: no prose, no markdown code fences, '' @
     ''no commentary before or after it.''"

definition jsonSchemaInstruction :: gostring where
  "jsonSchemaInstruction =
     ''You must respond with a single valid JSON value and nothing else (no prose, no markdown code fences, '' @
     ''no commentary) that strictly conforms to this JSON schema:'' @ [CHR 0x0A]"

definition responseFormatInstruction :: "ResponseFormat option \<Rightarrow> gostring" where
  "responseFormatInstruction rf =
     (case rf of
        None \<Rightarrow> []
      | Some f \<Rightarrow>
          if rfType f = ''json_object'' then jsonObjectInstruction
          else if rfType f = ''json_schema'' then
            (case rfJSONSchema f of
               None \<Rightarrow> jsonObjectInstruction
             | Some spec \<Rightarrow>
                 (case jsSchema spec of
                    None \<Rightarrow> jsonObjectInstruction
                  | Some schema \<Rightarrow> jsonSchemaInstruction @ Marshal (sortKeys schema)))
          else [])"

definition requiresJSON :: "ResponseFormat option \<Rightarrow> bool" where
  "requiresJSON rf = (case rf of None \<Rightarrow> False | Some f \<Rightarrow> rfType f = ''json_object'' \<or> rfType f = ''json_schema'')"

definition isJObject :: "json \<Rightarrow> bool" where
  "isJObject v = (case v of JObject _ \<Rightarrow> True | _ \<Rightarrow> False)"

text \<open>None is the nil error.\<close>

definition validateJSONResponse :: "(gostring \<Rightarrow> gostring + json) \<Rightarrow> gostring \<Rightarrow> ResponseFormat option \<Rightarrow> gostring option" where
  "validateJSONResponse unmarshal text rf =
     (case unmarshal text of
        Inl err \<Rightarrow> Some (''response is not valid JSON: '' @ err)
      | Inr v \<Rightarrow>
          if (case rf of None \<Rightarrow> False | Some f \<Rightarrow> rfType f = ''json_object'') \<and> \<not> isJObject v
          then Some ''response is valid JSON but not a JSON object'' else None)"

definition jsonRetryPrompt :: "gostring \<Rightarrow> gostring \<Rightarrow> gostring \<Rightarrow> gostring" where
  "jsonRetryPrompt originalPrompt priorAttempt validationErr =
     originalPrompt @ nl2 @ ''Your previous reply was:'' @ [CHR 0x0A] @ priorAttempt @ nl2 @
     ''That reply was rejected: '' @ validationErr @
     ''. Reply again, following the original instructions, with ONLY the corrected JSON and no other text.''"

text \<open>What a client that asked for JSON may rely on: the text parses, and to an object when it asked for one.\<close>

definition conforms :: "(gostring \<Rightarrow> gostring + json) \<Rightarrow> ResponseFormat option \<Rightarrow> gostring \<Rightarrow> bool" where
  "conforms unmarshal rf text \<longleftrightarrow>
     (\<exists>v. unmarshal text = Inr v \<and> (map_option rfType rf = Some ''json_object'' \<longrightarrow> isJObject v))"

lemma validate_conforms: "validateJSONResponse um text rf = None \<longleftrightarrow> conforms um rf text"
  by (auto simp: validateJSONResponse_def conforms_def split: sum.split option.split)

lemma instruction_iff_requires: "responseFormatInstruction rf \<noteq> [] \<longleftrightarrow> requiresJSON rf"
  by (auto simp: responseFormatInstruction_def requiresJSON_def jsonObjectInstruction_def jsonSchemaInstruction_def
      split: option.split)

section \<open>Context windows\<close>

definition defaultContextLength :: int where
  "defaultContextLength = 200000"

definition knownContextLengths :: "(gostring \<times> int) list" where
  "knownContextLengths = [(''haiku'', 200000), (''sonnet'', 200000), (''opus'', 200000)]"

fun first_match :: "gostring \<Rightarrow> (gostring \<times> int) list \<Rightarrow> int option" where
  "first_match lower [] = None"
| "first_match lower ((substr, len) # ks) = (if Contains lower substr then Some len else first_match lower ks)"

definition resolveContextLength :: "gostring \<Rightarrow> (gostring \<rightharpoonup> int) \<Rightarrow> int \<Rightarrow> int" where
  "resolveContextLength modelID overrides defaultLength =
     (case overrides modelID of
        Some l \<Rightarrow> l
      | None \<Rightarrow>
          (case first_match (ToLower modelID) knownContextLengths of
             Some l \<Rightarrow> l
           | None \<Rightarrow> if defaultLength > 0 then defaultLength else defaultContextLength))"

text \<open>Only an override can give a model a window that is not positive.\<close>

lemma resolveContextLength_pos: "overrides m = None \<Longrightarrow> resolveContextLength m overrides d > 0"
  by (simp add: resolveContextLength_def knownContextLengths_def defaultContextLength_def)

lemma resolveContextLength_family:
  "overrides m = None \<Longrightarrow> list_ex (Contains (ToLower m)) [''haiku'', ''sonnet'', ''opus''] \<Longrightarrow>
   resolveContextLength m overrides d = 200000"
  by (auto simp: resolveContextLength_def knownContextLengths_def)

end
