(* ===== verification/Metrics.thy ===== *)
theory Metrics
  imports GoStrings
begin

text \<open>
  The request metrics (\<open>internal/gateway/metrics.go\<close>). A counter is an \<open>int64\<close>; a request is the
  triple of its \<open>METHOD path\<close> key, status and duration in milliseconds. The two levels of maps are
  visited in an order of their own, which is an argument of \<open>WritePrometheus\<close>, as is the \<open>%f\<close> form of
  a duration.
\<close>

section \<open>The code\<close>

record Metrics =
  mtRequestsTotal :: "gostring \<rightharpoonup> (int \<rightharpoonup> int)"
  mtInflight :: int
  mtDurations :: "int list"

definition NewMetrics :: Metrics where
  "NewMetrics = \<lparr>mtRequestsTotal = Map.empty, mtInflight = 0, mtDurations = []\<rparr>"

definition request_key :: "gostring \<Rightarrow> gostring \<Rightarrow> gostring" where
  "request_key meth path = meth @ '' '' @ path"

definition RecordRequest :: "gostring \<Rightarrow> gostring \<Rightarrow> int \<Rightarrow> int \<Rightarrow> Metrics \<Rightarrow> Metrics" where
  "RecordRequest meth path status durationMs m =
     (let key = request_key meth path;
          statuses = (case mtRequestsTotal m key of None \<Rightarrow> Map.empty | Some ss \<Rightarrow> ss);
          count = (case statuses status of None \<Rightarrow> 0 | Some n \<Rightarrow> n)
      in m\<lparr>mtRequestsTotal := (mtRequestsTotal m)(key \<mapsto> statuses(status \<mapsto> wrap64 (count + 1))),
           mtDurations := mtDurations m @ [durationMs]\<rparr>)"

definition IncInflight :: "Metrics \<Rightarrow> Metrics" where
  "IncInflight m = m\<lparr>mtInflight := wrap64 (mtInflight m + 1)\<rparr>"

definition DecInflight :: "Metrics \<Rightarrow> Metrics" where
  "DecInflight m = m\<lparr>mtInflight := wrap64 (mtInflight m - 1)\<rparr>"

definition requests_total :: "Metrics \<Rightarrow> gostring \<Rightarrow> int \<Rightarrow> int" where
  "requests_total m key status =
     (case mtRequestsTotal m key of None \<Rightarrow> 0 | Some ss \<Rightarrow> (case ss status of None \<Rightarrow> 0 | Some n \<Rightarrow> n))"

definition request_line :: "Metrics \<Rightarrow> gostring \<times> int \<Rightarrow> gostring" where
  "request_line m ks =
     ''llmgateway_requests_total{path=\"'' @ fst ks @ ''\",status=\"'' @ string_of_int (snd ks) @ ''\"} '' @
     string_of_int (requests_total m (fst ks) (snd ks))"

text \<open>\<open>entries\<close>: the pairs of key and status, in the order of the two nested loops.\<close>

definition WritePrometheus :: "(int \<Rightarrow> gostring) \<Rightarrow> (gostring \<times> int) list \<Rightarrow> Metrics \<Rightarrow> gostring list" where
  "WritePrometheus seconds entries m =
     [''# HELP llmgateway_requests_total Total number of requests'', ''# TYPE llmgateway_requests_total counter''] @
     map (request_line m) entries @
     [''# HELP llmgateway_inflight_requests Number of in-flight requests'',
      ''# TYPE llmgateway_inflight_requests gauge'',
      ''llmgateway_inflight_requests '' @ string_of_int (mtInflight m),
      ''# HELP llmgateway_request_duration_seconds Request duration in seconds'',
      ''# TYPE llmgateway_request_duration_seconds summary''] @
     (if mtDurations m \<noteq> [] then
        [''llmgateway_request_duration_seconds_sum '' @ seconds (fold (\<lambda>d sum. wrap64 (sum + d)) (mtDurations m) 0),
         ''llmgateway_request_duration_seconds_count '' @ string_of_nat (length (mtDurations m))]
      else
        [''llmgateway_request_duration_seconds_sum 0'', ''llmgateway_request_duration_seconds_count 0''])"

section \<open>What the counters count\<close>

record request_rec =
  rqMethod :: gostring
  rqPath :: gostring
  rqStatus :: int
  rqDuration :: int

abbreviation record_all :: "request_rec list \<Rightarrow> Metrics \<Rightarrow> Metrics" where
  "record_all rs m \<equiv> fold (\<lambda>r. RecordRequest (rqMethod r) (rqPath r) (rqStatus r) (rqDuration r)) rs m"

lemma requests_total_Record:
  "requests_total (RecordRequest meth path status d m) key st =
     (if key = request_key meth path \<and> st = status then wrap64 (requests_total m key st + 1) else requests_total m key st)"
  by (auto simp: requests_total_def RecordRequest_def Let_def split: option.split)

lemma durations_Record: "mtDurations (RecordRequest meth path status d m) = mtDurations m @ [d]"
  by (simp add: RecordRequest_def Let_def)

lemma record_all_total:
  assumes "wrap64 (requests_total m key st) = requests_total m key st"
  shows "requests_total (record_all rs m) key st =
     wrap64 (requests_total m key st +
       int (length (filter (\<lambda>r. request_key (rqMethod r) (rqPath r) = key \<and> rqStatus r = st) rs)))"
  by (induction rs rule: rev_induct) (auto simp: assms requests_total_Record ac_simps)

lemma record_all_durations: "mtDurations (record_all rs m) = mtDurations m @ map rqDuration rs"
  by (induction rs arbitrary: m) (simp_all add: durations_Record)

text \<open>The request metrics are faithful: after any sequence of requests from a fresh start, the counter of a
  route and status is the number of those requests (as an int64), and the reported duration count and sum
  are those of all of them.\<close>

theorem metrics_count:
  "requests_total (record_all rs NewMetrics) (request_key meth path) st =
     wrap64 (int (length (filter (\<lambda>r. request_key (rqMethod r) (rqPath r) = request_key meth path \<and> rqStatus r = st) rs))) \<and>
   mtDurations (record_all rs NewMetrics) = map rqDuration rs"
proof
  have z: "requests_total NewMetrics k s = 0" for k s by (simp add: requests_total_def NewMetrics_def)
  show "requests_total (record_all rs NewMetrics) (request_key meth path) st =
     wrap64 (int (length (filter (\<lambda>r. request_key (rqMethod r) (rqPath r) = request_key meth path \<and> rqStatus r = st) rs)))"
    using record_all_total [of NewMetrics "request_key meth path" st rs] z by simp
  show "mtDurations (record_all rs NewMetrics) = map rqDuration rs"
    by (simp add: record_all_durations NewMetrics_def)
qed

text \<open>The gauge of requests in flight is never moved by a request: nothing calls \<open>IncInflight\<close>.\<close>

lemma inflight_constant: "mtInflight (record_all rs m) = mtInflight m"
  by (induction rs arbitrary: m) (simp_all add: RecordRequest_def Let_def)

end
