(* ===== verification/Usage.thy ===== *)
theory Usage
  imports GoStrings
begin

text \<open>
  The usage ledger (\<open>internal/gateway/usage.go\<close>): one entry per calendar day, the five cumulative
  windows, and the file it is kept in. A token count is an \<open>int64\<close>; a \<open>float64\<close> cost is a value of a
  type with a zero and an addition, of which no law is used. A file system is a map from paths to
  contents. \<open>json\<close>'s encoding of the ledger and its decoding are parameters.

  Times of the code are midnights of the local calendar, so a time is a calendar day here; days are
  compared by their number in the proleptic Gregorian calendar, which is how \<open>time\<close> counts them.
\<close>

section \<open>Calendar days\<close>

record date =
  dtYear :: int
  dtMonth :: int
  dtDay :: int

definition leap :: "int \<Rightarrow> bool" where
  "leap y \<longleftrightarrow> y mod 4 = 0 \<and> (y mod 100 \<noteq> 0 \<or> y mod 400 = 0)"

definition month_lengths :: "int \<Rightarrow> int list" where
  "month_lengths y = [31, if leap y then 29 else 28, 31, 30, 31, 30, 31, 31, 30, 31, 30, 31]"

definition valid_date :: "date \<Rightarrow> bool" where
  "valid_date t \<longleftrightarrow> 0 \<le> dtYear t \<and> dtYear t \<le> 9999 \<and> 1 \<le> dtMonth t \<and> dtMonth t \<le> 12 \<and>
     1 \<le> dtDay t \<and> dtDay t \<le> month_lengths (dtYear t) ! nat (dtMonth t - 1)"

text \<open>Day 1 is the 1st of January of the year 1, a Monday.\<close>

definition dayno :: "date \<Rightarrow> int" where
  "dayno t =
     (let y = dtYear t - 1
      in 365 * y + y div 4 - y div 100 + y div 400 +
         sum_list (take (nat (dtMonth t - 1)) (month_lengths (dtYear t))) + dtDay t)"

definition weekday :: "date \<Rightarrow> int" where
  "weekday t = dayno t mod 7"

text \<open>The layout \<open>2006-01-02\<close>.\<close>

definition digit :: "int \<Rightarrow> char" where
  "digit n = digit_char (nat (n mod 10))"

definition format_day :: "date \<Rightarrow> gostring" where
  "format_day t =
     [digit (dtYear t div 1000), digit (dtYear t div 100), digit (dtYear t div 10), digit (dtYear t), CHR ''-'',
      digit (dtMonth t div 10), digit (dtMonth t), CHR ''-'', digit (dtDay t div 10), digit (dtDay t)]"

definition parse_day :: "gostring \<Rightarrow> date option" where
  "parse_day s =
     (if length s = 10 \<and> s ! 4 = CHR ''-'' \<and> s ! 7 = CHR ''-'' \<and>
         list_all is_digit (take 4 s @ take 2 (drop 5 s) @ drop 8 s) then
        (let t = \<lparr>dtYear = digits_value (take 4 s), dtMonth = digits_value (take 2 (drop 5 s)), dtDay = digits_value (drop 8 s)\<rparr>
         in if valid_date t then Some t else None)
      else None)"

section \<open>The store\<close>

record 'f DayUsage =
  duInputTokens :: int
  duOutputTokens :: int
  duCostUSD :: 'f

type_synonym 'f ledger = "gostring \<rightharpoonup> 'f DayUsage"

text \<open>A disabled store has no ledger.\<close>

record 'f UsageStore =
  uePath :: gostring
  ueDays :: "'f ledger option"

definition disabled :: "'f UsageStore" where
  "disabled = \<lparr>uePath = [], ueDays = None\<rparr>"

definition enabled :: "'f UsageStore \<Rightarrow> bool" where
  "enabled u \<longleftrightarrow> ueDays u \<noteq> None"

definition noUsage :: "('f :: zero) DayUsage" where
  "noUsage = \<lparr>duInputTokens = 0, duOutputTokens = 0, duCostUSD = 0\<rparr>"

definition dayOf :: "('f :: zero) ledger \<Rightarrow> gostring \<Rightarrow> 'f DayUsage" where
  "dayOf days k = (case days k of None \<Rightarrow> noUsage | Some d \<Rightarrow> d)"

definition addUsage :: "('f :: plus) DayUsage \<Rightarrow> 'f DayUsage \<Rightarrow> 'f DayUsage" where
  "addUsage newTotal d =
     \<lparr>duInputTokens = wrap64 (duInputTokens newTotal + duInputTokens d),
      duOutputTokens = wrap64 (duOutputTokens newTotal + duOutputTokens d),
      duCostUSD = duCostUSD newTotal + duCostUSD d\<rparr>"

section \<open>The file\<close>

type_synonym files = "gostring \<rightharpoonup> gostring"

datatype load_error = Unreadable gostring

text \<open>\<open>readable\<close>: \<open>os.ReadFile\<close> may fail on a file that exists.\<close>

definition loadUsageFile ::
  "(gostring \<Rightarrow> 'f ledger option) \<Rightarrow> bool \<Rightarrow> gostring \<Rightarrow> files \<Rightarrow> load_error + 'f ledger" where
  "loadUsageFile decode readable path fs =
     (case fs path of
        None \<Rightarrow> Inr Map.empty
      | Some raw \<Rightarrow>
          if \<not> readable then Inl (Unreadable path)
          else if raw = [] then Inr Map.empty
          else (case decode raw of None \<Rightarrow> Inl (Unreadable path) | Some days \<Rightarrow> Inr days))"

text \<open>
  \<open>save\<close> as the file systems it leaves behind, one after each system call, the last one final. A
  fault says which call fails; a write may fail after some bytes.
\<close>

datatype save_fault = NoFault | CreateFails | WriteFails nat | SyncFails | CloseFails | ChmodFails | RenameFails

definition save_trace :: "gostring \<Rightarrow> gostring \<Rightarrow> gostring \<Rightarrow> save_fault \<Rightarrow> files \<Rightarrow> files list" where
  "save_trace path tmp encoded fault fs =
     (let written = (\<lambda>n. fs(tmp \<mapsto> take n encoded));
          whole = fs(tmp \<mapsto> encoded);
          removed = fs(tmp := None)
      in case fault of
           CreateFails \<Rightarrow> [fs]
         | WriteFails n \<Rightarrow> map written [0..<Suc n] @ [removed]
         | NoFault \<Rightarrow> map written [0..<Suc (length encoded)] @ [whole, whole, whole, (fs(path \<mapsto> encoded))(tmp := None)]
         | _ \<Rightarrow> map written [0..<Suc (length encoded)] @ [whole, whole, removed])"

definition save :: "('f ledger \<Rightarrow> gostring) \<Rightarrow> gostring \<Rightarrow> save_fault \<Rightarrow> 'f UsageStore \<Rightarrow> files \<Rightarrow> files \<times> bool" where
  "save encode tmp fault u fs =
     (case ueDays u of
        None \<Rightarrow> (fs, False)
      | Some days \<Rightarrow> (last (save_trace (uePath u) tmp (encode days) fault fs), fault = NoFault))"

definition usageOff :: gostring where
  "usageOff = ''off''"

text \<open>\<open>home\<close>: \<open>os.UserHomeDir\<close>; \<open>filepath.Join\<close> of a home directory without a trailing separator.\<close>

definition defaultUsageDBPath :: "gostring option \<Rightarrow> gostring" where
  "defaultUsageDBPath home = (case home of None \<Rightarrow> ''valyrium-usage.db'' | Some h \<Rightarrow> h @ ''/.valyrium/usage.db'')"

definition OpenUsageStore ::
  "('f ledger \<Rightarrow> gostring) \<Rightarrow> (gostring \<Rightarrow> 'f ledger option) \<Rightarrow> gostring option \<Rightarrow> bool \<Rightarrow> bool \<Rightarrow> gostring \<Rightarrow> save_fault \<Rightarrow>
   gostring \<Rightarrow> files \<Rightarrow> files \<times> 'f UsageStore" where
  "OpenUsageStore encode decode home mkdirOk readable tmp fault path fs =
     (let path = (if path = [] then defaultUsageDBPath home else path)
      in if path = usageOff then (fs, disabled)
         else if \<not> mkdirOk then (fs, disabled)
         else
           (case loadUsageFile decode readable path fs of
              Inl err \<Rightarrow> (fs, disabled)
            | Inr days \<Rightarrow>
                let store = \<lparr>uePath = path, ueDays = Some days\<rparr>;
                    (fs', ok) = save encode tmp fault store fs
                in if ok then (fs', store) else (fs', disabled)))"

text \<open>A failed save is logged; the ledger in memory keeps the record.\<close>

definition recordUsageOn ::
  "(('f :: {zero, plus}) ledger \<Rightarrow> gostring) \<Rightarrow> gostring \<Rightarrow> save_fault \<Rightarrow> date \<Rightarrow> int \<Rightarrow> int \<Rightarrow> 'f option \<Rightarrow> 'f UsageStore \<Rightarrow> files \<Rightarrow>
   files \<times> 'f UsageStore" where
  "recordUsageOn encode tmp fault day inputTokens outputTokens costUSD u fs =
     (case ueDays u of
        None \<Rightarrow> (fs, u)
      | Some days \<Rightarrow>
          let cost = (case costUSD of None \<Rightarrow> 0 | Some c \<Rightarrow> c);
              key = format_day day;
              newTotal = addUsage (dayOf days key)
                        \<lparr>duInputTokens = inputTokens, duOutputTokens = outputTokens, duCostUSD = cost\<rparr>;
              u' = u\<lparr>ueDays := Some (days(key \<mapsto> newTotal))\<rparr>
          in (fst (save encode tmp fault u' fs), u'))"

definition Usage_Close :: "('f ledger \<Rightarrow> gostring) \<Rightarrow> gostring \<Rightarrow> save_fault \<Rightarrow> 'f UsageStore \<Rightarrow> files \<Rightarrow> files \<times> bool" where
  "Usage_Close encode tmp fault u fs = (if \<not> enabled u then (fs, True) else save encode tmp fault u fs)"

section \<open>The windows\<close>

definition usagePeriods :: "gostring list" where
  "usagePeriods = [''current'', ''week'', ''month'', ''ytd'', ''all'']"

definition periodsFor :: "date \<Rightarrow> date \<Rightarrow> (gostring \<times> bool) list" where
  "periodsFor day now =
     (let today = dayno now;
          wd = (if weekday now = 0 then 7 else weekday now);
          monday = today - (wd - 1);
          firstOfMonth = dayno (now\<lparr>dtDay := 1\<rparr>);
          firstOfYear = dayno (now\<lparr>dtMonth := 1, dtDay := 1\<rparr>)
      in [(''all'', True), (''current'', dayno day = today), (''week'', \<not> dayno day < monday),
          (''month'', \<not> dayno day < firstOfMonth), (''ytd'', \<not> dayno day < firstOfYear)])"

definition counts :: "date \<Rightarrow> gostring \<Rightarrow> gostring \<Rightarrow> bool" where
  "counts now period key =
     (case parse_day key of None \<Rightarrow> False | Some day \<Rightarrow> map_of (periodsFor day now) period = Some True)"

text \<open>The inner loop over the windows of one day, and the outer loop over the ledger in the order \<open>keys\<close>.\<close>

definition add_day :: "date \<Rightarrow> ('f :: {zero, plus}) ledger \<Rightarrow> gostring \<Rightarrow> 'f ledger \<Rightarrow> 'f ledger" where
  "add_day now days key totals =
     (case parse_day key of
        None \<Rightarrow> totals
      | Some day \<Rightarrow>
          fold (\<lambda>(period, c) totals. if c then totals(period \<mapsto> addUsage (dayOf totals period) (dayOf days key)) else totals)
            (periodsFor day now) totals)"

definition Aggregate :: "gostring list \<Rightarrow> date \<Rightarrow> ('f :: {zero, plus}) UsageStore \<Rightarrow> 'f ledger" where
  "Aggregate keys now u =
     (case ueDays u of None \<Rightarrow> Map.empty | Some days \<Rightarrow> fold (add_day now days) keys Map.empty)"

definition gauge_lines :: "gostring \<Rightarrow> gostring \<Rightarrow> (gostring \<Rightarrow> gostring) \<Rightarrow> gostring list" where
  "gauge_lines name help value =
     [''# HELP '' @ name @ '' '' @ help, ''# TYPE '' @ name @ '' gauge''] @
     map (\<lambda>period. name @ ''{period=\"'' @ period @ ''\"} '' @ value period) usagePeriods"

definition WriteUsage :: "(('f :: {zero, plus}) \<Rightarrow> gostring) \<Rightarrow> gostring list \<Rightarrow> date \<Rightarrow> 'f UsageStore \<Rightarrow> gostring list" where
  "WriteUsage formatFloat keys now u =
     (if \<not> enabled u then []
      else
        let totals = Aggregate keys now u
        in gauge_lines ''llmgateway_usage_input_tokens'' ''Cumulative input tokens by period''
             (\<lambda>p. string_of_int (duInputTokens (dayOf totals p))) @
           gauge_lines ''llmgateway_usage_output_tokens'' ''Cumulative output tokens by period''
             (\<lambda>p. string_of_int (duOutputTokens (dayOf totals p))) @
           gauge_lines ''llmgateway_usage_cost_usd'' ''Cumulative cost in USD by period''
             (\<lambda>p. formatFloat (duCostUSD (dayOf totals p))))"

section \<open>The ledger survives a crash\<close>

lemma save_trace_path:
  assumes "tmp \<noteq> path" and "fs' \<in> set (save_trace path tmp encoded fault fs)"
  shows "fs' path = fs path \<or> fs' path = Some encoded"
  using assms by (cases fault) (auto simp: save_trace_def Let_def)

lemma save_trace_last: 
  assumes "tmp \<noteq> path" "fs tmp = None"
  shows "last (save_trace path tmp encoded fault fs) = (if fault = NoFault then fs(path \<mapsto> encoded) else fs)"
  using assms by (cases fault) (auto simp: save_trace_def Let_def fun_eq_iff)

text \<open>C22: Saving the ledger is atomic: at every moment of a save, whatever call fails, and so after a crash at any
  moment, the file loads as the ledger before or the ledger after; and when the save is over nothing but the
  ledger file has changed, and that only when it succeeded.\<close>

theorem save_is_atomic:
  assumes "tmp \<noteq> uePath u" and "fs tmp = None" and "ueDays u = Some days"
    and "encode days \<noteq> []" and "decode (encode days) = Some days"
  shows "(\<forall>fs' \<in> set (save_trace (uePath u) tmp (encode days) fault fs).
            loadUsageFile decode True (uePath u) fs' = loadUsageFile decode True (uePath u) fs \<or>
            loadUsageFile decode True (uePath u) fs' = Inr days) \<and>
         (fault = NoFault \<longrightarrow> loadUsageFile decode True (uePath u) (fst (save encode tmp fault u fs)) = Inr days) \<and>
         fst (save encode tmp fault u fs) = (if fault = NoFault then fs(uePath u \<mapsto> encode days) else fs)"
proof (intro conjI ballI)
  fix fs' assume "fs' \<in> set (save_trace (uePath u) tmp (encode days) fault fs)"
  from save_trace_path [OF assms(1) this] assms(4,5) show
    "loadUsageFile decode True (uePath u) fs' = loadUsageFile decode True (uePath u) fs \<or>
     loadUsageFile decode True (uePath u) fs' = Inr days"
    by (auto simp: loadUsageFile_def)
next
  show "fst (save encode tmp fault u fs) = (if fault = NoFault then fs(uePath u \<mapsto> encode days) else fs)"
    using save_trace_last [where fs = fs, OF assms(1) assms(2), of "encode days" fault] assms(3) by (simp add: save_def)
  then show "fault = NoFault \<longrightarrow> loadUsageFile decode True (uePath u) (fst (save encode tmp fault u fs)) = Inr days"
    using assms(4,5) by (auto simp: loadUsageFile_def)
qed

theorem save_is_atomic_witness:
  "fst (save (\<lambda>_. ''x'') ''u.tmp1'' (WriteFails 0) \<lparr>uePath = ''u'', ueDays = Some (Map.empty :: nat ledger)\<rparr> Map.empty) = Map.empty"
  using save_is_atomic [of "''u.tmp1''" "\<lparr>uePath = ''u'', ueDays = Some (Map.empty :: nat ledger)\<rparr>" Map.empty Map.empty
      "\<lambda>_. ''x''" "\<lambda>_. Some Map.empty" "WriteFails 0"]
  by simp

section \<open>Dates survive the layout\<close>

lemma digit_value: "is_digit (digit n) \<and> (of_char (digit n) :: nat) = 48 + nat (n mod 10)"
proof -
  have "nat (n mod 10) < 10" by (simp add: nat_less_iff)
  then have "(of_char (char_of (48 + nat (n mod 10)) :: char) :: nat) = 48 + nat (n mod 10)"
    by (simp add: of_char_of)
  with \<open>nat (n mod 10) < 10\<close> show ?thesis by (simp add: digit_def digit_char_def is_digit_def)
qed

lemma digits_value_Cons: "digits_value ds * 10 + d mod 10 = digits_value (ds @ [digit d])"
  using digit_value [of d] by (simp add: digits_value_def of_nat_diff)

lemma digits_value_Nil: "digits_value [] = 0"
  by (simp add: digits_value_def)

lemma digits_two: "0 \<le> n \<Longrightarrow> n \<le> 99 \<Longrightarrow> digits_value [digit (n div 10), digit n] = n"
  using digits_value_Cons [of "[]" "n div 10"] digits_value_Cons [of "[digit (n div 10)]" n] by (simp add: digits_value_Nil)

lemma digits_sum:
  fixes n :: int
  assumes "0 \<le> n" "n \<le> 9999"
  shows "((n div 1000 mod 10 * 10 + n div 100 mod 10) * 10 + n div 10 mod 10) * 10 + n mod 10 = n"
proof -
  have d: "n div 100 = n div 10 div 10" "n div 1000 = n div 10 div 10 div 10"
    by (simp_all flip: zdiv_zmult2_eq)
  have top: "n div 10 div 10 div 10 mod 10 = n div 10 div 10 div 10"
  proof -
    have "0 \<le> n div 10 div 10 div 10" "n div 10 div 10 div 10 < 10"
      using assms by linarith+
    then show ?thesis by simp
  qed
  show ?thesis
    unfolding d top by (simp only: div_mult_mod_eq)
qed

lemma digits_four:
  "0 \<le> n \<Longrightarrow> n \<le> 9999 \<Longrightarrow> digits_value [digit (n div 1000), digit (n div 100), digit (n div 10), digit n] = n"
  using digits_value_Cons [of "[]" "n div 1000"] digits_value_Cons [of "[digit (n div 1000)]" "n div 100"]
    digits_value_Cons [of "[digit (n div 1000), digit (n div 100)]" "n div 10"]
    digits_value_Cons [of "[digit (n div 1000), digit (n div 100), digit (n div 10)]" n] digits_sum [of n]
  by (simp add: digits_value_Nil)

lemma month_lengths_bound: "n \<in> set (month_lengths y) \<Longrightarrow> 0 \<le> n \<and> n \<le> 31"
  by (auto simp: month_lengths_def)

lemma valid_date_bounds: "valid_date t \<Longrightarrow> dtDay t \<le> 31"
proof -
  assume v: "valid_date t"
  then have "month_lengths (dtYear t) ! nat (dtMonth t - 1) \<in> set (month_lengths (dtYear t))"
    by (intro nth_mem) (auto simp: valid_date_def month_lengths_def)
  from month_lengths_bound [OF this] v show ?thesis by (simp add: valid_date_def)
qed

lemma parse_format: "valid_date t \<Longrightarrow> parse_day (format_day t) = Some t"
  using valid_date_bounds [of t] digit_value
  by (simp add: parse_day_def format_day_def digits_two digits_four valid_date_def Let_def numeral_eq_Suc)

section \<open>What the windows add up\<close>

lemma dayOf_upd: "dayOf (m(k \<mapsto> d)) k' = (if k' = k then d else dayOf m k')"
  by (simp add: dayOf_def)

lemma addUsage_tokens [simp]:
  "duInputTokens (addUsage t d) = wrap64 (duInputTokens t + duInputTokens d)"
  "duOutputTokens (addUsage t d) = wrap64 (duOutputTokens t + duOutputTokens d)"
  by (simp_all add: addUsage_def)

lemma add_day_dayOf:
  "dayOf (add_day now days k totals) p =
     (if counts now p k then addUsage (dayOf totals p) (dayOf days k) else dayOf totals p)"
proof (cases "parse_day k")
  case (Some day)
  then show ?thesis by (auto simp: add_day_def counts_def periodsFor_def Let_def dayOf_upd)
qed (simp add: add_day_def counts_def)

lemma fold_add_day:
  "duInputTokens (dayOf (fold (add_day now days) keys totals) p) =
     (if filter (counts now p) keys = [] then duInputTokens (dayOf totals p)
      else wrap64 (duInputTokens (dayOf totals p) + (\<Sum>k \<leftarrow> filter (counts now p) keys. duInputTokens (dayOf days k)))) \<and>
   duOutputTokens (dayOf (fold (add_day now days) keys totals) p) =
     (if filter (counts now p) keys = [] then duOutputTokens (dayOf totals p)
      else wrap64 (duOutputTokens (dayOf totals p) + (\<Sum>k \<leftarrow> filter (counts now p) keys. duOutputTokens (dayOf days k))))"
  by (induction keys arbitrary: totals) (auto simp: add_day_dayOf ac_simps)

lemma Aggregate_tokens:
  assumes "ueDays u = Some days" "distinct keys"
  shows "duInputTokens (dayOf (Aggregate keys now u) p) = wrap64 (\<Sum>k | k \<in> set keys \<and> counts now p k. duInputTokens (dayOf days k))"
    and "duOutputTokens (dayOf (Aggregate keys now u) p) = wrap64 (\<Sum>k | k \<in> set keys \<and> counts now p k. duOutputTokens (dayOf days k))"
proof -
  have s: "(\<Sum>k \<leftarrow> filter (counts now p) keys. f k) = (\<Sum>k | k \<in> set keys \<and> counts now p k. f k)" for f :: "gostring \<Rightarrow> int"
    using assms(2) by (simp add: sum_list_distinct_conv_sum_set)
  show "duInputTokens (dayOf (Aggregate keys now u) p) = wrap64 (\<Sum>k | k \<in> set keys \<and> counts now p k. duInputTokens (dayOf days k))"
    unfolding s [symmetric] using fold_add_day [of now days keys Map.empty p] assms(1) by (auto simp: Aggregate_def dayOf_def noUsage_def)
  show "duOutputTokens (dayOf (Aggregate keys now u) p) = wrap64 (\<Sum>k | k \<in> set keys \<and> counts now p k. duOutputTokens (dayOf days k))"
    unfolding s [symmetric] using fold_add_day [of now days keys Map.empty p] assms(1) by (auto simp: Aggregate_def dayOf_def noUsage_def)
qed

lemma sum_list_take_nonneg: "(\<And>x. x \<in> set xs \<Longrightarrow> 0 \<le> x) \<Longrightarrow> 0 \<le> sum_list (take n xs)" for xs :: "int list"
  by (rule sum_list_nonneg) (meson in_set_takeD)

lemma today_counts: "valid_date now \<Longrightarrow> p \<in> set usagePeriods \<Longrightarrow> counts now p (format_day now)"
proof -
  assume v: "valid_date now" and p: "p \<in> set usagePeriods"
  have "0 \<le> sum_list (take (nat (dtMonth now - 1)) (month_lengths (dtYear now)))"
    by (rule sum_list_take_nonneg) (simp add: month_lengths_bound)
  moreover have "0 \<le> weekday now" by (simp add: weekday_def)
  ultimately show ?thesis using v p
    by (auto simp: counts_def parse_format periodsFor_def Let_def usagePeriods_def dayno_def valid_date_def)
qed

text \<open>C23: A request recorded today counts at once, and exactly once, in every one of the five windows, whatever
  the ledger held and in whatever order its days are visited.\<close>

theorem usage_counts_everywhere:
  assumes "ueDays u = Some days" and "valid_date now"
    and "recordUsageOn encode tmp fault now i n cost u fs = (fs', u')"
    and "distinct keys" "set keys = dom days" and "distinct keys'" "set keys' = insert (format_day now) (dom days)"
    and "p \<in> set usagePeriods"
  shows "duInputTokens (dayOf (Aggregate keys' now u') p) = wrap64 (duInputTokens (dayOf (Aggregate keys now u) p) + i) \<and>
         duOutputTokens (dayOf (Aggregate keys' now u') p) = wrap64 (duOutputTokens (dayOf (Aggregate keys now u) p) + n)"
proof -
  let ?k = "format_day now"
  let ?S = "{k. k \<in> set keys \<and> counts now p k}" and ?S' = "{k. k \<in> set keys' \<and> counts now p k}"
  let ?R = "?S - {?k}"
  define days' where "days' = (case ueDays u' of Some d \<Rightarrow> d | None \<Rightarrow> Map.empty)"
  from assms(1,3) have u': "ueDays u' = Some days'"
    and at: "duInputTokens (dayOf days' ?k) = wrap64 (duInputTokens (dayOf days ?k) + i)"
      "duOutputTokens (dayOf days' ?k) = wrap64 (duOutputTokens (dayOf days ?k) + n)"
    and off: "\<And>k. k \<noteq> ?k \<Longrightarrow> dayOf days' k = dayOf days k"
    by (auto simp: recordUsageOn_def Let_def days'_def dayOf_upd)
  have S': "?S' = insert ?k ?R" using assms(5,7) today_counts [OF assms(2,8)] by auto
  have sum': "(\<Sum>k \<in> ?S'. f (dayOf days' k)) = f (dayOf days' ?k) + (\<Sum>k \<in> ?R. f (dayOf days k))" for f :: "'a DayUsage \<Rightarrow> int"
    unfolding S' by (subst sum.insert) (auto intro: sum.cong simp: off)
  have sum: "(\<Sum>k \<in> ?S. f (dayOf days k)) = f (dayOf days ?k) + (\<Sum>k \<in> ?R. f (dayOf days k))"
    if "f noUsage = 0" for f :: "'a DayUsage \<Rightarrow> int"
  proof (cases "?k \<in> ?S")
    case True
    then show ?thesis by (subst sum.remove [of _ ?k]) auto
  next
    case False
    with assms(5) today_counts [OF assms(2,8)] have "days ?k = None" by auto
    with that False show ?thesis by (simp add: dayOf_def)
  qed
  show ?thesis
    unfolding Aggregate_tokens [OF u' assms(6)] Aggregate_tokens [OF assms(1,4)]
    by (simp add: sum' sum at noUsage_def ac_simps)
qed

theorem usage_counts_everywhere_witness:
  "duInputTokens (dayOf (Aggregate [format_day \<lparr>dtYear = 2025, dtMonth = 6, dtDay = 1\<rparr>] \<lparr>dtYear = 2025, dtMonth = 6, dtDay = 1\<rparr>
      (snd (recordUsageOn (\<lambda>_. []) ''t'' NoFault \<lparr>dtYear = 2025, dtMonth = 6, dtDay = 1\<rparr> 7 9 None
        \<lparr>uePath = ''u'', ueDays = Some (Map.empty :: nat ledger)\<rparr> Map.empty))) ''week'') = 7"
proof -
  let ?now = "\<lparr>dtYear = 2025, dtMonth = 6, dtDay = 1\<rparr>" and ?u = "\<lparr>uePath = ''u'', ueDays = Some (Map.empty :: nat ledger)\<rparr>"
  obtain fs' u' where r: "recordUsageOn (\<lambda>_. []) ''t'' NoFault ?now 7 9 None ?u Map.empty = (fs', u')" by fastforce
  have "valid_date ?now" by (simp add: valid_date_def month_lengths_def)
  from usage_counts_everywhere [OF _ this r, of Map.empty "[]" "[format_day ?now]" "''week''"] r show ?thesis
    by (simp add: usagePeriods_def Aggregate_def dayOf_def noUsage_def)
qed

end
