(* ===== verification/Resume.thy ===== *)
theory Resume
  imports OpenAI
begin

text \<open>
  Cross-request continuity (\<open>internal/gateway/resume.go\<close> and \<open>server.go\<close>, lines 501 to 556):
  the bounded LRU of CLI session ids, the fingerprint of a conversation prefix, the split of a
  request into that prefix and its new user text, and the two places of the server that use
  them. The LRU is proved to implement an abstract most-recently-used list, whose contract is a
  locale; the end-to-end property rests on it.

  \<open>sha256\<close> is a parameter. No property assumes anything of it: where it matters, the conclusion
  says that two different payloads have the same digest.
\<close>

section \<open>The store\<close>

text \<open>
  \<open>container/list\<close> elements live in \<open>rsHeap\<close>; \<open>rsOrder\<close> is the linked list, front first, and
  \<open>rsEntries\<close> the map of keys to elements.
\<close>

record resumeEntry =
  reKey :: gostring
  reCliSessionID :: gostring

record ResumeStore =
  rsMax :: int
  rsOrder :: "nat list"
  rsEntries :: "gostring \<rightharpoonup> nat"
  rsHeap :: "resumeEntry list"

definition NewResumeStore :: "int \<Rightarrow> ResumeStore" where
  "NewResumeStore m =
     (let m = (if m \<le> 0 then 32 else m)
      in \<lparr>rsMax = m, rsOrder = [], rsEntries = Map.empty, rsHeap = []\<rparr>)"

definition MoveToFront :: "nat \<Rightarrow> ResumeStore \<Rightarrow> ResumeStore" where
  "MoveToFront el rs = rs\<lparr>rsOrder := el # remove1 el (rsOrder rs)\<rparr>"

definition Get :: "gostring \<Rightarrow> ResumeStore \<Rightarrow> ResumeStore \<times> gostring option" where
  "Get key rs =
     (if key = [] then (rs, None)
      else
        (case rsEntries rs key of
           None \<Rightarrow> (rs, None)
         | Some el \<Rightarrow> (MoveToFront el rs, Some (reCliSessionID (rsHeap rs ! el)))))"

text \<open>The eviction loop of \<open>Put\<close>; it ends because each round removes the last element.\<close>

function evict :: "ResumeStore \<Rightarrow> ResumeStore" where
  "evict rs =
     (if int (length (rsOrder rs)) > rsMax rs then
        (if rsOrder rs = [] then rs
         else
           let oldest = last (rsOrder rs)
           in evict (rs\<lparr>rsOrder := butlast (rsOrder rs),
                        rsEntries := (rsEntries rs)(reKey (rsHeap rs ! oldest) := None)\<rparr>))
      else rs)"
  by pat_completeness auto
termination
  by (relation "measure (\<lambda>rs. length (rsOrder rs))") auto

declare evict.simps [simp del]

definition Put :: "gostring \<Rightarrow> gostring \<Rightarrow> ResumeStore \<Rightarrow> ResumeStore" where
  "Put key cliSessionID rs =
     (if key = [] \<or> cliSessionID = [] then rs
      else
        (case rsEntries rs key of
           Some el \<Rightarrow>
             MoveToFront el (rs\<lparr>rsHeap := (rsHeap rs)[el := (rsHeap rs ! el)\<lparr>reCliSessionID := cliSessionID\<rparr>]\<rparr>)
         | None \<Rightarrow>
             let el = length (rsHeap rs)
             in evict (rs\<lparr>rsHeap := rsHeap rs @ [\<lparr>reKey = key, reCliSessionID = cliSessionID\<rparr>],
                          rsOrder := el # rsOrder rs, rsEntries := (rsEntries rs)(key \<mapsto> el)\<rparr>)))"

definition Len :: "ResumeStore \<Rightarrow> nat" where
  "Len rs = length (rsOrder rs)"

section \<open>Fingerprints and the shape of a conversation\<close>

fun hashedTurns :: "OpenAIMessage list \<Rightarrow> (gostring \<times> gostring) list option" where
  "hashedTurns [] = Some []"
| "hashedTurns (m # ms) =
     (case textOf m of
        Inl e \<Rightarrow> None
      | Inr text \<Rightarrow> (case hashedTurns ms of None \<Rightarrow> None | Some ts \<Rightarrow> Some ((omRole m, text) # ts)))"

definition fingerprint_payload :: "gostring \<Rightarrow> gostring \<Rightarrow> (gostring \<times> gostring) list \<Rightarrow> gostring" where
  "fingerprint_payload model effort turns =
     Marshal (JObject [(''model'', JString model), (''effort'', JString effort),
       (''turns'', JArray (map (\<lambda>(role, text). JObject [(''role'', JString role), (''content'', JString text)]) turns))])"

definition resumeFingerprint ::
  "(gostring \<Rightarrow> bytes) \<Rightarrow> OpenAIMessage list \<Rightarrow> gostring \<Rightarrow> gostring \<Rightarrow> gostring" where
  "resumeFingerprint sha256 messages model effort =
     (case hashedTurns messages of
        None \<Rightarrow> []
      | Some turns \<Rightarrow> hex_bytes (sha256 (fingerprint_payload model effort turns)))"

definition isResumableConversation :: "OpenAIMessage list \<Rightarrow> bool" where
  "isResumableConversation messages =
     list_all (\<lambda>m. omRole m \<noteq> ''tool'' \<and> omToolCalls m = [] \<and> \<not> isl (textOf m)) messages"

definition joinNonEmpty :: "gostring list \<Rightarrow> gostring \<Rightarrow> gostring" where
  "joinNonEmpty parts sep =
     fold (\<lambda>p out. if p = [] then out else (if out \<noteq> [] then out @ sep else out) @ p) parts []"

text \<open>The index of the last assistant message, as the first loop of \<open>splitResumeTurn\<close> finds it.\<close>

definition lastAssistant :: "OpenAIMessage list \<Rightarrow> int" where
  "lastAssistant messages =
     fold (\<lambda>(i, m) l. if omRole m = ''assistant'' then int i else l) (enumerate 0 messages) (- 1)"

fun userTexts :: "OpenAIMessage list \<Rightarrow> gostring list option" where
  "userTexts [] = Some []"
| "userTexts (m # ms) =
     (if omRole m \<noteq> ''user'' then None
      else
        (case textOf m of
           Inl e \<Rightarrow> None
         | Inr text \<Rightarrow> (case userTexts ms of None \<Rightarrow> None | Some ts \<Rightarrow> Some (text # ts))))"

definition splitResumeTurn :: "OpenAIMessage list \<Rightarrow> (OpenAIMessage list \<times> gostring) option" where
  "splitResumeTurn messages =
     (let l = lastAssistant messages in
      if l < 0 then None
      else
        let tail = drop (nat l + 1) messages in
        if tail = [] then None
        else
          (case userTexts tail of
             None \<Rightarrow> None
           | Some parts \<Rightarrow>
               let userText = joinNonEmpty parts nl2 in
               if userText = [] then None else Some (take (nat l + 1) messages, userText)))"

fun systemParts :: "OpenAIMessage list \<Rightarrow> gostring list option" where
  "systemParts [] = Some []"
| "systemParts (m # ms) =
     (if omRole m \<noteq> ''system'' \<and> omRole m \<noteq> ''developer'' then systemParts ms
      else
        (case textOf m of
           Inl e \<Rightarrow> None
         | Inr text \<Rightarrow> (case systemParts ms of None \<Rightarrow> None | Some ts \<Rightarrow> Some (text # ts))))"

definition systemPromptOf :: "OpenAIMessage list \<Rightarrow> gostring" where
  "systemPromptOf messages =
     (case systemParts messages of
        None \<Rightarrow> defaultSystemPrompt
      | Some parts \<Rightarrow>
          let prompt = joinNonEmpty parts nl2 in if prompt = [] then defaultSystemPrompt else prompt)"

section \<open>The server's use of the store\<close>

record resumeTurn =
  rtPersist :: bool
  rtHit :: bool
  rtCliSessionID :: gostring
  rtSystemPrompt :: gostring
  rtPrompt :: gostring

definition noResume :: resumeTurn where
  "noResume = \<lparr>rtPersist = False, rtHit = False, rtCliSessionID = [], rtSystemPrompt = [], rtPrompt = []\<rparr>"

text \<open>A server with resume disabled has no store.\<close>

definition planResumeTurn ::
  "(gostring \<Rightarrow> bytes) \<Rightarrow> OpenAIMessage list \<Rightarrow> gostring \<Rightarrow> gostring \<Rightarrow> ResumeStore option \<Rightarrow> ResumeStore option \<times> resumeTurn" where
  "planResumeTurn sha256 messages model effort store =
     (case store of
        None \<Rightarrow> (None, noResume)
      | Some rs \<Rightarrow>
          if \<not> isResumableConversation messages then (store, noResume)
          else
            let plan = noResume\<lparr>rtPersist := True\<rparr> in
            (case splitResumeTurn messages of
               None \<Rightarrow> (store, plan)
             | Some (prefix, userText) \<Rightarrow>
                 (case Get (resumeFingerprint sha256 prefix model effort) rs of
                    (rs', None) \<Rightarrow> (Some rs', plan)
                  | (rs', Some cliSessionID) \<Rightarrow>
                      (Some rs', plan\<lparr>rtHit := True, rtCliSessionID := cliSessionID,
                                      rtSystemPrompt := systemPromptOf messages, rtPrompt := userText\<rparr>))))"

definition assistant_reply :: "gostring \<Rightarrow> OpenAIMessage" where
  "assistant_reply text = \<lparr>omRole = ''assistant'', omContent = JString text, omToolCallID = [], omToolCalls = []\<rparr>"

definition recordResumableSession ::
  "(gostring \<Rightarrow> bytes) \<Rightarrow> OpenAIMessage list \<Rightarrow> gostring \<Rightarrow> gostring \<Rightarrow> 'f Completion option \<Rightarrow> ResumeStore option \<Rightarrow> ResumeStore option" where
  "recordResumableSession sha256 messages model effort completion store =
     (case (store, completion) of
        (Some rs, Some c) \<Rightarrow>
          if cmCLISessionID c = [] then store
          else if \<not> isResumableConversation messages then store
          else
            let nxt = messages @ [assistant_reply (cmText c)]
            in Some (Put (resumeFingerprint sha256 nxt model effort) (cmCLISessionID c) rs)
      | _ \<Rightarrow> store)"

section \<open>The contract of a most-recently-used store\<close>

definition lru_get :: "gostring \<Rightarrow> (gostring \<times> gostring) list \<Rightarrow> (gostring \<times> gostring) list \<times> gostring option" where
  "lru_get k xs =
     (case map_of xs k of
        None \<Rightarrow> (xs, None)
      | Some v \<Rightarrow> ((k, v) # filter (\<lambda>p. fst p \<noteq> k) xs, Some v))"

definition lru_put :: "nat \<Rightarrow> gostring \<Rightarrow> gostring \<Rightarrow> (gostring \<times> gostring) list \<Rightarrow> (gostring \<times> gostring) list" where
  "lru_put n k v xs = take n ((k, v) # filter (\<lambda>p. fst p \<noteq> k) xs)"

datatype lru_op = OGet gostring | OPut gostring gostring

fun lru_run ::
  "(gostring \<Rightarrow> 's \<Rightarrow> 's \<times> gostring option) \<Rightarrow> (gostring \<Rightarrow> gostring \<Rightarrow> 's \<Rightarrow> 's) \<Rightarrow> lru_op list \<Rightarrow> 's \<Rightarrow> 's" where
  "lru_run get put [] s = s"
| "lru_run get put (OGet k # ops) s = lru_run get put ops (fst (get k s))"
| "lru_run get put (OPut k v # ops) s = lru_run get put ops (put k v s)"

fun touched :: "lru_op \<Rightarrow> gostring" where
  "touched (OGet k) = k"
| "touched (OPut k v) = k"

locale lru_store =
  fixes get :: "gostring \<Rightarrow> 's \<Rightarrow> 's \<times> gostring option"
    and put :: "gostring \<Rightarrow> gostring \<Rightarrow> 's \<Rightarrow> 's"
    and ok :: "'s \<Rightarrow> bool"
    and view :: "'s \<Rightarrow> (gostring \<times> gostring) list"
    and cap :: "'s \<Rightarrow> nat"
  assumes get_empty: "get [] s = (s, None)"
    and put_empty: "k = [] \<or> v = [] \<Longrightarrow> put k v s = s"
    and ok_get: "ok s \<Longrightarrow> ok (fst (get k s))"
    and ok_put: "ok s \<Longrightarrow> ok (put k v s)"
    and cap_get: "cap (fst (get k s)) = cap s"
    and cap_put: "cap (put k v s) = cap s"
    and view_get: "ok s \<Longrightarrow> k \<noteq> [] \<Longrightarrow> (view (fst (get k s)), snd (get k s)) = lru_get k (view s)"
    and view_put: "ok s \<Longrightarrow> k \<noteq> [] \<Longrightarrow> v \<noteq> [] \<Longrightarrow> view (put k v s) = lru_put (cap s) k v (view s)"
    and distinct_keys: "ok s \<Longrightarrow> distinct (map fst (view s))"
    and cap_pos: "ok s \<Longrightarrow> 0 < cap s"
begin

text \<open>An entry stays in view as long as fewer keys than the capacity have been used since.\<close>

definition recent :: "gostring \<Rightarrow> gostring \<Rightarrow> gostring set \<Rightarrow> 's \<Rightarrow> bool" where
  "recent k v K s \<longleftrightarrow> ok s \<and> (\<exists>A B. view s = A @ (k, v) # B \<and> fst ` set A \<subseteq> K - {k})"

lemma recent_put_self: "ok s \<Longrightarrow> k \<noteq> [] \<Longrightarrow> v \<noteq> [] \<Longrightarrow> recent k v {} (put k v s)"
  using cap_pos [of s] by (cases "cap s") (auto simp: recent_def ok_put view_put lru_put_def)

lemma recent_mono: "recent k v K s \<Longrightarrow> K \<subseteq> L \<Longrightarrow> recent k v L s"
  by (fastforce simp: recent_def)

lemma recent_get:
  assumes "recent k v K s"
  shows "recent k v (insert k' K) (fst (get k' s))"
proof (cases "k' = []")
  case True
  then show ?thesis using recent_mono [OF assms] by (auto simp: get_empty)
next
  case False
  from assms obtain A B where s: "ok s" "view s = A @ (k, v) # B" "fst ` set A \<subseteq> K - {k}"
    by (auto simp: recent_def)
  have vw: "view (fst (get k' s)) = fst (lru_get k' (view s))" using view_get [OF s(1) False] by (metis fst_conv)
  show ?thesis
  proof (cases "k' = k")
    case True
    have "k \<notin> fst ` set A" using s(3) by auto
    then have "map_of (view s) k = Some v"
      by (auto simp: s(2) map_add_def split: option.split dest: map_of_SomeD intro: rev_image_eqI)
    then have "view (fst (get k' s)) = [] @ (k, v) # filter (\<lambda>p. fst p \<noteq> k) (view s)"
      using True vw by (simp add: lru_get_def)
    then show ?thesis using ok_get [OF s(1)] unfolding recent_def by (metis empty_subsetI image_empty list.set(1))
  next
    case False
    show ?thesis
    proof (cases "map_of (view s) k'")
      case None
      with vw have "view (fst (get k' s)) = A @ (k, v) # B" by (simp add: lru_get_def s(2) [symmetric])
      moreover have "fst ` set A \<subseteq> insert k' K - {k}" using s(3) by auto
      ultimately show ?thesis using ok_get [OF s(1)] unfolding recent_def by blast
    next
      case (Some w)
      with vw s(2) False
      have "view (fst (get k' s)) = ((k', w) # filter (\<lambda>p. fst p \<noteq> k') A) @ (k, v) # filter (\<lambda>p. fst p \<noteq> k') B"
        by (simp add: lru_get_def)
      moreover have "fst ` set ((k', w) # filter (\<lambda>p. fst p \<noteq> k') A) \<subseteq> insert k' K - {k}"
        using s(3) False by auto
      ultimately show ?thesis using ok_get [OF s(1)] unfolding recent_def by blast
    qed
  qed
qed

lemma recent_put:
  assumes "recent k v K s" "k' \<noteq> k" "finite K" "card (insert k' K - {k}) < cap s"
  shows "recent k v (insert k' K) (put k' v' s)"
proof (cases "k' = [] \<or> v' = []")
  case True
  then show ?thesis using recent_mono [OF assms(1)] by (auto simp: put_empty)
next
  case False
  from assms(1) obtain A B where s: "ok s" "view s = A @ (k, v) # B" "fst ` set A \<subseteq> K - {k}"
    by (auto simp: recent_def)
  let ?A = "(k', v') # filter (\<lambda>p. fst p \<noteq> k') A"
  have dist: "distinct (map fst ?A)"
    using distinct_keys [OF s(1)] by (simp add: s(2) distinct_map_filter) (auto)
  have sub: "fst ` set ?A \<subseteq> insert k' K - {k}" using s(3) assms(2) by auto
  have "length ?A = card (fst ` set ?A)"
    using distinct_card [OF dist] by simp
  also have "\<dots> \<le> card (insert k' K - {k})" using sub assms(3) by (intro card_mono) auto
  finally have len: "length ?A < cap s" using assms(4) by simp
  then obtain m where m: "cap s = length ?A + Suc m" by (metis add_Suc_right less_iff_Suc_add)
  have "view (put k' v' s) = take (cap s) (?A @ (k, v) # filter (\<lambda>p. fst p \<noteq> k') B)"
    using view_put [OF s(1)] False assms(2) by (simp add: lru_put_def s(2))
  also have "\<dots> = ?A @ (k, v) # take m (filter (\<lambda>p. fst p \<noteq> k') B)" unfolding m by simp
  finally show ?thesis using sub ok_put [OF s(1)] unfolding recent_def by blast
qed

lemma recent_run:
  "recent k v K s \<Longrightarrow> finite K \<Longrightarrow> list_all (\<lambda>x. \<forall>w. x \<noteq> OPut k w) ops \<Longrightarrow>
   card (K \<union> touched ` set ops - {k}) < cap s \<Longrightarrow> recent k v (K \<union> touched ` set ops) (lru_run get put ops s)"
proof (induction ops arbitrary: K s)
  case (Cons x ops)
  have eq: "insert (touched x) K \<union> touched ` set ops = K \<union> touched ` set (x # ops)" by auto
  show ?case
  proof (cases x)
    case (OGet k')
    then have "recent k v (insert (touched x) K) (fst (get k' s))" using recent_get [OF Cons.prems(1)] by simp
    from Cons.IH [OF this] Cons.prems OGet eq show ?thesis by (simp add: cap_get)
  next
    case (OPut k' v')
    have "card (insert k' K - {k}) \<le> card (K \<union> touched ` set (x # ops) - {k})"
      using Cons.prems(2) OPut by (intro card_mono) auto
    then have "recent k v (insert (touched x) K) (put k' v' s)"
      using recent_put [OF Cons.prems(1)] Cons.prems OPut by auto
    from Cons.IH [OF this] Cons.prems OPut eq show ?thesis by (simp add: cap_put)
  qed
qed simp

lemma recent_hit: "recent k v K s \<Longrightarrow> k \<noteq> [] \<Longrightarrow> snd (get k s) = Some v"
proof -
  assume r: "recent k v K s" and k: "k \<noteq> []"
  from r obtain A B where s: "ok s" "view s = A @ (k, v) # B" "fst ` set A \<subseteq> K - {k}"
    by (auto simp: recent_def)
  then have "k \<notin> fst ` set A" by auto
  then have "map_of (view s) k = Some v"
    by (auto simp: s(2) map_add_def split: option.split dest: map_of_SomeD intro: rev_image_eqI)
  then show ?thesis using view_get [OF s(1) k] by (simp add: lru_get_def prod_eq_iff)
qed

lemma retained:
  assumes "ok s" "k \<noteq> []" "v \<noteq> []" "list_all (\<lambda>x. \<forall>w. x \<noteq> OPut k w) ops"
    "card (touched ` set ops - {k}) < cap s"
  shows "snd (get k (lru_run get put ops (put k v s))) = Some v"
  using recent_run [OF recent_put_self [OF assms(1-3)], of ops] assms by (simp add: cap_put recent_hit)

end

section \<open>The store meets the contract\<close>

definition entry :: "ResumeStore \<Rightarrow> nat \<Rightarrow> gostring \<times> gostring" where
  "entry rs i = (reKey (rsHeap rs ! i), reCliSessionID (rsHeap rs ! i))"

definition rs_view :: "ResumeStore \<Rightarrow> (gostring \<times> gostring) list" where
  "rs_view rs = map (entry rs) (rsOrder rs)"

definition rs_ok :: "ResumeStore \<Rightarrow> bool" where
  "rs_ok rs \<longleftrightarrow>
     0 < rsMax rs \<and> int (length (rsOrder rs)) \<le> rsMax rs \<and> distinct (rsOrder rs) \<and>
     (\<forall>i \<in> set (rsOrder rs). i < length (rsHeap rs)) \<and>
     (\<forall>k i. rsEntries rs k = Some i \<longleftrightarrow> i \<in> set (rsOrder rs) \<and> reKey (rsHeap rs ! i) = k)"

definition rs_cap :: "ResumeStore \<Rightarrow> nat" where
  "rs_cap rs = nat (rsMax rs)"


lemma rs_keys_inj:
  "rs_ok rs \<Longrightarrow> i \<in> set (rsOrder rs) \<Longrightarrow> j \<in> set (rsOrder rs) \<Longrightarrow>
   reKey (rsHeap rs ! i) = reKey (rsHeap rs ! j) \<longleftrightarrow> i = j"
  unfolding rs_ok_def by (metis option.inject)

lemma rs_view_keys: "map fst (rs_view rs) = map (\<lambda>i. reKey (rsHeap rs ! i)) (rsOrder rs)"
  by (simp add: rs_view_def entry_def)

lemma rs_distinct_keys: "rs_ok rs \<Longrightarrow> distinct (map fst (rs_view rs))"
  unfolding rs_view_keys distinct_map inj_on_def by (auto simp: rs_keys_inj) (simp add: rs_ok_def)

lemma rs_entry_Some:
  "rs_ok rs \<Longrightarrow> rsEntries rs k = Some i \<longleftrightarrow> i \<in> set (rsOrder rs) \<and> reKey (rsHeap rs ! i) = k"
  by (simp add: rs_ok_def)

lemma rs_entry_None: "rs_ok rs \<Longrightarrow> rsEntries rs k = None \<longleftrightarrow> k \<notin> fst ` set (rs_view rs)"
proof -
  assume "rs_ok rs"
  then have "(\<exists>i. rsEntries rs k = Some i) \<longleftrightarrow> k \<in> set (map fst (rs_view rs))"
    by (auto simp: rs_view_keys rs_entry_Some)
  then show ?thesis by (cases "rsEntries rs k") auto
qed

lemma rs_view_get: "rs_ok rs \<Longrightarrow> rsEntries rs k = Some i \<Longrightarrow> map_of (rs_view rs) k = Some (reCliSessionID (rsHeap rs ! i))"
  using rs_distinct_keys [of rs] by (simp add: map_of_eq_Some_iff rs_entry_Some) (force simp: rs_view_def entry_def)

text \<open>Taking an element out of the list takes its key out of the view.\<close>

lemma rs_filter_order:
  assumes "rs_ok rs" "i \<in> set (rsOrder rs)"
  shows "filter (\<lambda>p. fst p \<noteq> reKey (rsHeap rs ! i)) (rs_view rs) = map (entry rs) (remove1 i (rsOrder rs))"
proof -
  have "filter (\<lambda>j. reKey (rsHeap rs ! j) \<noteq> reKey (rsHeap rs ! i)) (rsOrder rs) = filter (\<lambda>j. j \<noteq> i) (rsOrder rs)"
    using rs_keys_inj [OF assms(1) _ assms(2)] by (intro filter_cong) auto
  moreover have "remove1 i (rsOrder rs) = filter (\<lambda>j. j \<noteq> i) (rsOrder rs)"
    using assms(1) by (simp add: rs_ok_def distinct_remove1_removeAll removeAll_filter_not_eq neq_commute)
  ultimately show ?thesis by (simp add: rs_view_def filter_map comp_def entry_def)
qed

lemma rs_ok_MoveToFront:
  "rs_ok rs \<Longrightarrow> el \<in> set (rsOrder rs) \<Longrightarrow> rs_ok (MoveToFront el rs)"
  by (auto simp: rs_ok_def MoveToFront_def length_remove1 set_remove1_eq distinct_remove1)

lemma rs_view_MoveToFront:
  "rs_ok rs \<Longrightarrow> el \<in> set (rsOrder rs) \<Longrightarrow>
   rs_view (MoveToFront el rs) = entry rs el # filter (\<lambda>p. fst p \<noteq> reKey (rsHeap rs ! el)) (rs_view rs)"
  by (simp add: rs_filter_order) (simp add: rs_view_def MoveToFront_def entry_def)

lemma Get_view:
  assumes "rs_ok rs" "k \<noteq> []"
  shows "(rs_view (fst (Get k rs)), snd (Get k rs)) = lru_get k (rs_view rs)"
proof (cases "rsEntries rs k")
  case None
  then have "map_of (rs_view rs) k = None" using rs_entry_None [OF assms(1)] by (simp add: map_of_eq_None_iff)
  with None assms(2) show ?thesis by (simp add: Get_def lru_get_def)
next
  case (Some el)
  then have "el \<in> set (rsOrder rs)" "reKey (rsHeap rs ! el) = k" using rs_entry_Some [OF assms(1)] by simp_all
  with Some assms(2) rs_view_get [OF assms(1) Some] show ?thesis
    by (simp add: Get_def lru_get_def rs_view_MoveToFront [OF assms(1)] entry_def)
qed

lemma Get_ok: "rs_ok rs \<Longrightarrow> rs_ok (fst (Get k rs))"
  by (auto simp: Get_def rs_entry_Some intro: rs_ok_MoveToFront split: option.split)

lemma evict_fit: "int (length (rsOrder rs)) \<le> rsMax rs \<Longrightarrow> evict rs = rs"
  by (subst evict.simps) simp

text \<open>A store one element over its bound: everything but the bound holds.\<close>

definition rs_over :: "ResumeStore \<Rightarrow> bool" where
  "rs_over rs \<longleftrightarrow> 0 < rsMax rs \<and> int (length (rsOrder rs)) = rsMax rs + 1 \<and> rs_ok (rs\<lparr>rsMax := rsMax rs + 1\<rparr>)"

lemma evict_over:
  assumes "rs_over rs"
  shows "rs_ok (evict rs) \<and> rs_view (evict rs) = butlast (rs_view rs) \<and> rsMax (evict rs) = rsMax rs"
proof -
  let ?l = "last (rsOrder rs)"
  let ?rs = "rs\<lparr>rsOrder := butlast (rsOrder rs), rsEntries := (rsEntries rs)(reKey (rsHeap rs ! ?l) := None)\<rparr>"
  have ok: "rs_ok (rs\<lparr>rsMax := rsMax rs + 1\<rparr>)" using assms by (simp add: rs_over_def)
  have ne: "rsOrder rs \<noteq> []" using assms by (auto simp: rs_over_def)
  then have snoc: "rsOrder rs = butlast (rsOrder rs) @ [?l]" by simp
  have "distinct (butlast (rsOrder rs) @ [?l])" using ok snoc by (simp add: rs_ok_def)
  then have l: "?l \<notin> set (butlast (rsOrder rs))" by simp
  have "set (rsOrder rs) = insert ?l (set (butlast (rsOrder rs)))"
    by (subst snoc) simp
  moreover have "reKey (rsHeap rs ! i) \<noteq> reKey (rsHeap rs ! ?l)" if "i \<in> set (butlast (rsOrder rs))" for i
    using rs_keys_inj [OF ok, of i ?l] that l ne in_set_butlastD [OF that] by auto
  ultimately have "rs_ok ?rs"
    using ok assms l by (auto simp: rs_ok_def rs_over_def distinct_butlast dest: in_set_butlastD)
  moreover have "evict rs = ?rs"
    using assms ne evict_fit [of ?rs] by (subst evict.simps) (simp add: rs_over_def Let_def)
  moreover have "rs_view ?rs = butlast (rs_view rs)"
    by (simp add: rs_view_def map_butlast fun_eq_iff entry_def cong: map_cong)
  ultimately show ?thesis by simp
qed


lemma rs_view_heap_update:
  fixes rs :: ResumeStore and el :: nat and v :: gostring
  assumes "rs_ok rs" "el \<in> set (rsOrder rs)"
  defines "rs' \<equiv> rs\<lparr>rsHeap := (rsHeap rs)[el := (rsHeap rs ! el)\<lparr>reCliSessionID := v\<rparr>]\<rparr>"
  shows "rs_ok rs'" and "entry rs' el = (reKey (rsHeap rs ! el), v)"
    and "filter (\<lambda>p. fst p \<noteq> reKey (rsHeap rs ! el)) (rs_view rs') =
         filter (\<lambda>p. fst p \<noteq> reKey (rsHeap rs ! el)) (rs_view rs)"
proof -
  have key: "reKey (rsHeap rs' ! i) = reKey (rsHeap rs ! i)" if "i \<in> set (rsOrder rs)" for i
    using assms(1) that by (cases "i = el") (auto simp: rs'_def rs_ok_def)
  have el: "el < length (rsHeap rs)" using assms(1,2) by (auto simp: rs_ok_def)
  show ok: "rs_ok rs'"
    using assms(1) key unfolding rs_ok_def by (auto simp: rs'_def)
  show "entry rs' el = (reKey (rsHeap rs ! el), v)" using el by (simp add: rs'_def entry_def)
  have "entry rs' i = entry rs i" if "i \<noteq> el" for i using that by (simp add: rs'_def entry_def)
  then have "map (entry rs') (remove1 el (rsOrder rs)) = map (entry rs) (remove1 el (rsOrder rs))"
    using assms(1) by (intro map_cong refl) (auto simp: rs_ok_def)
  moreover have "rsOrder rs' = rsOrder rs" by (simp add: rs'_def)
  ultimately show "filter (\<lambda>p. fst p \<noteq> reKey (rsHeap rs ! el)) (rs_view rs') =
      filter (\<lambda>p. fst p \<noteq> reKey (rsHeap rs ! el)) (rs_view rs)"
    using rs_filter_order [OF ok, of el] rs_filter_order [OF assms(1,2)] key [OF assms(2)] assms(2) by simp
qed

lemma Put_existing:
  assumes "rs_ok rs" "k \<noteq> []" "v \<noteq> []" "rsEntries rs k = Some el"
  shows "rs_ok (Put k v rs) \<and> rs_view (Put k v rs) = lru_put (rs_cap rs) k v (rs_view rs) \<and> rsMax (Put k v rs) = rsMax rs"
proof -
  have el: "el \<in> set (rsOrder rs)" "reKey (rsHeap rs ! el) = k" using assms(1,4) by (simp_all add: rs_entry_Some)
  note upd = rs_view_heap_update [OF assms(1) el(1), of v, unfolded el(2)]
  let ?rs = "rs\<lparr>rsHeap := (rsHeap rs)[el := (rsHeap rs ! el)\<lparr>reCliSessionID := v\<rparr>]\<rparr>"
  have Put: "Put k v rs = MoveToFront el ?rs" using assms(2-4) by (simp add: Put_def)
  have el': "el \<in> set (rsOrder ?rs)" "reKey (rsHeap ?rs ! el) = k"
    using el upd(2) by (simp_all add: entry_def)
  have "length (filter (\<lambda>p. fst p \<noteq> k) (rs_view rs)) < length (rs_view rs)"
    using el by (intro length_filter_less [of "entry rs el"]) (auto simp: rs_view_def entry_def)
  moreover have "length (rs_view rs) \<le> rs_cap rs" using assms(1) by (auto simp: rs_view_def rs_ok_def rs_cap_def)
  ultimately have "lru_put (rs_cap rs) k v (rs_view rs) = (k, v) # filter (\<lambda>p. fst p \<noteq> k) (rs_view rs)"
    by (simp add: lru_put_def)
  then have "rs_view (MoveToFront el ?rs) = lru_put (rs_cap rs) k v (rs_view rs)"
    using rs_view_MoveToFront [OF upd(1) el'(1), unfolded el'(2)] upd(2,3) by simp
  moreover have "rsMax (MoveToFront el ?rs) = rsMax rs" by (simp add: MoveToFront_def)
  ultimately show ?thesis unfolding Put using rs_ok_MoveToFront [OF upd(1) el'(1)] by blast
qed

lemma rs_view_push:
  fixes rs :: ResumeStore and k v :: gostring
  assumes "rs_ok rs" "rsEntries rs k = None"
  defines "rs' \<equiv> rs\<lparr>rsHeap := rsHeap rs @ [\<lparr>reKey = k, reCliSessionID = v\<rparr>],
                rsOrder := length (rsHeap rs) # rsOrder rs, rsEntries := (rsEntries rs)(k \<mapsto> length (rsHeap rs))\<rparr>"
  shows "rs_view rs' = (k, v) # rs_view rs" and "rs_ok (rs'\<lparr>rsMax := rsMax rs + 1\<rparr>)"
proof -
  have lt: "i < length (rsHeap rs)" if "i \<in> set (rsOrder rs)" for i using assms(1) that by (simp add: rs_ok_def)
  have ent: "entry rs' i = entry rs i" if "i \<in> set (rsOrder rs)" for i
    using lt [OF that] by (simp add: rs'_def entry_def nth_append)
  then show "rs_view rs' = (k, v) # rs_view rs"
    by (simp add: rs_view_def) (simp add: rs'_def entry_def nth_append)
  have fresh: "reKey (rsHeap rs ! i) \<noteq> k" if "i \<in> set (rsOrder rs)" for i
    using rs_entry_Some [OF assms(1), of k i] that assms(2) by auto
  have "rsEntries rs' k' = Some i \<longleftrightarrow> i \<in> set (rsOrder rs') \<and> reKey (rsHeap rs' ! i) = k'" for k' i
    using rs_entry_Some [OF assms(1), of k' i] lt fresh assms(2)
    by (auto simp: rs'_def nth_append)
  moreover have "rsMax rs' = rsMax rs" "rsOrder rs' = length (rsHeap rs) # rsOrder rs"
      "length (rsHeap rs') = Suc (length (rsHeap rs))"
    by (simp_all add: rs'_def)
  ultimately show "rs_ok (rs'\<lparr>rsMax := rsMax rs + 1\<rparr>)"
    using assms(1) lt by (auto simp: rs_ok_def less_Suc_eq)
qed

lemma Put_fresh:
  assumes "rs_ok rs" "k \<noteq> []" "v \<noteq> []" "rsEntries rs k = None"
  shows "rs_ok (Put k v rs) \<and> rs_view (Put k v rs) = lru_put (rs_cap rs) k v (rs_view rs) \<and> rsMax (Put k v rs) = rsMax rs"
proof -
  let ?rs = "rs\<lparr>rsHeap := rsHeap rs @ [\<lparr>reKey = k, reCliSessionID = v\<rparr>],
                rsOrder := length (rsHeap rs) # rsOrder rs, rsEntries := (rsEntries rs)(k \<mapsto> length (rsHeap rs))\<rparr>"
  note push = rs_view_push [OF assms(1,4), of v]
  have Put: "Put k v rs = evict ?rs" using assms(2-4) by (simp add: Put_def Let_def)
  have "filter (\<lambda>p. fst p \<noteq> k) (rs_view rs) = rs_view rs"
    using rs_entry_None [OF assms(1), of k] assms(4) by (intro filter_True) (auto intro: rev_image_eqI)
  then have put: "lru_put (rs_cap rs) k v (rs_view rs) = take (rs_cap rs) (rs_view ?rs)"
    using push(1) by (simp add: lru_put_def)
  have len: "length (rs_view ?rs) = Suc (length (rsOrder rs))" using push(1) by (simp add: rs_view_def)
  show ?thesis
  proof (cases "int (length (rsOrder rs)) < rsMax rs")
    case True
    have "evict ?rs = ?rs" using True by (intro evict_fit) simp
    moreover have "rs_ok ?rs" using push(2) assms(1) True by (auto simp: rs_ok_def)
    moreover have "take (rs_cap rs) (rs_view ?rs) = rs_view ?rs" using True len by (simp add: rs_cap_def)
    ultimately show ?thesis unfolding Put put by simp
  next
    case False
    then have n: "int (length (rsOrder rs)) = rsMax rs" using assms(1) by (simp add: rs_ok_def)
    then have "rs_over ?rs" using push(2) assms(1) by (simp add: rs_over_def rs_ok_def)
    moreover have "take (rs_cap rs) (rs_view ?rs) = butlast (rs_view ?rs)"
      using n len by (simp add: rs_cap_def butlast_conv_take flip: n)
    ultimately show ?thesis unfolding Put put using evict_over [of ?rs] by simp
  qed
qed

lemma Put_refines:
  assumes "rs_ok rs" "k \<noteq> []" "v \<noteq> []"
  shows "rs_ok (Put k v rs) \<and> rs_view (Put k v rs) = lru_put (rs_cap rs) k v (rs_view rs) \<and> rsMax (Put k v rs) = rsMax rs"
  using Put_existing [OF assms] Put_fresh [OF assms] by (cases "rsEntries rs k") auto

lemma evict_rsMax: "rsMax (evict rs) = rsMax rs"
  by (induction rs rule: evict.induct) (subst evict.simps, simp add: Let_def)

lemma Put_rsMax: "rsMax (Put k v rs) = rsMax rs"
  by (simp add: Put_def MoveToFront_def Let_def evict_rsMax split: option.split)

interpretation lru: lru_store Get Put rs_ok rs_view rs_cap
proof
  fix rs :: ResumeStore and k v :: gostring
  show "Get [] rs = (rs, None)" by (simp add: Get_def)
  show "k = [] \<or> v = [] \<Longrightarrow> Put k v rs = rs" by (auto simp: Put_def)
  show "rs_ok rs \<Longrightarrow> rs_ok (fst (Get k rs))" by (rule Get_ok)
  show "rs_ok rs \<Longrightarrow> rs_ok (Put k v rs)"
    using Put_refines [of rs k v] by (cases "k = [] \<or> v = []") (auto simp: Put_def)
  show "rs_cap (fst (Get k rs)) = rs_cap rs" by (simp add: Get_def rs_cap_def MoveToFront_def split: option.split)
  show "rs_cap (Put k v rs) = rs_cap rs" by (simp add: rs_cap_def Put_rsMax)
  show "rs_ok rs \<Longrightarrow> k \<noteq> [] \<Longrightarrow> (rs_view (fst (Get k rs)), snd (Get k rs)) = lru_get k (rs_view rs)" by (rule Get_view)
  show "rs_ok rs \<Longrightarrow> k \<noteq> [] \<Longrightarrow> v \<noteq> [] \<Longrightarrow> rs_view (Put k v rs) = lru_put (rs_cap rs) k v (rs_view rs)"
    by (simp add: Put_refines)
  show "rs_ok rs \<Longrightarrow> distinct (map fst (rs_view rs))" by (rule rs_distinct_keys)
  show "rs_ok rs \<Longrightarrow> 0 < rs_cap rs" by (simp add: rs_ok_def rs_cap_def)
qed

lemma NewResumeStore_ok: "rs_ok (NewResumeStore m)"
  by (simp add: NewResumeStore_def rs_ok_def)

definition abs_get :: "gostring \<Rightarrow> (gostring \<times> gostring) list \<Rightarrow> (gostring \<times> gostring) list \<times> gostring option" where
  "abs_get k xs = (if k = [] then (xs, None) else lru_get k xs)"

definition abs_put :: "nat \<Rightarrow> gostring \<Rightarrow> gostring \<Rightarrow> (gostring \<times> gostring) list \<Rightarrow> (gostring \<times> gostring) list" where
  "abs_put n k v xs = (if k = [] \<or> v = [] then xs else lru_put n k v xs)"

lemma Get_refines: "rs_ok rs \<Longrightarrow> rs_view (fst (Get k rs)) = fst (abs_get k (rs_view rs)) \<and> snd (Get k rs) = snd (abs_get k (rs_view rs))"
  using Get_view [of rs k] by (cases "k = []") (auto simp: abs_get_def lru.get_empty prod_eq_iff)

lemma lru_run_refines:
  "rs_ok rs \<Longrightarrow> rs_ok (lru_run Get Put ops rs) \<and> rsMax (lru_run Get Put ops rs) = rsMax rs \<and>
   rs_view (lru_run Get Put ops rs) = lru_run abs_get (abs_put (rs_cap rs)) ops (rs_view rs)"
proof (induction ops arbitrary: rs)
  case (Cons x ops)
  show ?case
  proof (cases x)
    case (OGet k)
    have "rsMax (fst (Get k rs)) = rsMax rs" by (simp add: Get_def MoveToFront_def split: option.split)
    with Cons.IH [OF Get_ok [OF Cons.prems], of k] Get_refines [OF Cons.prems, of k] OGet
    show ?thesis by (simp add: rs_cap_def)
  next
    case (OPut k v)
    have "rs_view (Put k v rs) = abs_put (rs_cap rs) k v (rs_view rs)"
      using Put_refines [OF Cons.prems, of k v] by (simp add: abs_put_def lru.put_empty)
    with Cons.IH [OF lru.ok_put [OF Cons.prems], of k v] OPut
    show ?thesis by (simp add: rs_cap_def Put_rsMax)
  qed
qed simp

section \<open>Properties of the store\<close>

text \<open>C16: After any sequence of lookups and stores the map, the linked list and the entries are exactly the
  abstract most-recently-used list of the same operations: lookups answer as it does, its order is
  the eviction order, and it never holds more entries than the bound (32 when none is given).\<close>

theorem resume_store_is_lru:
  "rs_view (lru_run Get Put ops (NewResumeStore m)) =
     lru_run abs_get (abs_put (nat (if m \<le> 0 then 32 else m))) ops [] \<and>
   snd (Get k (lru_run Get Put ops (NewResumeStore m))) =
     snd (abs_get k (lru_run abs_get (abs_put (nat (if m \<le> 0 then 32 else m))) ops [])) \<and>
   int (Len (lru_run Get Put ops (NewResumeStore m))) \<le> (if m \<le> 0 then 32 else m)"
proof -
  let ?s = "lru_run Get Put ops (NewResumeStore m)"
  have new: "rs_view (NewResumeStore m) = []" "rsMax (NewResumeStore m) = (if m \<le> 0 then 32 else m)"
    by (simp_all add: NewResumeStore_def rs_view_def Let_def)
  have r: "rs_ok ?s" "rsMax ?s = rsMax (NewResumeStore m)"
      "rs_view ?s = lru_run abs_get (abs_put (rs_cap (NewResumeStore m))) ops []"
    using lru_run_refines [OF NewResumeStore_ok, of ops m] new(1) by simp_all
  have "int (Len ?s) \<le> rsMax ?s" using r(1) by (simp add: rs_ok_def Len_def)
  with r new(2) Get_refines [OF r(1), of k] show ?thesis by (simp add: rs_cap_def)
qed

text \<open>A stored session id is still found after other requests as long as fewer distinct other keys than
  the bound have been looked up or stored since, however many requests there were.\<close>

theorem resume_entry_retained:
  assumes "rs_ok rs" and "k \<noteq> []" and "v \<noteq> []"
    and "list_all (\<lambda>x. touched x \<noteq> k) ops" and "card (touched ` set ops) < nat (rsMax rs)"
  shows "snd (Get k (lru_run Get Put ops (Put k v rs))) = Some v"
proof -
  have "card (touched ` set ops - {k}) \<le> card (touched ` set ops)" by (intro card_mono) auto
  moreover have "list_all (\<lambda>x. \<forall>w. x \<noteq> OPut k w) ops" using assms(4) by (auto simp: list_all_iff)
  ultimately show ?thesis using lru.retained [OF assms(1-3)] assms(5) by (simp add: rs_cap_def)
qed

theorem resume_entry_retained_witness:
  "snd (Get ''k'' (lru_run Get Put [OPut ''a'' ''1'', OGet ''a''] (Put ''k'' ''v'' (NewResumeStore 2)))) = Some ''v''"
  by (rule resume_entry_retained [OF NewResumeStore_ok]) (simp_all add: NewResumeStore_def)

section \<open>Splitting a request\<close>

lemma lastAssistant_snoc:
  "lastAssistant (ms @ [m]) = (if omRole m = ''assistant'' then int (length ms) else lastAssistant ms)"
  by (simp add: lastAssistant_def enumerate_append_eq)

lemma lastAssistant_spec:
  "lastAssistant ms = - 1 \<or>
   (\<exists>i. lastAssistant ms = int i \<and> i < length ms \<and> omRole (ms ! i) = ''assistant'')"
proof (induction ms rule: rev_induct)
  case Nil
  show ?case by (simp add: lastAssistant_def)
next
  case (snoc m ms)
  then show ?case by (auto simp: lastAssistant_snoc)
qed

lemma lastAssistant_append:
  "omRole a = ''assistant'' \<Longrightarrow> list_all (\<lambda>m. omRole m \<noteq> ''assistant'') new \<Longrightarrow>
   lastAssistant (ms @ a # new) = int (length ms)"
proof (induction new rule: rev_induct)
  case Nil
  then show ?case by (simp add: lastAssistant_snoc)
next
  case (snoc x xs)
  then show ?case using lastAssistant_snoc [of "ms @ a # xs" x] by simp
qed

lemma userTexts_roles: "userTexts ms = Some ts \<Longrightarrow> list_all (\<lambda>m. omRole m = ''user'') ms"
  by (induction ms arbitrary: ts) (auto split: if_splits sum.splits option.splits)

lemma splitResumeTurn_intro:
  assumes "omRole a = ''assistant''" "new \<noteq> []" "userTexts new = Some parts" "joinNonEmpty parts nl2 \<noteq> []"
  shows "splitResumeTurn (ms @ a # new) = Some (ms @ [a], joinNonEmpty parts nl2)"
proof -
  have "list_all (\<lambda>m. omRole m \<noteq> ''assistant'') new"
    using userTexts_roles [OF assms(3)] by (auto simp: list_all_iff)
  from lastAssistant_append [OF assms(1) this] have "lastAssistant (ms @ a # new) = int (length ms)" .
  with assms show ?thesis by (simp add: splitResumeTurn_def Let_def)
qed

text \<open>A request can be resumed exactly when it is some history ending in an assistant reply followed by
  user messages only, with some text among them: the split returns that history and those texts.\<close>

theorem splitResumeTurn_iff:
  "splitResumeTurn ms = Some (prefix, text) \<longleftrightarrow>
     (\<exists>hist a new parts. prefix = hist @ [a] \<and> ms = prefix @ new \<and> omRole a = ''assistant'' \<and> new \<noteq> [] \<and>
        userTexts new = Some parts \<and> text = joinNonEmpty parts nl2 \<and> text \<noteq> [])"
proof
  assume h: "splitResumeTurn ms = Some (prefix, text)"
  then obtain i where i: "lastAssistant ms = int i" "i < length ms" "omRole (ms ! i) = ''assistant''"
    using lastAssistant_spec [of ms] by (auto simp: splitResumeTurn_def)
  then have "take (Suc i) ms = take i ms @ [ms ! i]" by (simp add: take_Suc_conv_app_nth)
  moreover have "ms = take (Suc i) ms @ drop (Suc i) ms" by simp
  ultimately show "\<exists>hist a new parts. prefix = hist @ [a] \<and> ms = prefix @ new \<and> omRole a = ''assistant'' \<and> new \<noteq> [] \<and>
        userTexts new = Some parts \<and> text = joinNonEmpty parts nl2 \<and> text \<noteq> []"
    using h i by (intro exI [of _ "take i ms"] exI [of _ "ms ! i"] exI [of _ "drop (Suc i) ms"])
      (auto simp: splitResumeTurn_def Let_def split: if_splits option.splits)
next
  assume "\<exists>hist a new parts. prefix = hist @ [a] \<and> ms = prefix @ new \<and> omRole a = ''assistant'' \<and> new \<noteq> [] \<and>
        userTexts new = Some parts \<and> text = joinNonEmpty parts nl2 \<and> text \<noteq> []"
  then show "splitResumeTurn ms = Some (prefix, text)"
    using splitResumeTurn_intro by auto
qed

section \<open>From one turn to the next\<close>

lemma hex_bytes_ne: "bs \<noteq> [] \<Longrightarrow> hex_bytes bs \<noteq> []"
  using length_hex_bytes [of bs] by (metis length_0_conv mult_eq_0_iff zero_neq_numeral)

lemma hashedTurns_resumable: "isResumableConversation ms \<Longrightarrow> \<exists>ts. hashedTurns ms = Some ts"
  by (induction ms) (auto simp: isResumableConversation_def split: sum.split)

lemma resumable_append: "isResumableConversation (ms @ ns) \<longleftrightarrow> isResumableConversation ms \<and> isResumableConversation ns"
  by (simp add: isResumableConversation_def)

lemma reply_resumable: "isResumableConversation [assistant_reply t]"
  by (simp add: isResumableConversation_def assistant_reply_def textOf_def)

lemma fingerprint_ne:
  "(\<And>x. sha256 x \<noteq> []) \<Longrightarrow> isResumableConversation ms \<Longrightarrow> resumeFingerprint sha256 ms model effort \<noteq> []"
  using hashedTurns_resumable [of ms] by (auto simp: resumeFingerprint_def hex_bytes_ne)

text \<open>C9: Continuity end to end: a turn that answered with a CLI session id is stored, and the client's next
  request, the same history with that reply and new user messages, resumes that very session with
  only the new text as its prompt, unless as many other conversations as the bound came between.\<close>

theorem next_turn_resumes:
  assumes "\<And>x. length (sha256 x) = 32"
    and "rs_ok rs" and "isResumableConversation ms" and "cmCLISessionID c \<noteq> []"
    and "recordResumableSession sha256 ms model effort (Some c) (Some rs) = Some rs'"
    and "new \<noteq> []" and "isResumableConversation new" and "userTexts new = Some parts" and "joinNonEmpty parts nl2 \<noteq> []"
    and "list_all (\<lambda>x. touched x \<noteq> resumeFingerprint sha256 (ms @ [assistant_reply (cmText c)]) model effort) ops"
    and "card (touched ` set ops) < nat (rsMax rs)"
  shows "snd (planResumeTurn sha256 (ms @ assistant_reply (cmText c) # new) model effort (Some (lru_run Get Put ops rs'))) =
    \<lparr>rtPersist = True, rtHit = True, rtCliSessionID = cmCLISessionID c,
     rtSystemPrompt = systemPromptOf (ms @ assistant_reply (cmText c) # new), rtPrompt = joinNonEmpty parts nl2\<rparr>"
proof -
  let ?reply = "assistant_reply (cmText c)"
  let ?k = "resumeFingerprint sha256 (ms @ [?reply]) model effort"
  have "sha256 x \<noteq> []" for x using assms(1) [of x] by auto
  then have k: "?k \<noteq> []" using assms(3) by (intro fingerprint_ne) (auto simp: resumable_append reply_resumable)
  have rs': "rs' = Put ?k (cmCLISessionID c) rs"
    using assms(3,4,5) by (simp add: recordResumableSession_def Let_def)
  have "list_all (\<lambda>x. \<forall>w. x \<noteq> OPut ?k w) ops" using assms(10) by (auto simp: list_all_iff)
  moreover have "card (touched ` set ops - {?k}) < rs_cap rs"
    using assms(11) card_mono [of "touched ` set ops" "touched ` set ops - {?k}"] by (auto simp: rs_cap_def)
  ultimately have "snd (Get ?k (lru_run Get Put ops rs')) = Some (cmCLISessionID c)"
    unfolding rs' by (rule lru.retained [OF assms(2) k assms(4)])
  moreover have "splitResumeTurn (ms @ ?reply # new) = Some (ms @ [?reply], joinNonEmpty parts nl2)"
    by (rule splitResumeTurn_intro) (use assms in \<open>simp_all add: assistant_reply_def\<close>)
  moreover have "isResumableConversation (ms @ ?reply # new)"
    using assms(3,7) resumable_append [of ms "?reply # new"] resumable_append [of "[?reply]" new] reply_resumable by simp
  ultimately show ?thesis
    by (cases "Get ?k (lru_run Get Put ops rs')") (simp add: planResumeTurn_def noResume_def)
qed

abbreviation sample_completion :: "nat Completion" where
  "sample_completion \<equiv> \<lparr>cmText = ''b'', cmReasoningText = [], cmModel = [], cmStopReason = None,
     cmUsage = \<lparr>usInputTokens = 0, usOutputTokens = 0, usCacheReadInputTokens = 0, usCacheCreationInputTokens = 0\<rparr>,
     cmCostUSD = None, cmCLISessionID = ''s''\<rparr>"

theorem next_turn_resumes_witness:
  "\<exists>rs'. recordResumableSession (\<lambda>_. replicate 32 0) [user_msg ''a''] [] [] (Some sample_completion) (Some (NewResumeStore 1)) = Some rs' \<and>
     rtCliSessionID (snd (planResumeTurn (\<lambda>_. replicate 32 0)
       ([user_msg ''a''] @ assistant_reply (cmText sample_completion) # [user_msg ''c'']) [] [] (Some rs'))) = ''s''"
proof -
  have r: "isResumableConversation [user_msg x]" for x
    by (simp add: isResumableConversation_def textOf_def)
  have s: "recordResumableSession (\<lambda>_. replicate 32 0) [user_msg ''a''] [] [] (Some sample_completion) (Some (NewResumeStore 1)) =
      Some (Put (resumeFingerprint (\<lambda>_. replicate 32 0) ([user_msg ''a''] @ [assistant_reply ''b'']) [] []) ''s'' (NewResumeStore 1))"
    by (simp add: recordResumableSession_def r)
  have "snd (planResumeTurn (\<lambda>_. replicate 32 0) ([user_msg ''a''] @ assistant_reply (cmText sample_completion) # [user_msg ''c''])
      [] [] (Some (lru_run Get Put [] (Put (resumeFingerprint (\<lambda>_. replicate 32 0) ([user_msg ''a''] @ [assistant_reply ''b'']) [] []) ''s'' (NewResumeStore 1))))) =
    \<lparr>rtPersist = True, rtHit = True, rtCliSessionID = cmCLISessionID sample_completion,
     rtSystemPrompt = systemPromptOf ([user_msg ''a''] @ assistant_reply (cmText sample_completion) # [user_msg ''c'']),
     rtPrompt = joinNonEmpty [''c''] nl2\<rparr>"
    by (rule next_turn_resumes [OF _ NewResumeStore_ok r _ s _ r])
      (simp_all add: textOf_def joinNonEmpty_def NewResumeStore_def)
  with s show ?thesis by simp
qed

section \<open>What a fingerprint identifies\<close>

definition turn_json :: "gostring \<times> gostring \<Rightarrow> gostring" where
  "turn_json t = Marshal (JObject [(''role'', JString (fst t)), (''content'', JString (snd t))])"

lemma turn_json_inj:
  assumes "turn_json t @ x = turn_json t' @ x'"
    and "valid_utf8 (fst t)" "valid_utf8 (snd t)" "valid_utf8 (fst t')" "valid_utf8 (snd t')"
  shows "t = t' \<and> x = x'"
proof -
  let ?q = "\<lambda>s. quote s"
  have e: "turn_json u @ y = ''{'' @ ?q ''role'' @ '':'' @ ?q (fst u) @ '','' @ ?q ''content'' @ '':'' @ ?q (snd u) @ ''}'' @ y" for u y
    by (simp add: turn_json_def)
  from assms(1) have "?q (fst t) @ '','' @ ?q ''content'' @ '':'' @ ?q (snd t) @ ''}'' @ x =
      ?q (fst t') @ '','' @ ?q ''content'' @ '':'' @ ?q (snd t') @ ''}'' @ x'"
    unfolding e by (simp only: same_append_eq)
  from quote_inj [OF assms(2,4) this] have f: "fst t = fst t'"
      and "?q (snd t) @ ''}'' @ x = ?q (snd t') @ ''}'' @ x'"
    by (simp_all only: same_append_eq)
  from quote_inj [OF assms(3,5) this(2)] f show ?thesis by (simp add: prod_eq_iff)
qed

definition valid_turns :: "(gostring \<times> gostring) list \<Rightarrow> bool" where
  "valid_turns ts = list_all (\<lambda>t. valid_utf8 (fst t) \<and> valid_utf8 (snd t)) ts"

lemma turn_json_hd: "\<exists>r. turn_json t = CHR ''{'' # r"
  by (simp add: turn_json_def)

lemma turns_json_inj:
  "Join (map turn_json ts) '','' @ '']'' @ x = Join (map turn_json us) '','' @ '']'' @ x \<Longrightarrow>
   valid_turns ts \<Longrightarrow> valid_turns us \<Longrightarrow> ts = us"
proof (induction ts arbitrary: us)
  case Nil
  then show ?case
  proof (cases us)
    case (Cons u us')
    then obtain r where "Join (map turn_json us) '','' = CHR ''{'' # r"
      using turn_json_hd [of u] by (cases "map turn_json us'") auto
    with Nil show ?thesis by simp
  qed simp
next
  case (Cons t ts)
  show ?case
  proof (cases us)
    case Nil
    then obtain r where "Join (map turn_json (t # ts)) '','' = CHR ''{'' # r"
      using turn_json_hd [of t] by (cases "map turn_json ts") auto
    with Cons.prems(1) Nil show ?thesis by simp
  next
    case us: (Cons u us')
    let ?rest = "\<lambda>vs. (if vs = [] then [] else '','' @ Join (map turn_json vs) '','') @ '']'' @ x"
    have e: "Join (map turn_json (v # vs)) '','' @ '']'' @ x = turn_json v @ ?rest vs" for v vs
      by (cases vs) auto
    from Cons.prems us have "turn_json t @ ?rest ts = turn_json u @ ?rest us'" by (simp only: e)
    from turn_json_inj [OF this] Cons.prems(2,3) us have tu: "t = u" and r: "?rest ts = ?rest us'"
      by (auto simp: valid_turns_def)
    have "ts = us'"
    proof (cases "ts = [] \<or> us' = []")
      case True
      with r show ?thesis by (auto split: if_splits)
    next
      case False
      with r have "Join (map turn_json ts) '','' @ '']'' @ x = Join (map turn_json us') '','' @ '']'' @ x" by simp
      from Cons.IH [OF this] Cons.prems(2,3) us show ?thesis by (simp add: valid_turns_def)
    qed
    with tu us show ?thesis by simp
  qed
qed

lemma payload_inj:
  assumes "fingerprint_payload model effort ts = fingerprint_payload model' effort' us"
    and "valid_utf8 model" "valid_utf8 effort" "valid_utf8 model'" "valid_utf8 effort'" "valid_turns ts" "valid_turns us"
  shows "model = model' \<and> effort = effort' \<and> ts = us"
proof -
  let ?q = "\<lambda>s. quote s"
  have m: "map Marshal (map (\<lambda>(role, text). JObject [(''role'', JString role), (''content'', JString text)]) vs) = map turn_json vs" for vs
    by (auto simp: turn_json_def)
  have e: "fingerprint_payload mo ef vs = ''{'' @ ?q ''model'' @ '':'' @ ?q mo @ '','' @ ?q ''effort'' @ '':'' @ ?q ef @
      '','' @ ?q ''turns'' @ '':['' @ Join (map turn_json vs) '','' @ '']'' @ ''}''" for mo ef vs
    by (simp add: fingerprint_payload_def m del: map_map)
  from assms(1) have "?q model @ '','' @ ?q ''effort'' @ '':'' @ ?q effort @ '','' @ ?q ''turns'' @ '':['' @ Join (map turn_json ts) '','' @ '']'' @ ''}'' =
      ?q model' @ '','' @ ?q ''effort'' @ '':'' @ ?q effort' @ '','' @ ?q ''turns'' @ '':['' @ Join (map turn_json us) '','' @ '']'' @ ''}''"
    unfolding e by (simp only: same_append_eq)
  from quote_inj [OF assms(2,4) this] have mm: "model = model'"
      and "?q effort @ '','' @ ?q ''turns'' @ '':['' @ Join (map turn_json ts) '','' @ '']'' @ ''}'' =
        ?q effort' @ '','' @ ?q ''turns'' @ '':['' @ Join (map turn_json us) '','' @ '']'' @ ''}''"
    by (simp_all only: same_append_eq)
  from quote_inj [OF assms(3,5) this(2)] have ee: "effort = effort'"
      and "Join (map turn_json ts) '','' @ '']'' @ ''}'' = Join (map turn_json us) '','' @ '']'' @ ''}''"
    by (simp_all only: same_append_eq)
  from turns_json_inj [OF this(2) assms(6,7)] mm ee show ?thesis by simp
qed

text \<open>C28: A fingerprint stands for one conversation: it is the SHA-256 digest, in hexadecimal, of a text that determines
  the model, the effort and every role and text of the history. Two fingerprints are equal exactly when
  the digests of these two texts are, and the texts differ whenever anything in the conversation does. So a
  hit on another conversation's session is a collision of these two very texts.\<close>

theorem fingerprint_identifies:
  assumes "hashedTurns ms = Some ts" and "hashedTurns ns = Some us" and "valid_turns ts" and "valid_turns us"
    and "valid_utf8 model" and "valid_utf8 effort" and "valid_utf8 model'" and "valid_utf8 effort'"
  shows "(resumeFingerprint sha256 ms model effort = resumeFingerprint sha256 ns model' effort' \<longleftrightarrow>
            sha256 (fingerprint_payload model effort ts) = sha256 (fingerprint_payload model' effort' us)) \<and>
         (fingerprint_payload model effort ts = fingerprint_payload model' effort' us \<longleftrightarrow>
            model = model' \<and> effort = effort' \<and> ts = us)"
  using payload_inj [of model effort ts model' effort' us] assms by (auto simp: resumeFingerprint_def intro: hex_bytes_inj)

lemma ascii_valid: "list_all (\<lambda>c. code c < 128) s \<Longrightarrow> valid_utf8 s"
proof (induction s)
  case (Cons c s)
  then have "rune_len (c # s) = 1" by (simp add: rune_len_def)
  with Cons show ?case by (subst valid_utf8.simps) simp
qed simp

text \<open>The effort is part of the text; even with a digest of 32 bytes that tells no more than the text's length, two
  requests that differ in it have different fingerprints.\<close>

theorem fingerprint_identifies_witness:
  "fingerprint_payload ''m'' [] [(''user'', ''a'')] \<noteq> fingerprint_payload ''m'' ''high'' [(''user'', ''a'')] \<and>
   resumeFingerprint (\<lambda>t. replicate 32 (of_nat (length t))) [user_msg ''a''] ''m'' [] \<noteq>
   resumeFingerprint (\<lambda>t. replicate 32 (of_nat (length t))) [user_msg ''a''] ''m'' ''high''"
proof -
  let ?sha = "\<lambda>t :: gostring. replicate 32 (of_nat (length t)) :: bytes"
  have h: "hashedTurns [user_msg ''a''] = Some [(''user'', ''a'')]" by (simp add: textOf_def)
  have v: "valid_turns [(''user'', ''a'')]" "valid_utf8 ''m''" "valid_utf8 []" "valid_utf8 ''high''"
    by (simp_all add: valid_turns_def ascii_valid)
  note claim = fingerprint_identifies [OF h h v(1,1,2,3,2,4), of ?sha]
  have "?sha (fingerprint_payload ''m'' [] [(''user'', ''a'')]) \<noteq> ?sha (fingerprint_payload ''m'' ''high'' [(''user'', ''a'')])"
    by code_simp
  with claim show ?thesis by simp
qed

section \<open>The system prompt of a resumed turn\<close>

lemma joinNonEmpty_fold: "list_all (\<lambda>p. p \<noteq> []) ps \<Longrightarrow> acc \<noteq> [] \<Longrightarrow>
   fold (\<lambda>p out. if p = [] then out else (if out \<noteq> [] then out @ sep else out) @ p) ps acc =
   (if ps = [] then acc else acc @ sep @ Join ps sep)"
  by (induction ps arbitrary: acc) (auto simp: Join_Cons)

lemma joinNonEmpty_Join: "list_all (\<lambda>p. p \<noteq> []) ps \<Longrightarrow> joinNonEmpty ps sep = Join ps sep"
  by (cases ps) (auto simp: joinNonEmpty_def joinNonEmpty_fold Join_Cons)

lemma systemParts_eq:
  "list_all acceptable ms \<Longrightarrow> systemParts ms = Some (map text_of (filter isSystem ms))"
  by (induction ms) (auto simp: acceptable_def isSystem_def split: sum.split)

text \<open>A resumed turn runs under the system prompt a replayed one would, transcript instructions aside,
  when no system message is empty.\<close>

theorem resumed_system_prompt:
  assumes "list_all acceptable ms" and "list_all (\<lambda>m. isSystem m \<longrightarrow> text_of m \<noteq> []) ms"
  shows "systemPromptOf ms = system_of ms"
proof -
  have "list_all (\<lambda>p. p \<noteq> []) (map text_of (filter isSystem ms))" using assms(2) by (auto simp: list_all_iff)
  from joinNonEmpty_Join [OF this] show ?thesis
    by (simp add: systemPromptOf_def systemParts_eq [OF assms(1)] system_of_def)
qed

abbreviation system_msg :: "gostring \<Rightarrow> OpenAIMessage" where
  "system_msg s \<equiv> \<lparr>omRole = ''system'', omContent = JString s, omToolCallID = [], omToolCalls = []\<rparr>"

theorem resumed_system_prompt_witness: "systemPromptOf [system_msg ''a'', system_msg ''b''] = system_of [system_msg ''a'', system_msg ''b'']"
  by (rule resumed_system_prompt) (simp_all add: acceptable_def isSystem_def text_of_def textOf_def)

text \<open>With an empty one the two differ: the replayed prompt keeps the separator, the resumed one drops it.\<close>

lemma resumed_system_prompt_differs:
  "systemPromptOf [system_msg [], system_msg ''a''] \<noteq> system_of [system_msg [], system_msg ''a'']"
  by (simp add: systemPromptOf_def textOf_def joinNonEmpty_def system_of_def isSystem_def text_of_def nl2_def)

end
