(* ===== verification/Semaphore.thy ===== *)
theory Semaphore
  imports Prelude
begin

text \<open>
  The slot semaphore of the gateway (\<open>internal/gateway/server.go\<close>, lines 47 to 94). An
  \<open>Acquire\<close> has two parts with other goroutines in between: a critical section that takes a
  permit or queues a fresh channel, and a \<open>select\<close> on that channel and the caller's context. The
  channel is unbuffered, so \<open>Release\<close> reaches a queued caller only when that caller is already
  parked in its \<open>select\<close>; otherwise the \<open>default\<close> branch is taken.

  Every call of \<open>Acquire\<close> is named by its position in \<open>smCalls\<close>, and so is its channel.
\<close>

section \<open>The code\<close>

datatype phase =
    Queued     \<comment> \<open>its channel is in the queue, its \<open>select\<close> has not been reached\<close>
  | Parked     \<comment> \<open>blocked in the \<open>select\<close>\<close>
  | Holding    \<comment> \<open>\<open>Acquire\<close> returned nil\<close>
  | Cancelled  \<comment> \<open>\<open>Acquire\<close> returned the context's error\<close>
  | Released   \<comment> \<open>the permit was given back\<close>

record Semaphore =
  smAvailable :: int
  smWaiters :: "nat list"
  smCalls :: "phase list"

definition NewSemaphore :: "int \<Rightarrow> Semaphore" where
  "NewSemaphore sz =
     (let sz = (if sz < 1 then 1 else sz)
      in \<lparr>smAvailable = sz, smWaiters = [], smCalls = []\<rparr>)"

definition Acquire_enter :: "Semaphore \<Rightarrow> Semaphore" where
  "Acquire_enter s =
     (if smAvailable s > 0 then
        s\<lparr>smAvailable := smAvailable s - 1, smCalls := smCalls s @ [Holding]\<rparr>
      else s\<lparr>smWaiters := smWaiters s @ [length (smCalls s)], smCalls := smCalls s @ [Queued]\<rparr>)"

definition setPhase :: "nat \<Rightarrow> phase \<Rightarrow> Semaphore \<Rightarrow> Semaphore" where
  "setPhase i p s = s\<lparr>smCalls := (smCalls s)[i := p]\<rparr>"

text \<open>The \<open>select\<close>: with the context done it returns, otherwise the caller parks.\<close>

definition Acquire_select :: "bool \<Rightarrow> nat \<Rightarrow> Semaphore \<Rightarrow> Semaphore" where
  "Acquire_select ctxDone i s = setPhase i (if ctxDone then Cancelled else Parked) s"

definition Release :: "Semaphore \<Rightarrow> Semaphore" where
  "Release s =
     (case smWaiters s of
        ch # rest \<Rightarrow>
          let s' = s\<lparr>smWaiters := rest\<rparr>
          in if smCalls s ! ch = Parked then setPhase ch Holding s' else s'
      | [] \<Rightarrow> s\<lparr>smAvailable := smAvailable s + 1\<rparr>)"

text \<open>
  A whole call, as a handler sees it: what the other goroutines do before the caller reaches its
  \<open>select\<close>, whether its context is done by then, and what they do while it is parked. It has the position of the
  call, and whether a slot was got; a caller that is still parked at the end is blocked. \<open>with_slot\<close> is
  \<open>Acquire\<close>, an early return when it fails, and otherwise the work with a deferred \<open>Release\<close>.
\<close>

record slot_env =
  slBefore :: "Semaphore \<Rightarrow> Semaphore"
  slCtxDone :: bool
  slParked :: "Semaphore \<Rightarrow> Semaphore"
  slHeld :: "Semaphore \<Rightarrow> Semaphore"

definition Acquire :: "slot_env \<Rightarrow> Semaphore \<Rightarrow> (Semaphore \<times> nat \<times> bool) outcome" where
  "Acquire env s =
     (let i = length (smCalls s); s1 = Acquire_enter s in
      if smCalls s1 ! i = Holding then Done (s1, i, True)
      else
        let s2 = slParked env (Acquire_select (slCtxDone env) i (slBefore env s1))
        in (case smCalls s2 ! i of
              Holding \<Rightarrow> Done (s2, i, True)
            | Cancelled \<Rightarrow> Done (s2, i, False)
            | _ \<Rightarrow> Blocked))"

definition Release_call :: "nat \<Rightarrow> Semaphore \<Rightarrow> Semaphore" where
  "Release_call i s = Release (setPhase i Released s)"

definition with_slot :: "slot_env \<Rightarrow> Semaphore \<Rightarrow> 'r outcome \<Rightarrow> (Semaphore \<times> 'r option) outcome" where
  "with_slot env s work =
     bind_outcome (Acquire env s) (\<lambda>(s1, i, ok).
       if ok then bind_outcome work (\<lambda>r. Done (Release_call i (slHeld env s1), Some r))
       else Done (s1, None))"

lemma with_slot_Some: "with_slot env s work = Done (s', Some r) \<Longrightarrow> work = Done r"
  by (auto simp: with_slot_def outcome_simps split: if_splits)

lemma Acquire_no_panic: "Acquire env s \<noteq> Panic"
  by (auto simp: Acquire_def Let_def split: phase.split)

lemma with_slot_stuck:
  "with_slot env s work = Panic \<Longrightarrow> work = Panic"
  "with_slot env s work = Blocked \<Longrightarrow> Acquire env s = Blocked \<or> work = Blocked"
  using Acquire_no_panic [of env s] by (cases "Acquire env s"; cases work; auto simp: with_slot_def split: if_splits)+

text \<open>
  The goroutines around it: every holder releases once (\<open>defer s.slots.Release()\<close>), and a parked
  caller's context may be cancelled at any time.
\<close>

inductive sem_step :: "Semaphore \<Rightarrow> Semaphore \<Rightarrow> bool" where
  enter: "sem_step s (Acquire_enter s)"
| select: "i < length (smCalls s) \<Longrightarrow> smCalls s ! i = Queued \<Longrightarrow> sem_step s (Acquire_select ctxDone i s)"
| cancel: "i < length (smCalls s) \<Longrightarrow> smCalls s ! i = Parked \<Longrightarrow> sem_step s (setPhase i Cancelled s)"
| release: "i < length (smCalls s) \<Longrightarrow> smCalls s ! i = Holding \<Longrightarrow> sem_step s (Release (setPhase i Released s))"

section \<open>The permits and the queue\<close>

definition holders :: "Semaphore \<Rightarrow> nat" where
  "holders s = length (filter (\<lambda>p. p = Holding) (smCalls s))"

definition permits :: "Semaphore \<Rightarrow> int" where
  "permits s = int (holders s) + smAvailable s"

definition sem_inv :: "int \<Rightarrow> Semaphore \<Rightarrow> bool" where
  "sem_inv sz s \<longleftrightarrow>
     permits s \<le> sz \<and> 0 \<le> smAvailable s \<and> (smAvailable s = 0 \<or> smWaiters s = []) \<and>
     sorted_wrt (<) (smWaiters s) \<and>
     (\<forall>i \<in> set (smWaiters s). i < length (smCalls s) \<and> smCalls s ! i \<in> {Queued, Parked, Cancelled})"

lemma filter_update:
  "i < length xs \<Longrightarrow>
   int (length (filter P (xs[i := x]))) = int (length (filter P xs)) - of_bool (P (xs ! i)) + of_bool (P x)"
proof (induction xs arbitrary: i)
  case (Cons y ys)
  then show ?case by (cases i) auto
qed simp

lemma holders_setPhase:
  "i < length (smCalls s) \<Longrightarrow>
   int (holders (setPhase i p s)) = int (holders s) - of_bool (smCalls s ! i = Holding) + of_bool (p = Holding)"
  by (simp add: holders_def setPhase_def filter_update)

lemma setPhase_frame [simp]:
  "smAvailable (setPhase i p s) = smAvailable s" "smWaiters (setPhase i p s) = smWaiters s"
  "length (smCalls (setPhase i p s)) = length (smCalls s)"
  by (simp_all add: setPhase_def)

lemma permits_setPhase:
  "i < length (smCalls s) \<Longrightarrow>
   permits (setPhase i p s) = permits s - of_bool (smCalls s ! i = Holding) + of_bool (p = Holding)"
  by (simp add: permits_def holders_setPhase)

lemma permits_enter: "permits (Acquire_enter s) = permits s"
  by (simp add: permits_def holders_def Acquire_enter_def)

lemma permits_waiters [simp]: "permits (s\<lparr>smWaiters := ws\<rparr>) = permits s"
  by (simp add: permits_def holders_def)

lemma permits_release:
  assumes "\<forall>i \<in> set (smWaiters s). i < length (smCalls s)"
  shows "permits (Release s) =
    permits s + of_bool (smWaiters s = [] \<or> smCalls s ! hd (smWaiters s) = Parked)"
proof (cases "smWaiters s")
  case Nil
  then show ?thesis by (simp add: Release_def permits_def holders_def)
next
  case (Cons ch rest)
  then show ?thesis using assms by (simp add: Release_def Let_def permits_setPhase)
qed

lemma sem_inv_setPhase:
  assumes "sem_inv sz s" "i < length (smCalls s)" "p \<noteq> Holding"
    "i \<in> set (smWaiters s) \<longrightarrow> p \<noteq> Released"
  shows "sem_inv sz (setPhase i p s)"
proof -
  have "permits (setPhase i p s) \<le> permits s"
    using assms by (simp add: permits_setPhase)
  moreover have "smCalls (setPhase i p s) ! j \<in> {Queued, Parked, Cancelled}" if "j \<in> set (smWaiters s)" for j
    using assms that by (cases p; cases "j = i") (auto simp: sem_inv_def setPhase_def)
  ultimately show ?thesis using assms(1) by (auto simp: sem_inv_def)
qed

lemma sem_inv_enter: "sem_inv sz s \<Longrightarrow> sem_inv sz (Acquire_enter s)"
  using permits_enter [of s] unfolding sem_inv_def
  by (auto simp: Acquire_enter_def nth_append sorted_wrt_append)

lemma sem_inv_release:
  assumes "sem_inv sz s" "permits s < sz"
  shows "sem_inv sz (Release s)"
proof -
  have p: "permits (Release s) \<le> sz"
    using permits_release [of s] assms by (simp add: sem_inv_def)
  show ?thesis
  proof (cases "smWaiters s")
    case Nil
    with assms p show ?thesis by (auto simp: sem_inv_def Release_def)
  next
    case (Cons ch rest)
    then have "ch \<notin> set rest" using assms by (auto simp: sem_inv_def)
    with Cons assms p show ?thesis
      by (auto simp: sem_inv_def Release_def Let_def setPhase_def nth_list_update)
  qed
qed

lemma sem_step_inv: "sem_inv sz s \<Longrightarrow> sem_step s t \<Longrightarrow> sem_inv sz t"
proof (erule sem_step.cases)
  fix i u assume h: "sem_inv sz s" "s = u" "t = Release (setPhase i Released u)"
    "i < length (smCalls u)" "smCalls u ! i = Holding"
  from h have "i \<notin> set (smWaiters s)" by (auto simp: sem_inv_def)
  with h have "sem_inv sz (setPhase i Released s)" by (intro sem_inv_setPhase) auto
  moreover have "permits (setPhase i Released s) < sz"
    using h by (simp add: permits_setPhase sem_inv_def)
  ultimately show "sem_inv sz t" using h by (simp add: sem_inv_release)
qed (auto simp: Acquire_select_def intro: sem_inv_enter sem_inv_setPhase)

text \<open>A lost permit is never found again: no step raises the number of permits.\<close>

lemma permits_step:
  assumes "sem_inv sz s" "sem_step s t"
  shows "permits t \<le> permits s"
  using assms(2)
proof cases
  case (release i)
  have "\<forall>j \<in> set (smWaiters s). j < length (smCalls s)" using assms(1) by (simp add: sem_inv_def)
  with release permits_release [of "setPhase i Released s"] show ?thesis
    by (simp add: permits_setPhase)
qed (auto simp: permits_enter Acquire_select_def permits_setPhase)

definition sem_start :: "int \<Rightarrow> Semaphore \<Rightarrow> bool" where
  "sem_start sz s \<longleftrightarrow> s = NewSemaphore sz"

lemma sem_start_inv: "sem_start sz s \<Longrightarrow> sem_inv (max 1 sz) s"
  by (auto simp: sem_start_def NewSemaphore_def sem_inv_def permits_def holders_def)

interpretation sm: stable_machine "sem_start sz" sem_step "sem_inv (max 1 sz)" "\<lambda>s. permits s \<le> k" for sz k
proof
  fix s t :: Semaphore
  show "sem_start sz s \<Longrightarrow> sem_inv (max 1 sz) s" by (fact sem_start_inv)
  show "sem_inv (max 1 sz) s \<Longrightarrow> sem_step s t \<Longrightarrow> sem_inv (max 1 sz) t" by (fact sem_step_inv)
  show "sem_inv (max 1 sz) s \<Longrightarrow> permits s \<le> k \<Longrightarrow> sem_step s t \<Longrightarrow> permits t \<le> k"
    using permits_step by (meson order_trans)
qed

lemma sem_reach_inv: "sem_step\<^sup>*\<^sup>* (NewSemaphore sz) s \<Longrightarrow> sem_inv (max 1 sz) s"
  by (rule sm.reachable_inv [where sz = sz]) (simp_all add: sem_start_def)

section \<open>Properties\<close>

text \<open>A caller that a release has taken off the queue before it was parked: nobody will ever send on its channel.\<close>

definition stranded :: "nat \<Rightarrow> Semaphore \<Rightarrow> bool" where
  "stranded i s \<longleftrightarrow> i < length (smCalls s) \<and> i \<notin> set (smWaiters s) \<and> smCalls s ! i \<in> {Queued, Parked, Cancelled}"

lemma stranded_setPhase:
  "stranded i s \<Longrightarrow> j < length (smCalls s) \<Longrightarrow> (j = i \<longrightarrow> p \<in> {Queued, Parked, Cancelled}) \<Longrightarrow> stranded i (setPhase j p s)"
  by (auto simp: stranded_def setPhase_def nth_list_update)

lemma stranded_step: "sem_inv sz s \<Longrightarrow> stranded i s \<Longrightarrow> sem_step s t \<Longrightarrow> stranded i t"
proof (erule sem_step.cases)
  fix j u assume h: "sem_inv sz s" "stranded i s" "s = u" "t = Release (setPhase j Released u)" "j < length (smCalls u)" "smCalls u ! j = Holding"
  then have "j \<noteq> i" by (auto simp: stranded_def)
  with h show "stranded i t"
    by (auto simp: stranded_def Release_def Let_def setPhase_def nth_list_update split: list.split)
qed (auto simp: Acquire_select_def stranded_setPhase intro: stranded_setPhase, auto simp: stranded_def Acquire_enter_def nth_append)

interpretation sd: stable_machine "sem_start sz" sem_step "sem_inv (max 1 sz)" "stranded i" for sz i
  by unfold_locales (fact sem_start_inv, fact sem_step_inv, fact stranded_step)

text \<open>C12: However acquisitions, cancellations and releases interleave, no more requests hold a slot than
  the configured concurrency (at least one), and holders and free slots together are never more than it; a slot is
  free only when the queue of waiters is empty. A request can still be waiting then, but only one that a
  release has taken off the queue without handing it the slot, and such a request never gets one.\<close>

theorem concurrency_bound:
  assumes "sem_step\<^sup>*\<^sup>* (NewSemaphore sz) s"
  shows "int (holders s) \<le> max 1 sz \<and> int (holders s) + smAvailable s \<le> max 1 sz \<and> 0 \<le> smAvailable s \<and>
         (smAvailable s > 0 \<longrightarrow> smWaiters s = []) \<and>
         (i < length (smCalls s) \<and> smCalls s ! i \<in> {Queued, Parked} \<and> i \<notin> set (smWaiters s) \<and> sem_step\<^sup>*\<^sup>* s t \<longrightarrow>
            smCalls t ! i \<noteq> Holding)"
proof -
  have inv: "sem_inv (max 1 sz) s" by (rule sem_reach_inv [OF assms])
  have "smCalls t ! i \<noteq> Holding"
    if "i < length (smCalls s)" "smCalls s ! i \<in> {Queued, Parked}" "i \<notin> set (smWaiters s)" "sem_step\<^sup>*\<^sup>* s t"
  proof -
    have "stranded i s" using that by (auto simp: stranded_def)
    from sd.stuck_run [OF that(4) inv this] show ?thesis by (auto simp: stranded_def)
  qed
  with inv show ?thesis by (auto simp: sem_inv_def permits_def)
qed

text \<open>Two slots, both held: a third request queues, a release takes it off the queue before its \<open>select\<close>, and it
  stays parked although the second release leaves a slot free.\<close>

lemma stranded_reach: "sem_step\<^sup>*\<^sup>* (NewSemaphore 2) \<lparr>smAvailable = 1, smWaiters = [], smCalls = [Released, Released, Parked]\<rparr>"
proof -
  let ?s = "\<lambda>n ws ps. \<lparr>smAvailable = n, smWaiters = ws, smCalls = ps\<rparr>"
  have "sem_step (NewSemaphore 2) (?s 1 [] [Holding])"
    using sem_step.enter [of "NewSemaphore 2"] by (simp add: NewSemaphore_def Acquire_enter_def)
  moreover have "sem_step (?s 1 [] [Holding]) (?s 0 [] [Holding, Holding])"
    using sem_step.enter [of "?s 1 [] [Holding]"] by (simp add: Acquire_enter_def)
  moreover have "sem_step (?s 0 [] [Holding, Holding]) (?s 0 [2] [Holding, Holding, Queued])"
    using sem_step.enter [of "?s 0 [] [Holding, Holding]"] by (simp add: Acquire_enter_def numeral_2_eq_2)
  moreover have "sem_step (?s 0 [2] [Holding, Holding, Queued]) (?s 0 [] [Released, Holding, Queued])"
    using sem_step.release [of 0 "?s 0 [2] [Holding, Holding, Queued]"] by (simp add: Release_def setPhase_def)
  moreover have "sem_step (?s 0 [] [Released, Holding, Queued]) (?s 0 [] [Released, Holding, Parked])"
    using sem_step.select [of 2 "?s 0 [] [Released, Holding, Queued]" False] by (simp add: Acquire_select_def setPhase_def)
  moreover have "sem_step (?s 0 [] [Released, Holding, Parked]) (?s 1 [] [Released, Released, Parked])"
    using sem_step.release [of 1 "?s 0 [] [Released, Holding, Parked]"] by (simp add: Release_def setPhase_def)
  ultimately show ?thesis by (meson converse_rtranclp_into_rtranclp rtranclp.rtrancl_refl)
qed

theorem concurrency_bound_witness:
  "\<exists>s. sem_step\<^sup>*\<^sup>* (NewSemaphore 2) s \<and> smAvailable s = 1 \<and> smCalls s ! 2 = Parked \<and>
     int (holders s) + smAvailable s \<le> 2 \<and> (\<forall>t. sem_step\<^sup>*\<^sup>* s t \<longrightarrow> smCalls t ! 2 \<noteq> Holding)"
  using concurrency_bound [OF stranded_reach, of 2]
  by (intro exI [of _ "\<lparr>smAvailable = 1, smWaiters = [], smCalls = [Released, Released, Parked]\<rparr>"]) (auto simp: stranded_reach)

text \<open>Slots are handed out in order of arrival: a release gives the slot to the parked caller that
  arrived first among those still queued, and a newcomer cannot overtake them, because it finds no
  slot available while the queue is not empty.\<close>

theorem slots_are_fifo:
  assumes "sem_step\<^sup>*\<^sup>* (NewSemaphore sz) s" and "smWaiters s = ch # rest" and "smCalls s ! ch = Parked"
  shows "smCalls (Release s) = (smCalls s)[ch := Holding] \<and> smAvailable (Release s) = smAvailable s \<and>
         (\<forall>j \<in> set (smWaiters (Release s)). ch < j) \<and>
         smCalls (Acquire_enter s) = smCalls s @ [Queued]"
proof -
  have "sem_inv (max 1 sz) s" by (rule sem_reach_inv [OF assms(1)])
  with assms(2,3) show ?thesis
    by (auto simp: sem_inv_def Release_def Acquire_enter_def setPhase_def)
qed

abbreviation contended :: Semaphore where
  "contended \<equiv> \<lparr>smAvailable = 0, smWaiters = [1], smCalls = [Holding, Parked]\<rparr>"

lemma contended_reach: "sem_step\<^sup>*\<^sup>* (NewSemaphore 1) contended"
proof -
  let ?q = "\<lparr>smAvailable = 0, smWaiters = [1], smCalls = [Holding, Queued]\<rparr>"
  have "Acquire_enter (Acquire_enter (NewSemaphore 1)) = ?q"
    by (simp add: Acquire_enter_def NewSemaphore_def)
  then have "sem_step\<^sup>*\<^sup>* (NewSemaphore 1) ?q"
    by (metis sem_step.enter rtranclp.rtrancl_into_rtrancl rtranclp.rtrancl_refl)
  moreover have "sem_step ?q contended"
    using sem_step.select [of 1 ?q False] by (simp add: Acquire_select_def setPhase_def)
  ultimately show ?thesis by (rule rtranclp.rtrancl_into_rtrancl)
qed

theorem slots_are_fifo_witness: "smCalls (Release contended) = [Holding, Holding]"
  using slots_are_fifo [OF contended_reach, of 1 "[]"] by simp

text \<open>A release loses the slot exactly when the queue's first caller is not parked: it has been
  cancelled, or has not reached its \<open>select\<close> yet. A cancelled caller is not taken out of the queue.\<close>

theorem release_keeps_slot_iff:
  assumes "sem_step\<^sup>*\<^sup>* (NewSemaphore sz) s" and "i < length (smCalls s)" and "smCalls s ! i = Holding"
  shows "permits (Release (setPhase i Released s)) =
           permits s - of_bool (smWaiters s \<noteq> [] \<and> smCalls s ! hd (smWaiters s) \<noteq> Parked)"
proof -
  have inv: "sem_inv (max 1 sz) s" by (rule sem_reach_inv [OF assms(1)])
  have "i \<noteq> hd (smWaiters s)" if "smWaiters s \<noteq> []"
    using inv hd_in_set [OF that] assms(3) unfolding sem_inv_def by (metis insertE phase.distinct emptyE)
  moreover have "\<forall>j \<in> set (smWaiters s). j < length (smCalls s)" using inv by (simp add: sem_inv_def)
  ultimately show ?thesis
    using permits_release [of "setPhase i Released s"] assms(2,3)
    by (cases "smWaiters s") (auto simp: permits_setPhase, auto simp: setPhase_def nth_list_update)
qed

theorem release_keeps_slot_iff_witness:
  "permits (Release (setPhase 0 Released contended)) = permits contended"
  using release_keeps_slot_iff [OF contended_reach, of 0] by simp

text \<open>C18: With one slot, one request that is cancelled while queued wedges the gateway for good: once the
  holder has released and nobody holds or waits, there is no slot left, and none of the requests
  that arrive from then on ever gets one.\<close>

theorem cancelled_waiter_wedges:
  "\<exists>s. sem_step\<^sup>*\<^sup>* (NewSemaphore 1) s \<and> set (smCalls s) \<subseteq> {Released, Cancelled} \<and> smWaiters s = [] \<and>
       (\<forall>t. sem_step\<^sup>*\<^sup>* s t \<longrightarrow> Holding \<notin> set (smCalls t))"
proof -
  let ?c = "setPhase 1 Cancelled contended"
  let ?s = "Release (setPhase 0 Released ?c)"
  have s: "?s = \<lparr>smAvailable = 0, smWaiters = [], smCalls = [Released, Cancelled]\<rparr>"
    by (simp add: setPhase_def Release_def)
  have "sem_step contended ?c" by (rule sem_step.cancel) simp_all
  moreover have "sem_step ?c ?s" by (rule sem_step.release) (simp_all add: setPhase_def)
  ultimately have reach: "sem_step\<^sup>*\<^sup>* (NewSemaphore 1) ?s"
    using contended_reach by (meson rtranclp.rtrancl_into_rtrancl)
  have "Holding \<notin> set (smCalls t)" if "sem_step\<^sup>*\<^sup>* ?s t" for t
  proof -
    have "permits ?s \<le> 0" unfolding s by (simp add: permits_def holders_def)
    with sm.stuck_run [where sz = 1 and k = 0, OF that] sem_reach_inv [OF reach]
    have "permits t \<le> 0" "0 \<le> smAvailable t" by (auto simp: sem_inv_def)
    then have "holders t = 0" by (simp add: permits_def)
    then show ?thesis by (auto simp: holders_def filter_empty_conv)
  qed
  with reach s show ?thesis by (intro exI [of _ ?s]) simp
qed

theorem cancelled_waiter_wedges_witness:
  "\<exists>s. sem_step\<^sup>*\<^sup>* (NewSemaphore 1) s \<and> Holding \<notin> set (smCalls (Acquire_enter s))"
proof -
  obtain s where s: "sem_step\<^sup>*\<^sup>* (NewSemaphore 1) s"
      "\<forall>t. sem_step\<^sup>*\<^sup>* s t \<longrightarrow> Holding \<notin> set (smCalls t)"
    using cancelled_waiter_wedges by blast
  have "sem_step\<^sup>*\<^sup>* s (Acquire_enter s)" by (rule r_into_rtranclp, rule sem_step.enter)
  with s show ?thesis by blast
qed

end
