(* ===== verification/Server.thy ===== *)
theory Server
  imports Turn Mcp Formats Metrics Usage Resume Semaphore
begin

text \<open>
  The gateway's HTTP server (\<open>internal/gateway/server.go\<close>): configuration, model and effort resolution,
  authorisation, the chat completion handler on both of its paths, and the routing of every request.

  A handler is a function of its request, of the server's state and of its environment: what the CLI
  runs it starts come to, the ids, clock readings and random choices it draws, and what the other
  goroutines make of the slots and the shared tables between its steps and while it waits.
\<close>

section \<open>The server\<close>

text \<open>\<open>svFiles\<close> is the file system the usage ledger is kept in.\<close>

record 'f Server =
  svConfig :: Config
  svSlots :: Semaphore
  svMetrics :: Metrics
  svUsage :: "'f UsageStore"
  svSessions :: SessionManager
  svResume :: "ResumeStore option"
  svMcpBaseURL :: gostring
  svFiles :: files

text \<open>\<open>open_usage\<close> is \<open>OpenUsageStore\<close> with its environment.\<close>

definition NewServer :: "(gostring \<Rightarrow> files \<Rightarrow> files \<times> 'f UsageStore) \<Rightarrow> Config \<Rightarrow> files \<Rightarrow> 'f Server" where
  "NewServer open_usage config fs =
     (let config = defaults config;
          (fs', usage) = open_usage (cfUsageDB config) fs
      in \<lparr>svConfig = config, svSlots = NewSemaphore (cfConcurrency config), svMetrics = NewMetrics, svUsage = usage,
          svSessions = NewSessionManager (cfMaxSessions config) (cfToolTimeoutMS config) (cfSessionIdleMS config),
          svResume = (if cfResumeSessions config then Some (NewResumeStore (cfResumeMaxEntries config)) else None),
          svMcpBaseURL = ''http://127.0.0.1:'' @ string_of_int (cfPort config), svFiles = fs'\<rparr>)"

definition SetMCPBaseURL :: "gostring \<Rightarrow> 'f Server \<Rightarrow> 'f Server" where
  "SetMCPBaseURL baseURL sv = sv\<lparr>svMcpBaseURL := TrimSuffix baseURL ''/''\<rparr>"

section \<open>Authorisation\<close>

text \<open>A header that is absent reads as empty; \<open>hrBody\<close> is None when the body cannot be read.\<close>

record HttpRequest =
  hrMethod :: gostring
  hrPath :: gostring
  hrAuthorization :: gostring
  hrXApiKey :: gostring
  hrBody :: "gostring option"

definition isAuthorized :: "Config \<Rightarrow> HttpRequest \<Rightarrow> bool" where
  "isAuthorized c r \<longleftrightarrow>
     cfAPIKey c = [] \<or> hrAuthorization r = ''Bearer '' @ cfAPIKey c \<or> hrXApiKey r = cfAPIKey c"

section \<open>Chat completions\<close>

record 'f request_env =
  qeDecode :: "gostring \<Rightarrow> ChatCompletionRequest option"
  qeParse :: "gostring \<Rightarrow> 'f streamJsonLine option"
  qeJson :: "gostring \<Rightarrow> gostring + json"
  qeSha256 :: "gostring \<Rightarrow> bytes"
  qeID :: gostring
  qeCreated :: int
  qeDurationMs :: int
  qeReapOrder :: "gostring list \<Rightarrow> gostring list"
  qeSlots :: slot_env
  qeBeforeReap :: "SessionManager \<Rightarrow> SessionManager"
  qeSessionsMeanwhile :: "SessionManager \<Rightarrow> SessionManager"
  qeResumeMeanwhile :: "ResumeStore \<Rightarrow> ResumeStore"
  qeRun :: "nat \<Rightarrow> RunClaudeOptions \<Rightarrow> cli_run"
  qeTurn :: "'f turn_env"
  qeEncode :: "'f ledger \<Rightarrow> gostring"
  qeTmp :: gostring
  qeSaveFault :: save_fault
  qeToday :: date

definition plan_options :: "Config \<Rightarrow> resumeTurn \<Rightarrow> gostring \<Rightarrow> gostring \<Rightarrow> gostring \<Rightarrow> gostring \<Rightarrow> RunClaudeOptions" where
  "plan_options c plan model effort systemPrompt prompt =
     \<lparr>roPrompt = prompt, roSystemPrompt = systemPrompt, roModel = model, roEffort = effort, roTimeoutMs = cfTimeoutMS c,
      roPersist = rtPersist plan, roResumeSessionID = rtCliSessionID plan, roExposeReasoning = cfExposeReasoning c\<rparr>"

definition retry_options :: "RunClaudeOptions \<Rightarrow> gostring \<Rightarrow> RunClaudeOptions" where
  "retry_options opts prompt =
     opts\<lparr>roPrompt := prompt, roPersist := False, roResumeSessionID := [], roExposeReasoning := False\<rparr>"

text \<open>The completion that is answered with: a failed JSON validation buys one retry, whose own failure is not fatal.\<close>

definition json_retry :: "'f request_env \<Rightarrow> ResponseFormat option \<Rightarrow> RunClaudeOptions \<Rightarrow> 'f Completion \<Rightarrow> 'f Completion" where
  "json_retry env rf opts c =
     (if requiresJSON rf then
        (case validateJSONResponse (qeJson env) (cmText c) rf of
           None \<Rightarrow> c
         | Some err \<Rightarrow>
             let opts' = retry_options opts (jsonRetryPrompt (roPrompt opts) (cmText c) err)
             in (case fst (RunClaude (qeParse env) opts' (qeRun env 1 opts')) of Inl e \<Rightarrow> c | Inr c' \<Rightarrow> c'))
      else c)"

definition record_after ::
  "'f request_env \<Rightarrow> ChatCompletionRequest \<Rightarrow> gostring \<Rightarrow> gostring \<Rightarrow> 'f Completion \<Rightarrow> ResumeStore option \<Rightarrow> ResumeStore option" where
  "record_after env req model effort c store =
     recordResumableSession (qeSha256 env) (ccMessages req) model effort (Some c) (map_option (qeResumeMeanwhile env) store)"

definition complete ::
  "'f request_env \<Rightarrow> ChatCompletionRequest \<Rightarrow> RunClaudeOptions \<Rightarrow> ResumeStore option \<Rightarrow>
   ResumeStore option \<times> 'f response \<times> 'f turn_log" where
  "complete env req opts store =
     (case fst (RunClaude (qeParse env) opts (qeRun env 0 opts)) of
        Inl err \<Rightarrow> (map_option (qeResumeMeanwhile env) store, sendError (ceStatusCode err) (ceMessage err) ''api_error'',
                    failed_log (ceStatusCode err))
      | Inr c0 \<Rightarrow>
          let c = json_retry env (ccResponseFormat req) opts c0
          in (record_after env req (roModel opts) (roEffort opts) c store,
              RBody 200 (BCompletion (CompletionResponseWithCost (qeID env) (qeCreated env) c)),
              usage_log 200 (cmUsage c) (cmCostUSD c)))"

definition handleStreamingResponse ::
  "'f request_env \<Rightarrow> ChatCompletionRequest \<Rightarrow> RunClaudeOptions \<Rightarrow> ResumeStore option \<Rightarrow>
   ResumeStore option \<times> 'f response \<times> 'f turn_log" where
  "handleStreamingResponse env req opts store =
     (case RunClaude (qeParse env) opts (qeRun env 0 opts) of
        (res, callbacks) \<Rightarrow>
          let opening = role_chunk (qeID env) (qeCreated env) (roModel opts) #
                map (delta_chunk (qeID env) (qeCreated env) (roModel opts)) callbacks
          in (case res of
                Inl err \<Rightarrow> (map_option (qeResumeMeanwhile env) store, RStream (opening @ [SError (ceMessage err)]), failed_log 200)
              | Inr c \<Rightarrow>
                  (record_after env req (roModel opts) (roEffort opts) c store,
                   RStream (opening @
                     [SChunk (NewStreamChunk (qeID env) (qeCreated env) (cmModel c) DEmpty
                        (Some (MapFinishReason (cmStopReason c))) (Some (ToOpenAIUsage (cmUsage c) (cmCostUSD c)))), SDone]),
                   usage_log 200 (cmUsage c) (cmCostUSD c))))"

text \<open>The path without tools. It asks for its slot last, after the plan and the prompt.\<close>

definition no_slot :: "'f response \<times> 'f turn_log" where
  "no_slot = (sendError 503 ''service temporarily unavailable'' ''api_error'', failed_log 503)"

definition stateless_turn ::
  "'f request_env \<Rightarrow> Config \<Rightarrow> ChatCompletionRequest \<Rightarrow> gostring \<Rightarrow> gostring \<Rightarrow> Semaphore \<Rightarrow> ResumeStore option \<Rightarrow>
   (Semaphore \<times> ResumeStore option \<times> 'f response \<times> 'f turn_log) outcome" where
  "stateless_turn env c req model effort slots store =
     (case planResumeTurn (qeSha256 env) (ccMessages req) model effort store of
        (store', plan) \<Rightarrow>
          (case (if rtHit plan then Inr (rtSystemPrompt plan, rtPrompt plan) else BuildPrompt (ccMessages req)) of
             Inl err \<Rightarrow> Done (slots, store', sendError 400 err ''invalid_request_error'', failed_log 400)
           | Inr (systemPrompt, prompt) \<Rightarrow>
               let instruction = responseFormatInstruction (ccResponseFormat req);
                   systemPrompt = (if instruction \<noteq> [] then systemPrompt @ nl2 @ instruction else systemPrompt);
                   opts = plan_options c plan model effort systemPrompt prompt
               in bind_outcome
                    (with_slot (qeSlots env) slots
                       (Done (if ccStream req then handleStreamingResponse env req opts store' else complete env req opts store')))
                    (\<lambda>(slots', r).
                       case r of
                         None \<Rightarrow> Done (slots', map_option (qeResumeMeanwhile env) store', no_slot)
                       | Some answered \<Rightarrow> Done (slots', answered))))"

text \<open>
  The handler up to its answer. \<open>Reap\<close> comes before the slot is asked for, so a superseded session is
  gone even when the request is then refused. Others run between the search for the session to continue
  and the reaping (\<open>qeBeforeReap\<close>), and after the reaping until the slot is there (\<open>qeSessionsMeanwhile\<close>).
\<close>

definition answer_chat ::
  "'f request_env \<Rightarrow> ChatCompletionRequest \<Rightarrow> 'f Server \<Rightarrow> ('f Server \<times> 'f response \<times> 'f turn_log) outcome" where
  "answer_chat env req sv =
     (let c = svConfig sv;
          model = resolveModel c (ccModel req);
          effort = resolveEffort (ccReasoningEffort req) (ccReasoning req);
          (contSess, toolResults) = findContinuationSession (ccMessages req) (svSessions sv);
          wantsTools = (ccTools req \<noteq> [] \<and> \<not> toolChoiceIsNone (ccToolChoice req))
      in bind_outcome (ReapSuperseded (qeReapOrder env) (referencedToolCallIDs (ccMessages req)) contSess (qeBeforeReap env (svSessions sv)))
           (\<lambda>(sm, reaped).
             if contSess \<noteq> None \<or> wantsTools then
               bind_outcome
                 (with_slot (qeSlots env) (svSlots sv)
                    (handleToolTurn c (svMcpBaseURL sv) (qeTurn env) req contSess toolResults (qeID env) (qeCreated env)
                       model effort (qeSessionsMeanwhile env sm)))
                 (\<lambda>(slots, r).
                    case r of
                      None \<Rightarrow> Done (sv\<lparr>svSessions := qeSessionsMeanwhile env sm, svSlots := slots\<rparr>, no_slot)
                    | Some (sm', answered) \<Rightarrow> Done (sv\<lparr>svSessions := sm', svSlots := slots\<rparr>, answered))
             else
               bind_outcome (stateless_turn env c req model effort (svSlots sv) (svResume sv))
                 (\<lambda>(slots, store, answered).
                    Done (sv\<lparr>svSessions := qeSessionsMeanwhile env sm, svSlots := slots, svResume := store\<rparr>, answered))))"

text \<open>The deferred function: the metrics and the ledger see every request, the refused ones too.\<close>

definition log_request ::
  "('f :: {zero, plus}) request_env \<Rightarrow> HttpRequest \<Rightarrow> 'f turn_log \<Rightarrow> 'f Server \<Rightarrow> 'f Server" where
  "log_request env r tlog sv =
     (case recordUsageOn (qeEncode env) (qeTmp env) (qeSaveFault env) (qeToday env) (tlPromptTokens tlog) (tlCompletionTokens tlog)
             (tlCostUSD tlog) (svUsage sv) (svFiles sv) of
        (fs, usage) \<Rightarrow>
          sv\<lparr>svMetrics := RecordRequest (hrMethod r) (hrPath r) (tlStatus tlog) (qeDurationMs env) (svMetrics sv),
             svUsage := usage, svFiles := fs\<rparr>)"

definition maxBodySize :: nat where
  "maxBodySize = 32 * 1024 * 1024"

definition readBody :: "HttpRequest \<Rightarrow> nat \<Rightarrow> gostring option" where
  "readBody r maxSize = (case hrBody r of None \<Rightarrow> None | Some b \<Rightarrow> if length b \<le> maxSize then Some b else None)"

definition handleChatCompletions ::
  "('f :: {zero, plus}) request_env \<Rightarrow> HttpRequest \<Rightarrow> 'f Server \<Rightarrow> ('f Server \<times> 'f response) outcome" where
  "handleChatCompletions env r sv =
     (case readBody r maxBodySize of
        None \<Rightarrow> Done (log_request env r (failed_log 400) sv, sendError 400 ''request body too large'' ''invalid_request_error'')
      | Some body \<Rightarrow>
          (case qeDecode env body of
             None \<Rightarrow> Done (log_request env r (failed_log 400) sv,
                            sendError 400 ''request body must be valid JSON'' ''invalid_request_error'')
           | Some req \<Rightarrow>
               bind_outcome (answer_chat env req sv) (\<lambda>(sv', resp, tlog). Done (log_request env r tlog sv', resp))))"

section \<open>The other handlers and the routes\<close>

definition model_info :: "Config \<Rightarrow> gostring \<Rightarrow> ModelInfo" where
  "model_info c m =
     (let len = resolveContextLength m (cfContextLengths c) (cfDefaultContextLength c)
      in \<lparr>miID = m, miContextLength = len, miMaxModelLen = len\<rparr>)"

definition handleModels :: "Config \<Rightarrow> 'f response" where
  "handleModels c = RBody 200 (BModels (map (model_info c) (cfModels c)))"

definition live_sessions_lines :: "SessionManager \<Rightarrow> gostring list" where
  "live_sessions_lines sm =
     [''# HELP llmgateway_live_sessions Number of live tool-calling CLI sessions (active + parked)'',
      ''# TYPE llmgateway_live_sessions gauge'', ''llmgateway_live_sessions '' @ string_of_nat (GetSessionCount sm)]"

text \<open>The orders in which the maps are visited, and the number formats, of one scrape.\<close>

record 'f scrape =
  scSeconds :: "int \<Rightarrow> gostring"
  scEntries :: "(gostring \<times> int) list"
  scFormatFloat :: "'f \<Rightarrow> gostring"
  scDays :: "gostring list"

definition handleMetrics :: "('f :: {zero, plus}) scrape \<Rightarrow> date \<Rightarrow> 'f Server \<Rightarrow> 'f response" where
  "handleMetrics sc now sv =
     RBody 200 (BText (WritePrometheus (scSeconds sc) (scEntries sc) (svMetrics sv) @ live_sessions_lines (svSessions sv) @
       WriteUsage (scFormatFloat sc) (scDays sc) now (svUsage sv)))"

text \<open>The dashboard's files are embedded (\<open>dashboard.go\<close>); they are known by their names here.\<close>

definition handleDashboard :: "'f response" where
  "handleDashboard = RBody 200 (BStatic ''dashboard.html'')"

definition handleLogoMark :: "'f response" where
  "handleLogoMark = RBody 200 (BStatic ''logo-mark.svg'')"

datatype route = Healthz | Dashboard | LogoMark | MCP gostring | Unauthorized | Models | Chat | MetricsPage | NotFound

definition route :: "Config \<Rightarrow> HttpRequest \<Rightarrow> route" where
  "route c r =
     (if hrMethod r = ''GET'' \<and> hrPath r = ''/healthz'' then Healthz
      else if hrMethod r = ''GET'' \<and> hrPath r = ''/dashboard'' then Dashboard
      else if hrMethod r = ''GET'' \<and> hrPath r = ''/logo-mark.svg'' then LogoMark
      else if HasPrefix (hrPath r) ''/mcp/'' then MCP (TrimPrefix (hrPath r) ''/mcp/'')
      else if \<not> isAuthorized c r then Unauthorized
      else if hrMethod r = ''GET'' \<and> hrPath r = ''/v1/models'' then Models
      else if hrMethod r = ''POST'' \<and> hrPath r = ''/v1/chat/completions'' then Chat
      else if hrMethod r = ''GET'' \<and> hrPath r = ''/metrics'' then MetricsPage
      else NotFound)"

datatype 'f answer = Answer "'f response" | McpAnswer mcp_reply

definition record_ok :: "'f request_env \<Rightarrow> HttpRequest \<Rightarrow> 'f Server \<Rightarrow> 'f Server" where
  "record_ok env r sv = sv\<lparr>svMetrics := RecordRequest (hrMethod r) (hrPath r) 200 (qeDurationMs env) (svMetrics sv)\<rparr>"

definition ServeHTTP ::
  "('f :: {zero, plus}) request_env \<Rightarrow> mcp_env \<Rightarrow> (gostring \<Rightarrow> JSONRPCRequest option) \<Rightarrow> 'f scrape \<Rightarrow> HttpRequest \<Rightarrow> 'f Server \<Rightarrow>
   ('f Server \<times> 'f answer) outcome" where
  "ServeHTTP env menv mdecode sc r sv =
     (case route (svConfig sv) r of
        Healthz \<Rightarrow> Done (record_ok env r sv, Answer (RBody 200 BOk))
      | Dashboard \<Rightarrow> Done (sv, Answer handleDashboard)
      | LogoMark \<Rightarrow> Done (sv, Answer handleLogoMark)
      | MCP sid \<Rightarrow>
          bind_outcome (handleMCPEndpoint menv mdecode (hrMethod r) (hrBody r) sid (svSessions sv))
            (\<lambda>(sm, rep). Done (sv\<lparr>svSessions := sm\<rparr>, McpAnswer rep))
      | Unauthorized \<Rightarrow> Done (sv, Answer (sendError 401 ''invalid or missing API key'' ''authentication_error''))
      | Models \<Rightarrow> Done (record_ok env r sv, Answer (handleModels (svConfig sv)))
      | Chat \<Rightarrow> bind_outcome (handleChatCompletions env r sv) (\<lambda>(sv', resp). Done (sv', Answer resp))
      | MetricsPage \<Rightarrow> Done (record_ok env r sv, Answer (handleMetrics sc (qeToday env) sv))
      | NotFound \<Rightarrow> Done (sv, Answer (sendError 404 (''no route for '' @ hrMethod r @ '' '' @ hrPath r) ''not_found_error'')))"

text \<open>\<open>Shutdown\<close> runs once; the sessions are reaped in some order and the ledger is saved. Closing the listeners
  is outside.\<close>

definition Shutdown ::
  "('f ledger \<Rightarrow> gostring) \<Rightarrow> gostring \<Rightarrow> save_fault \<Rightarrow> gostring list \<Rightarrow> bool \<Rightarrow> 'f Server \<Rightarrow> 'f Server outcome" where
  "Shutdown encode tmp fault ids alreadyDone sv =
     (if alreadyDone then Done sv
      else
        bind_outcome (Close ids (svSessions sv)) (\<lambda>sm.
          Done (sv\<lparr>svSessions := sm, svFiles := fst (Usage_Close encode tmp fault (svUsage sv) (svFiles sv))\<rparr>)))"

text \<open>Ids: each byte picks a hexadecimal digit by its remainder.\<close>

definition randomHex :: "bytes \<Rightarrow> gostring" where
  "randomHex raw = map (\<lambda>v. hexChars ! (unat v mod length hexChars)) raw"

definition newCompletionID :: "bytes \<Rightarrow> gostring" where
  "newCompletionID raw = ''chatcmpl-'' @ randomHex raw"

end
