(* ===== verification/SessionRun.thy ===== *)
theory SessionRun
  imports Session
begin

text \<open>
  The session table under concurrent handlers: every critical section of \<open>session.go\<close> is an
  event, and the half-done operations between two critical sections are part of the state.
  The invariant says that sessions, calls, channels and the index fit together; it is proved
  for every event, and with it that no channel operation panics or blocks.
\<close>

section \<open>Events\<close>

text \<open>
  \<open>wdReg\<close>: calls announced and not yet indexed; \<open>wdRes\<close>: ids resolved and still to be unindexed;
  \<open>wdSweep\<close>: sessions the sweeper has found expired and still to be reaped.
\<close>

record world =
  wdMgr :: SessionManager
  wdReg :: "(nat \<times> gostring list) list"
  wdRes :: "gostring list"
  wdSweep :: "gostring list"

datatype sess_ev =
    ECreate gostring "ToolSchema list" int
  | EAttach nat
  | ERegister nat "ToolUseBlock list" "gostring list" int
  | EIndex nat
  | EResolve nat gostring gostring int
  | EUnindex nat
  | EClaim nat gostring gostring int
  | EAwait nat nat
  | EReap gostring
  | ESupersede "gostring list" "nat option"
  | ESweepCheck gostring int
  | ESweepReap nat
  | EClose "gostring list"

datatype sess_rep = RNone | RSession "nat option" | RBool bool | RClaim "nat option" | RResult "gostring option" | RCount nat

fun sess_do :: "(gostring \<Rightarrow> json option) \<Rightarrow> (gostring list \<Rightarrow> gostring list) \<Rightarrow> sess_ev \<Rightarrow> world \<Rightarrow> (world \<times> sess_rep) outcome" where
  "sess_do um ordr (ECreate sid tools now) w =
     (case CreateSession sid tools now (wdMgr w) of (m, r) \<Rightarrow> Done (w\<lparr>wdMgr := m\<rparr>, RSession r))"
| "sess_do um ordr (EAttach a) w = Done (w\<lparr>wdMgr := AttachCmd a (wdMgr w)\<rparr>, RNone)"
| "sess_do um ordr (ERegister a uses ids now) w =
     (case Register_pending um a uses ids now (wdMgr w) of
        (m, None) \<Rightarrow> Done (w\<lparr>wdMgr := m\<rparr>, RNone)
      | (m, Some calls) \<Rightarrow> Done (w\<lparr>wdMgr := m, wdReg := (a, map pcID calls) # wdReg w\<rparr>, RNone))"
| "sess_do um ordr (EIndex j) w =
     (case wdReg w ! j of (a, ids) \<Rightarrow>
        Done (w\<lparr>wdMgr := Register_index a ids (wdMgr w), wdReg := take j (wdReg w) @ drop (Suc j) (wdReg w)\<rparr>, RNone))"
| "sess_do um ordr (EResolve a cid result now) w =
     bind_outcome (Resolve_pending a cid result now (wdMgr w)) (\<lambda>(m, ok).
       Done (w\<lparr>wdMgr := m, wdRes := (if ok then cid # wdRes w else wdRes w)\<rparr>, RBool ok))"
| "sess_do um ordr (EUnindex j) w =
     Done (w\<lparr>wdMgr := Resolve_index (wdRes w ! j) (wdMgr w), wdRes := take j (wdRes w) @ drop (Suc j) (wdRes w)\<rparr>, RNone)"
| "sess_do um ordr (EClaim a name args now) w =
     (case ClaimPendingCall a name args now (wdMgr w) of (m, r) \<Rightarrow> Done (w\<lparr>wdMgr := m\<rparr>, RClaim r))"
| "sess_do um ordr (EAwait a i) w =
     bind_outcome (Await a i (wdMgr w)) (\<lambda>(m, v). Done (w\<lparr>wdMgr := m\<rparr>, RResult v))"
| "sess_do um ordr (EReap sid) w =
     bind_outcome (ReapSession sid (wdMgr w)) (\<lambda>m. Done (w\<lparr>wdMgr := m\<rparr>, RNone))"
| "sess_do um ordr (ESupersede ids keep) w =
     bind_outcome (ReapSuperseded ordr ids keep (wdMgr w)) (\<lambda>(m, n). Done (w\<lparr>wdMgr := m\<rparr>, RCount n))"
| "sess_do um ordr (ESweepCheck sid now) w =
     Done (w\<lparr>wdSweep := (if sweep_check now sid (wdMgr w) then sid # wdSweep w else wdSweep w)\<rparr>, RNone)"
| "sess_do um ordr (ESweepReap j) w =
     bind_outcome (reapSessionLocked (wdSweep w ! j) (wdMgr w)) (\<lambda>m.
       Done (w\<lparr>wdMgr := m, wdSweep := take j (wdSweep w) @ drop (Suc j) (wdSweep w)\<rparr>, RNone))"
| "sess_do um ordr (EClose ids) w =
     bind_outcome (Close ids (wdMgr w)) (\<lambda>m. Done (w\<lparr>wdMgr := m\<rparr>, RNone))"

definition all_ids :: "SessionManager \<Rightarrow> gostring set" where
  "all_ids m = (\<Union>s \<in> set (smHeap m). pcID ` set (sePending s))"

text \<open>What holds of an event when it happens: pointers point to something, fresh ids are fresh.\<close>

fun sess_ev_ok :: "sess_ev \<Rightarrow> world \<Rightarrow> bool" where
  "sess_ev_ok (ECreate sid tools now) w \<longleftrightarrow> sid \<notin> seID ` set (smHeap (wdMgr w))"
| "sess_ev_ok (EAttach a) w \<longleftrightarrow> a < length (smHeap (wdMgr w))"
| "sess_ev_ok (ERegister a uses ids now) w \<longleftrightarrow>
     a < length (smHeap (wdMgr w)) \<and> length ids = length uses \<and> distinct ids \<and> set ids \<inter> all_ids (wdMgr w) = {}"
| "sess_ev_ok (EIndex j) w \<longleftrightarrow> j < length (wdReg w)"
| "sess_ev_ok (EResolve a cid result now) w \<longleftrightarrow> a < length (smHeap (wdMgr w))"
| "sess_ev_ok (EUnindex j) w \<longleftrightarrow> j < length (wdRes w)"
| "sess_ev_ok (EClaim a name args now) w \<longleftrightarrow> a < length (smHeap (wdMgr w))"
| "sess_ev_ok (EAwait a i) w \<longleftrightarrow> a < length (smHeap (wdMgr w)) \<and> i < length (sePending (smHeap (wdMgr w) ! a))"
| "sess_ev_ok (ESweepReap j) w \<longleftrightarrow> j < length (wdSweep w)"
| "sess_ev_ok _ w \<longleftrightarrow> True"

definition sess_start :: "world \<Rightarrow> bool" where
  "sess_start w \<longleftrightarrow> (\<exists>mx tt idle. 0 \<le> mx \<and> w = \<lparr>wdMgr = NewSessionManager mx tt idle, wdReg = [], wdRes = [], wdSweep = []\<rparr>)"

definition sess_step :: "(gostring \<Rightarrow> json option) \<Rightarrow> (gostring list \<Rightarrow> gostring list) \<Rightarrow> world \<Rightarrow> world \<Rightarrow> bool" where
  "sess_step um ordr w w' \<longleftrightarrow> (\<exists>ev rep. sess_ev_ok ev w \<and> sess_do um ordr ev w = Done (w', rep))"

section \<open>The invariant\<close>

definition pc_ok :: "PendingToolCall \<Rightarrow> bool" where
  "pc_ok p \<longleftrightarrow>
     length (rvBuf (pcResolver p)) \<le> 1 \<and>
     (\<not> pcResolved p \<longrightarrow> rvBuf (pcResolver p) = [] \<and> \<not> rvClosed (pcResolver p)) \<and>
     (rvClosed (pcResolver p) \<longrightarrow> rvBuf (pcResolver p) = [])"

definition sess_ok :: "Session \<Rightarrow> bool" where
  "sess_ok s \<longleftrightarrow>
     (\<forall>cid i. sePendingByID s cid = Some i \<longleftrightarrow> i < length (sePending s) \<and> pcID (sePending s ! i) = cid) \<and>
     (\<forall>p \<in> set (sePending s). pc_ok p) \<and>
     (seReaped s \<longrightarrow> (\<forall>p \<in> set (sePending s). pcResolved p))"

definition call_at :: "SessionManager \<Rightarrow> nat \<Rightarrow> nat \<Rightarrow> PendingToolCall \<Rightarrow> bool" where
  "call_at m a i p \<longleftrightarrow> a < length (smHeap m) \<and> i < length (sePending (smHeap m ! a)) \<and> p = sePending (smHeap m ! a) ! i"

definition mgr_inv :: "SessionManager \<Rightarrow> bool" where
  "mgr_inv m \<longleftrightarrow>
     (\<forall>a < length (smHeap m). sess_ok (smHeap m ! a)) \<and>
     (\<forall>a < length (smHeap m). \<forall>b < length (smHeap m). seID (smHeap m ! a) = seID (smHeap m ! b) \<longrightarrow> a = b) \<and>
     (\<forall>sid a. smSessions m sid = Some a \<longleftrightarrow>
        a < length (smHeap m) \<and> seID (smHeap m ! a) = sid \<and> \<not> seReaped (smHeap m ! a)) \<and>
     (\<forall>a i p b j q. call_at m a i p \<longrightarrow> call_at m b j q \<longrightarrow> pcID p = pcID q \<longrightarrow> a = b \<and> i = j) \<and>
     (\<forall>cid sid. smIndex m cid = Some sid \<longrightarrow>
        (\<exists>a i p. call_at m a i p \<and> pcID p = cid \<and> seID (smHeap m ! a) = sid)) \<and>
     0 \<le> smMaxSessions m \<and> finite (dom (smSessions m)) \<and> int (card (dom (smSessions m))) \<le> smMaxSessions m"

text \<open>Every call still waiting in a live session is indexed, or about to be.\<close>

definition indexed :: "SessionManager \<Rightarrow> (nat \<times> gostring list) list \<Rightarrow> bool" where
  "indexed m regs \<longleftrightarrow>
     (\<forall>a i p. call_at m a i p \<longrightarrow> \<not> pcResolved p \<longrightarrow>
        smIndex m (pcID p) = Some (seID (smHeap m ! a)) \<or> (\<exists>ids. (a, ids) \<in> set regs \<and> pcID p \<in> set ids))"

definition tasks_ok :: "SessionManager \<Rightarrow> (nat \<times> gostring list) list \<Rightarrow> gostring list \<Rightarrow> bool" where
  "tasks_ok m regs ress \<longleftrightarrow>
     (\<forall>(a, ids) \<in> set regs. \<forall>cid \<in> set ids. \<exists>i p. call_at m a i p \<and> pcID p = cid) \<and>
     (\<forall>cid \<in> set ress. \<exists>a i p. call_at m a i p \<and> pcID p = cid \<and> pcResolved p)"

definition world_inv :: "world \<Rightarrow> bool" where
  "world_inv w \<longleftrightarrow> mgr_inv (wdMgr w) \<and> indexed (wdMgr w) (wdReg w) \<and> tasks_ok (wdMgr w) (wdReg w) (wdRes w)"

section \<open>How a table evolves\<close>

text \<open>
  \<open>evolves X m m'\<close>: sessions stay where they are with their ids, reaped stays reaped; calls keep
  their place, id, name and arguments; claimed stays claimed, resolved stays resolved, and a
  resolved call outside \<open>X\<close> keeps its channel.
\<close>

definition evolves :: "(nat \<times> nat) set \<Rightarrow> SessionManager \<Rightarrow> SessionManager \<Rightarrow> bool" where
  "evolves X m m' \<longleftrightarrow>
     length (smHeap m) \<le> length (smHeap m') \<and>
     (\<forall>a < length (smHeap m). seID (smHeap m' ! a) = seID (smHeap m ! a) \<and>
        (seReaped (smHeap m ! a) \<longrightarrow> seReaped (smHeap m' ! a))) \<and>
     (\<forall>a i p. call_at m a i p \<longrightarrow>
        (\<exists>p'. call_at m' a i p' \<and> pcID p' = pcID p \<and> pcName p' = pcName p \<and> pcArguments p' = pcArguments p \<and>
           (pcClaimed p \<longrightarrow> pcClaimed p') \<and>
           (pcResolved p \<longrightarrow> pcResolved p' \<and> ((a, i) \<notin> X \<longrightarrow> pcResolver p' = pcResolver p))))"

lemma evolves_refl [simp]: "evolves X m m"
  by (auto simp: evolves_def)

lemma evolves_mono: "evolves X m m' \<Longrightarrow> X \<subseteq> Y \<Longrightarrow> evolves Y m m'"
  unfolding evolves_def by (meson subsetD)

lemma evolves_trans:
  assumes "evolves X m m'" "evolves X m' m''"
  shows "evolves X m m''"
  unfolding evolves_def
proof (intro conjI allI impI)
  show "length (smHeap m) \<le> length (smHeap m'')" using assms unfolding evolves_def by (meson order_trans)
next
  fix a assume "a < length (smHeap m)"
  then show "seID (smHeap m'' ! a) = seID (smHeap m ! a)" "seReaped (smHeap m ! a) \<Longrightarrow> seReaped (smHeap m'' ! a)"
    using assms unfolding evolves_def by (metis order.strict_trans2)+
next
  fix a i p assume "call_at m a i p"
  then obtain p' where p': "call_at m' a i p'" "pcID p' = pcID p" "pcName p' = pcName p" "pcArguments p' = pcArguments p"
      "pcClaimed p \<longrightarrow> pcClaimed p'" "pcResolved p \<longrightarrow> pcResolved p' \<and> ((a, i) \<notin> X \<longrightarrow> pcResolver p' = pcResolver p)"
    using assms(1) unfolding evolves_def by blast
  from p'(1) obtain p'' where "call_at m'' a i p''" "pcID p'' = pcID p'" "pcName p'' = pcName p'" "pcArguments p'' = pcArguments p'"
      "pcClaimed p' \<longrightarrow> pcClaimed p''" "pcResolved p' \<longrightarrow> pcResolved p'' \<and> ((a, i) \<notin> X \<longrightarrow> pcResolver p'' = pcResolver p')"
    using assms(2) unfolding evolves_def by blast
  with p' show "\<exists>p''. call_at m'' a i p'' \<and> pcID p'' = pcID p \<and> pcName p'' = pcName p \<and> pcArguments p'' = pcArguments p \<and>
      (pcClaimed p \<longrightarrow> pcClaimed p'') \<and> (pcResolved p \<longrightarrow> pcResolved p'' \<and> ((a, i) \<notin> X \<longrightarrow> pcResolver p'' = pcResolver p))"
    by auto
qed

lemma call_at_fun: "call_at m a i p \<Longrightarrow> call_at m a i q \<Longrightarrow> p = q"
  by (simp add: call_at_def)

text \<open>A session that replaces another in its place: the ways in which the operations change one.\<close>

definition replaces :: "nat set \<Rightarrow> Session \<Rightarrow> Session \<Rightarrow> bool" where
  "replaces I s s' \<longleftrightarrow>
     seID s' = seID s \<and> (seReaped s \<longrightarrow> seReaped s') \<and> length (sePending s) \<le> length (sePending s') \<and>
     (\<forall>i < length (sePending s). let p = sePending s ! i; p' = sePending s' ! i in
        pcID p' = pcID p \<and> pcName p' = pcName p \<and> pcArguments p' = pcArguments p \<and> (pcClaimed p \<longrightarrow> pcClaimed p') \<and>
        (pcResolved p \<longrightarrow> pcResolved p' \<and> (i \<notin> I \<longrightarrow> pcResolver p' = pcResolver p)))"

lemma call_at_upd:
  assumes "a < length (smHeap m)" "smHeap m' = (smHeap m)[a := s']"
  shows "call_at m' b i p \<longleftrightarrow> (if b = a then i < length (sePending s') \<and> p = sePending s' ! i else call_at m b i p)"
  using assms by (auto simp: call_at_def)

lemma evolves_upd:
  assumes "a < length (smHeap m)" "smHeap m' = (smHeap m)[a := s']" "replaces I (smHeap m ! a) s'"
  shows "evolves (Pair a ` I) m m'"
proof -
  have "\<exists>p'. call_at m' b i p' \<and> pcID p' = pcID p \<and> pcName p' = pcName p \<and> pcArguments p' = pcArguments p \<and>
      (pcClaimed p \<longrightarrow> pcClaimed p') \<and> (pcResolved p \<longrightarrow> pcResolved p' \<and> ((b, i) \<notin> Pair a ` I \<longrightarrow> pcResolver p' = pcResolver p))"
    if c: "call_at m b i p" for b i p
  proof (cases "b = a")
    case True
    with c have i: "i < length (sePending (smHeap m ! a))" "p = sePending (smHeap m ! a) ! i" by (auto simp: call_at_def)
    show ?thesis
      using assms(3) i
      by (intro exI [of _ "sePending s' ! i"])
        (auto simp: True call_at_upd [OF assms(1,2)] replaces_def Let_def)
  next
    case False
    then show ?thesis using c by (intro exI [of _ p]) (auto simp: call_at_upd [OF assms(1,2)])
  qed
  moreover have "seID (smHeap m' ! b) = seID (smHeap m ! b) \<and> (seReaped (smHeap m ! b) \<longrightarrow> seReaped (smHeap m' ! b))" for b
    using assms(1,3) by (cases "b = a") (simp_all add: assms(2) replaces_def)
  moreover have "length (smHeap m') = length (smHeap m)" by (simp add: assms(2))
  ultimately show ?thesis unfolding evolves_def by simp
qed

section \<open>The invariant under the operations\<close>

lemma call_at_ids: "call_at m a i p \<Longrightarrow> pcID p \<in> all_ids m"
  unfolding call_at_def all_ids_def by (meson UN_I imageI nth_mem)

text \<open>An update of one session in place, with new calls under fresh ids, that leaves it as live as it was.\<close>

lemma mgr_inv_upd:
  assumes inv: "mgr_inv m" and a: "a < length (smHeap m)" and ok: "sess_ok s'"
    and rep: "replaces I (smHeap m ! a) s'" and live: "seReaped s' = seReaped (smHeap m ! a)"
    and fresh: "\<And>i. length (sePending (smHeap m ! a)) \<le> i \<Longrightarrow> i < length (sePending s') \<Longrightarrow>
      pcID (sePending s' ! i) \<notin> all_ids m"
    and m': "smHeap m' = (smHeap m)[a := s']" "smSessions m' = smSessions m" "smIndex m' = smIndex m"
      "smMaxSessions m' = smMaxSessions m"
  shows "mgr_inv m'"
proof -
  let ?s = "smHeap m ! a"
  have ids: "seID (smHeap m' ! b) = seID (smHeap m ! b)" "seReaped (smHeap m' ! b) = seReaped (smHeap m ! b)" for b
    using a rep live by (cases "b = a"; simp add: m' replaces_def)+
  have len: "length (smHeap m') = length (smHeap m)" by (simp add: m')
  have old: "\<exists>q. call_at m b i q \<and> pcID q = pcID p \<or> b = a \<and> length (sePending ?s) \<le> i \<and> pcID p \<notin> all_ids m"
    if "call_at m' b i p" for b i p
    using that rep a fresh [of i] unfolding call_at_upd [OF a m'(1)]
    by (cases "b = a"; cases "i < length (sePending ?s)") (auto simp: call_at_def replaces_def Let_def)
  have mem: "pcID q \<in> all_ids m" if "call_at m b i q" for b i q
    using that by (rule call_at_ids)
  have ok': "\<forall>b < length (smHeap m). sess_ok (smHeap m' ! b)"
    using inv ok a by (auto simp: mgr_inv_def m' nth_list_update)
  have inj: "pcID (sePending s' ! i) = pcID (sePending s' ! j) \<Longrightarrow> i < length (sePending s') \<Longrightarrow> j < length (sePending s') \<Longrightarrow> i = j" for i j
    using ok unfolding sess_ok_def by (metis option.inject)
  have uniq: "b = c \<and> i = j" if "call_at m' b i p" "call_at m' c j q" "pcID p = pcID q" for b c i j p q
  proof (cases "b = a \<and> c = a")
    case True
    with that inj show ?thesis by (auto simp: call_at_upd [OF a m'(1)])
  next
    case False
    note old1 = old [OF that(1)] and old2 = old [OF that(2)]
    obtain p' where p': "call_at m b i p' \<and> pcID p' = pcID p \<or> b = a \<and> length (sePending ?s) \<le> i \<and> pcID p \<notin> all_ids m"
      using old1 by blast
    obtain q' where q': "call_at m c j q' \<and> pcID q' = pcID q \<or> c = a \<and> length (sePending ?s) \<le> j \<and> pcID q \<notin> all_ids m"
      using old2 by blast
    have "\<forall>a i p b j q. call_at m a i p \<longrightarrow> call_at m b j q \<longrightarrow> pcID p = pcID q \<longrightarrow> a = b \<and> i = j"
      using inv by (simp add: mgr_inv_def)
    with p' q' that(3) False mem show ?thesis by metis
  qed
  have idx: "\<exists>b i p. call_at m' b i p \<and> pcID p = cid \<and> seID (smHeap m' ! b) = sid" if "smIndex m' cid = Some sid" for cid sid
  proof -
    from inv that obtain b i p where "call_at m b i p" "pcID p = cid" "seID (smHeap m ! b) = sid"
      unfolding mgr_inv_def m'(3) by blast
    moreover from this(1) obtain p' where "call_at m' b i p'" "pcID p' = pcID p"
      using evolves_upd [OF a m'(1) rep] unfolding evolves_def by blast
    ultimately show ?thesis using ids by metis
  qed
  show ?thesis
    unfolding mgr_inv_def len
  proof (intro conjI)
    show "\<forall>a i p b j q. call_at m' a i p \<longrightarrow> call_at m' b j q \<longrightarrow> pcID p = pcID q \<longrightarrow> a = b \<and> i = j"
      using uniq by blast
    show "\<forall>cid sid. smIndex m' cid = Some sid \<longrightarrow> (\<exists>a i p. call_at m' a i p \<and> pcID p = cid \<and> seID (smHeap m' ! a) = sid)"
      using idx by blast
  qed (use inv ok' in \<open>simp_all add: mgr_inv_def ids m'(2,4)\<close>)
qed

lemma tasks_ok_evolves: "tasks_ok m regs ress \<Longrightarrow> evolves X m m' \<Longrightarrow> tasks_ok m' regs ress"
proof -
  assume t: "tasks_ok m regs ress" and e: "evolves X m m'"
  have step: "\<exists>p'. call_at m' a i p' \<and> pcID p' = pcID p \<and> (pcResolved p \<longrightarrow> pcResolved p')" if "call_at m a i p" for a i p
    using e that unfolding evolves_def by blast
  show ?thesis using t unfolding tasks_ok_def by (fast dest: step)
qed

lemma indexed_upd:
  assumes "indexed m regs" "a < length (smHeap m)" "smHeap m' = (smHeap m)[a := s']" "smIndex m' = smIndex m"
    "replaces I (smHeap m ! a) s'" "length (sePending s') = length (sePending (smHeap m ! a))"
  shows "indexed m' regs"
  unfolding indexed_def
proof (intro allI impI)
  fix b i p assume c: "call_at m' b i p" and u: "\<not> pcResolved p"
  have sid: "seID (smHeap m' ! b) = seID (smHeap m ! b)"
    using assms(2,5) by (cases "b = a") (simp_all add: assms(3) replaces_def)
  obtain q where "call_at m b i q" "pcID q = pcID p" "\<not> pcResolved q"
    using c u assms(2,5,6) unfolding call_at_upd [OF assms(2,3)]
    by (cases "b = a") (auto simp: call_at_def replaces_def Let_def)
  with assms(1) sid show "smIndex m' (pcID p) = Some (seID (smHeap m' ! b)) \<or> (\<exists>ids. (b, ids) \<in> set regs \<and> pcID p \<in> set ids)"
    unfolding indexed_def assms(4) by metis
qed

lemma world_inv_upd:
  assumes "world_inv w" "a < length (smHeap (wdMgr w))" "sess_ok s'" "replaces I (smHeap (wdMgr w) ! a) s'"
    "seReaped s' = seReaped (smHeap (wdMgr w) ! a)" "length (sePending s') = length (sePending (smHeap (wdMgr w) ! a))"
    "smHeap m' = (smHeap (wdMgr w))[a := s']" "smSessions m' = smSessions (wdMgr w)" "smIndex m' = smIndex (wdMgr w)"
    "smMaxSessions m' = smMaxSessions (wdMgr w)"
  shows "world_inv (w\<lparr>wdMgr := m'\<rparr>)"
  using assms(1) mgr_inv_upd [OF _ assms(2-5) _ assms(7-10)] indexed_upd [OF _ assms(2,7,9,4,6)]
    tasks_ok_evolves [OF _ evolves_upd [OF assms(2,7,4)]] assms(6)
  by (simp add: world_inv_def)

lemma sess_ok_updPending:
  assumes "sess_ok s" "i < length (sePending s)" "pc_ok (f (sePending s ! i))"
    "pcID (f (sePending s ! i)) = pcID (sePending s ! i)" "pcResolved (sePending s ! i) \<longrightarrow> pcResolved (f (sePending s ! i))"
  shows "sess_ok (updPending i f s)"
proof -
  have "pcID ((sePending s)[i := f (sePending s ! i)] ! j) = pcID (sePending s ! j)" for j
    using assms(2,4) by (cases "j = i") simp_all
  moreover have "\<forall>p \<in> set ((sePending s)[i := f (sePending s ! i)]). pc_ok p"
    using assms(1,3) set_update_subset_insert [of "sePending s" i] by (fastforce simp: sess_ok_def)
  moreover have "\<forall>p \<in> set ((sePending s)[i := f (sePending s ! i)]). pcResolved p" if "seReaped s"
    using assms(1,2,5) that set_update_subset_insert [of "sePending s" i] by (fastforce simp: sess_ok_def)
  ultimately show ?thesis using assms(1) by (simp add: sess_ok_def updPending_def)
qed

lemma sess_ok_frame [simp]:
  "sess_ok (s\<lparr>seLastActivity := t\<rparr>) = sess_ok s" "sess_ok (s\<lparr>seCmd := b\<rparr>) = sess_ok s"
  by (simp_all add: sess_ok_def)

lemma updPending_frame [simp]:
  "seID (updPending i f s) = seID s" "seReaped (updPending i f s) = seReaped s"
  "sePending (updPending i f s) = (sePending s)[i := f (sePending s ! i)]"
  "sePendingByID (updPending i f s) = sePendingByID s"
  by (simp_all add: updPending_def)

lemma replaces_updPending:
  assumes "i < length (sePending s)"
    "pcID (f (sePending s ! i)) = pcID (sePending s ! i)" "pcName (f (sePending s ! i)) = pcName (sePending s ! i)"
    "pcArguments (f (sePending s ! i)) = pcArguments (sePending s ! i)"
    "pcClaimed (sePending s ! i) \<longrightarrow> pcClaimed (f (sePending s ! i))"
    "pcResolved (sePending s ! i) \<longrightarrow> pcResolved (f (sePending s ! i)) \<and> (i \<notin> I \<longrightarrow> pcResolver (f (sePending s ! i)) = pcResolver (sePending s ! i))"
    "seID s' = seID s" "seReaped s' = seReaped s" "sePending s' = (sePending s)[i := f (sePending s ! i)]"
  shows "replaces I s s'"
  unfolding replaces_def Let_def using assms by (auto simp: nth_list_update)

lemma find_claim_Some:
  "find_claim name args k ps = Some i \<longleftrightarrow>
     k \<le> i \<and> i < k + length ps \<and> \<not> pcClaimed (ps ! (i - k)) \<and> pcName (ps ! (i - k)) = name \<and> pcArguments (ps ! (i - k)) = args \<and>
     (\<forall>j < i - k. \<not> (\<not> pcClaimed (ps ! j) \<and> pcName (ps ! j) = name \<and> pcArguments (ps ! j) = args))"
proof (induction ps arbitrary: k)
  case (Cons p ps)
  show ?case
  proof (cases "\<not> pcClaimed p \<and> pcName p = name \<and> pcArguments p = args")
    case True
    then show ?thesis by (cases "i = k") (auto elim!: allE [of _ "0 :: nat"])
  next
    case False
    then have "find_claim name args k (p # ps) = find_claim name args (Suc k) ps"
      by (simp only: find_claim.simps if_False)
    also have "\<dots> = Some i \<longleftrightarrow> Suc k \<le> i \<and> i < Suc k + length ps \<and> \<not> pcClaimed (ps ! (i - Suc k)) \<and>
        pcName (ps ! (i - Suc k)) = name \<and> pcArguments (ps ! (i - Suc k)) = args \<and>
        (\<forall>j < i - Suc k. \<not> (\<not> pcClaimed (ps ! j) \<and> pcName (ps ! j) = name \<and> pcArguments (ps ! j) = args))"
      by (rule Cons.IH)
    also have "\<dots> \<longleftrightarrow> k \<le> i \<and> i < k + length (p # ps) \<and> \<not> pcClaimed ((p # ps) ! (i - k)) \<and> pcName ((p # ps) ! (i - k)) = name \<and>
        pcArguments ((p # ps) ! (i - k)) = args \<and>
        (\<forall>j < i - k. \<not> (\<not> pcClaimed ((p # ps) ! j) \<and> pcName ((p # ps) ! j) = name \<and> pcArguments ((p # ps) ! j) = args))"
    proof (cases "k < i")
      case True
      then obtain d where d: "i = Suc (k + d)" using less_iff_Suc_add by blast
      show ?thesis using False by (simp add: d All_less_Suc2)
    next
      case le: False
      then show ?thesis using False by (cases "i = k") auto
    qed
    finally show ?thesis .
  qed
qed simp

lemma mgr_inv_live: "mgr_inv m \<Longrightarrow> smSessions m sid = Some a \<longleftrightarrow>
    a < length (smHeap m) \<and> seID (smHeap m ! a) = sid \<and> \<not> seReaped (smHeap m ! a)"
  by (simp add: mgr_inv_def)

lemma mgr_inv_seID: "mgr_inv m \<Longrightarrow> a < length (smHeap m) \<Longrightarrow> b < length (smHeap m) \<Longrightarrow>
    seID (smHeap m ! a) = seID (smHeap m ! b) \<longleftrightarrow> a = b"
  by (auto simp: mgr_inv_def)

lemma mgr_inv_call: "mgr_inv m \<Longrightarrow> call_at m a i p \<Longrightarrow> call_at m b j q \<Longrightarrow> pcID p = pcID q \<Longrightarrow> a = b \<and> i = j"
  unfolding mgr_inv_def by blast

lemma mgr_inv_index: "mgr_inv m \<Longrightarrow> smIndex m cid = Some sid \<Longrightarrow>
    \<exists>a i p. call_at m a i p \<and> pcID p = cid \<and> seID (smHeap m ! a) = sid"
  unfolding mgr_inv_def by blast

lemma mgr_inv_sess_ok: "mgr_inv m \<Longrightarrow> a < length (smHeap m) \<Longrightarrow> sess_ok (smHeap m ! a)"
  by (simp add: mgr_inv_def)

lemma sess_ok_pc: "sess_ok s \<Longrightarrow> i < length (sePending s) \<Longrightarrow> pc_ok (sePending s ! i)"
  by (simp add: sess_ok_def)

text \<open>\<open>ClaimPendingCall\<close>.\<close>

lemma Claim_step:
  assumes "world_inv w" "a < length (smHeap (wdMgr w))" "ClaimPendingCall a name args now (wdMgr w) = (m', r)"
  shows "world_inv (w\<lparr>wdMgr := m'\<rparr>) \<and> evolves {} (wdMgr w) m'"
proof (cases "find_claim name args 0 (sePending (smHeap (wdMgr w) ! a))")
  case None
  then have "m' = wdMgr w" using assms(3) by (simp add: ClaimPendingCall_def)
  then show ?thesis using assms(1) by simp
next
  case (Some i)
  let ?s = "smHeap (wdMgr w) ! a"
  let ?s' = "(updPending i (\<lambda>p. p\<lparr>pcClaimed := True\<rparr>) ?s)\<lparr>seLastActivity := now\<rparr>"
  have i: "i < length (sePending ?s)" using Some by (simp add: find_claim_Some)
  have ok: "sess_ok ?s" using assms(1,2) by (simp add: world_inv_def mgr_inv_sess_ok)
  have ok': "sess_ok ?s'" unfolding sess_ok_frame
    by (rule sess_ok_updPending [OF ok i]) (use sess_ok_pc [OF ok i] in \<open>simp_all add: pc_ok_def\<close>)
  have rep: "replaces {} ?s ?s'" by (rule replaces_updPending [OF i]) simp_all
  have m': "m' = updSession a (\<lambda>s. (updPending i (\<lambda>p. p\<lparr>pcClaimed := True\<rparr>) s)\<lparr>seLastActivity := now\<rparr>) (wdMgr w)"
    using assms(3) Some by (simp add: ClaimPendingCall_def)
  have "world_inv (w\<lparr>wdMgr := m'\<rparr>)"
    by (rule world_inv_upd [OF assms(1,2) ok' rep]) (simp_all add: m')
  moreover have "evolves (Pair a ` {}) (wdMgr w) m'"
    by (rule evolves_upd [OF assms(2) _ rep]) (simp add: m')
  ultimately show ?thesis by simp
qed

text \<open>\<open>ResolveToolCall\<close>: the send always succeeds.\<close>

lemma Resolve_cases:
  assumes "mgr_inv m" "a < length (smHeap m)"
  obtains (unknown) "Resolve_pending a cid result now m = Done (m, False)"
      "\<And>i p. call_at m a i p \<Longrightarrow> pcID p = cid \<Longrightarrow> pcResolved p"
  | (resolved) i where "i < length (sePending (smHeap m ! a))" "pcID (sePending (smHeap m ! a) ! i) = cid"
      "\<not> pcResolved (sePending (smHeap m ! a) ! i)"
      "Resolve_pending a cid result now m =
         Done (updSession a (\<lambda>s. (updPending i (\<lambda>p. p\<lparr>pcResolved := True, pcResolver := \<lparr>rvBuf = [result], rvClosed = False\<rparr>\<rparr>) s)
                 \<lparr>seLastActivity := now\<rparr>) m, True)"
proof (cases "sePendingByID (smHeap m ! a) cid")
  case None
  have ok: "sess_ok (smHeap m ! a)" using assms by (rule mgr_inv_sess_ok)
  have "pcResolved p" if "call_at m a i p" "pcID p = cid" for i p
    using that None ok unfolding call_at_def sess_ok_def by (metis option.distinct(1))
  with None show ?thesis by (intro unknown) (simp_all add: Resolve_pending_def)
next
  case (Some i)
  let ?p = "sePending (smHeap m ! a) ! i"
  have ok: "sess_ok (smHeap m ! a)" using assms by (rule mgr_inv_sess_ok)
  with Some have i: "i < length (sePending (smHeap m ! a))" "pcID ?p = cid" by (simp_all add: sess_ok_def)
  show ?thesis
  proof (cases "pcResolved ?p")
    case True
    have "pcResolved p" if "call_at m a j p" "pcID p = cid" for j p
    proof -
      have "sePendingByID (smHeap m ! a) cid = Some j" using that ok by (simp add: call_at_def sess_ok_def)
      with Some True that show ?thesis by (simp add: call_at_def)
    qed
    with True Some show ?thesis by (intro unknown) (simp_all add: Resolve_pending_def)
  next
    case False
    with sess_ok_pc [OF ok i(1)] have "send result (pcResolver ?p) = Done \<lparr>rvBuf = [result], rvClosed = False\<rparr>"
      by (cases "pcResolver ?p") (simp add: pc_ok_def send_def)
    with False Some i show ?thesis by (intro resolved [OF i]) (simp_all add: Resolve_pending_def)
  qed
qed

lemma Resolve_step:
  assumes "world_inv w" "a < length (smHeap (wdMgr w))"
  shows "\<exists>m' ok. Resolve_pending a cid result now (wdMgr w) = Done (m', ok) \<and>
     world_inv (w\<lparr>wdMgr := m', wdRes := (if ok then cid # wdRes w else wdRes w)\<rparr>) \<and> evolves {} (wdMgr w) m'"
proof -
  let ?m = "wdMgr w"
  have inv: "mgr_inv ?m" using assms(1) by (simp add: world_inv_def)
  show ?thesis using inv assms(2)
  proof (cases rule: Resolve_cases [where cid = cid and result = result and now = now])
    case unknown
    then show ?thesis using assms(1) by (intro exI [of _ ?m] exI [of _ False]) simp
  next
    case (resolved i)
    let ?f = "\<lambda>p. p\<lparr>pcResolved := True, pcResolver := \<lparr>rvBuf = [result], rvClosed = False\<rparr>\<rparr>"
    let ?s = "smHeap ?m ! a"
    let ?s' = "(updPending i ?f ?s)\<lparr>seLastActivity := now\<rparr>"
    let ?m' = "updSession a (\<lambda>s. (updPending i ?f s)\<lparr>seLastActivity := now\<rparr>) ?m"
    have ok: "sess_ok ?s" using inv assms(2) by (rule mgr_inv_sess_ok)
    have ok': "sess_ok ?s'" unfolding sess_ok_frame
      by (rule sess_ok_updPending [OF ok resolved(1)]) (simp_all add: pc_ok_def)
    have rep: "replaces {} ?s ?s'"
      by (rule replaces_updPending [OF resolved(1)]) (use resolved in simp_all)
    have "world_inv (w\<lparr>wdMgr := ?m'\<rparr>)"
      by (rule world_inv_upd [OF assms ok' rep]) simp_all
    moreover have "call_at ?m' a i (?f (sePending ?s ! i))"
      using resolved(1) assms(2) by (simp add: call_at_def)
    ultimately have "world_inv (w\<lparr>wdMgr := ?m', wdRes := cid # wdRes w\<rparr>)"
      using resolved(2) by (fastforce simp: world_inv_def tasks_ok_def)
    moreover have "evolves (Pair a ` {}) ?m ?m'"
      by (rule evolves_upd [OF assms(2) _ rep]) simp
    ultimately show ?thesis using resolved(4) by (intro exI [of _ ?m'] exI [of _ True]) simp
  qed
qed

text \<open>The MCP handler's receive.\<close>

lemma Await_step:
  assumes "world_inv w" "a < length (smHeap (wdMgr w))" "i < length (sePending (smHeap (wdMgr w) ! a))"
    "Await a i (wdMgr w) = Done (m', v)"
  shows "world_inv (w\<lparr>wdMgr := m'\<rparr>) \<and> evolves {(a, i)} (wdMgr w) m'"
proof -
  let ?s = "smHeap (wdMgr w) ! a"
  obtain c where c: "recv (pcResolver (sePending ?s ! i)) = Done (c, v)"
      and m': "m' = updSession a (updPending i (\<lambda>p. p\<lparr>pcResolver := c\<rparr>)) (wdMgr w)"
    using assms(4) by (auto simp: Await_def outcome_simps)
  let ?s' = "updPending i (\<lambda>p. p\<lparr>pcResolver := c\<rparr>) ?s"
  have ok: "sess_ok ?s" using assms(1,2) by (simp add: world_inv_def mgr_inv_sess_ok)
  have "pc_ok ((sePending ?s ! i)\<lparr>pcResolver := c\<rparr>)"
    using sess_ok_pc [OF ok assms(3)] c by (auto simp: pc_ok_def recv_def split: list.splits if_splits)
  then have ok': "sess_ok ?s'" by (intro sess_ok_updPending [OF ok assms(3)]) simp_all
  have rep: "replaces {i} ?s ?s'" by (rule replaces_updPending [OF assms(3)]) simp_all
  have "world_inv (w\<lparr>wdMgr := m'\<rparr>)" by (rule world_inv_upd [OF assms(1,2) ok' rep]) (simp_all add: m')
  moreover have "evolves (Pair a ` {i}) (wdMgr w) m'" by (rule evolves_upd [OF assms(2) _ rep]) (simp add: m')
  ultimately show ?thesis by simp
qed

lemma Attach_step:
  assumes "world_inv w" "a < length (smHeap (wdMgr w))"
  shows "world_inv (w\<lparr>wdMgr := AttachCmd a (wdMgr w)\<rparr>) \<and> evolves {} (wdMgr w) (AttachCmd a (wdMgr w))"
proof -
  let ?s = "smHeap (wdMgr w) ! a"
  have ok: "sess_ok (?s\<lparr>seCmd := True\<rparr>)" using assms by (simp add: world_inv_def mgr_inv_sess_ok)
  have rep: "replaces {} ?s (?s\<lparr>seCmd := True\<rparr>)" by (simp add: replaces_def)
  have "world_inv (w\<lparr>wdMgr := AttachCmd a (wdMgr w)\<rparr>)"
    by (rule world_inv_upd [OF assms ok rep]) (simp_all add: AttachCmd_def)
  moreover have "evolves (Pair a ` {}) (wdMgr w) (AttachCmd a (wdMgr w))"
    by (rule evolves_upd [OF assms(2) _ rep]) (simp add: AttachCmd_def)
  ultimately show ?thesis by simp
qed

text \<open>\<open>RegisterAnnouncedCalls\<close>, first half.\<close>

lemma fold_addPending:
  "fold addPending ps s =
     s\<lparr>sePending := sePending s @ ps,
       sePendingByID := (\<lambda>cid. if cid \<in> pcID ` set ps
          then Some (length (sePending s) + last (filter (\<lambda>i. pcID (ps ! i) = cid) [0..<length ps]))
          else sePendingByID s cid)\<rparr>"
proof (induction ps rule: rev_induct)
  case (snoc p ps)
  have "filter (\<lambda>i. pcID ((ps @ [p]) ! i) = cid) [0..<length ps] = filter (\<lambda>i. pcID (ps ! i) = cid) [0..<length ps]" for cid
    by (rule filter_cong) (simp_all add: nth_append)
  then show ?case using snoc by (auto simp: addPending_def fun_eq_iff)
qed simp

lemma last_filter_unique:
  assumes "distinct (map pcID ps)" "i < length ps"
  shows "last (filter (\<lambda>j. pcID (ps ! j) = pcID (ps ! i)) [0..<length ps]) = i"
proof -
  have "j = i" if "j < length ps" "pcID (ps ! j) = pcID (ps ! i)" for j
    using assms that by (simp add: distinct_conv_nth) metis
  then have "set (filter (\<lambda>j. pcID (ps ! j) = pcID (ps ! i)) [0..<length ps]) \<subseteq> {i}" by auto
  moreover have "i \<in> set (filter (\<lambda>j. pcID (ps ! j) = pcID (ps ! i)) [0..<length ps])" using assms(2) by simp
  ultimately show ?thesis by (metis last_in_set length_pos_if_in_set length_greater_0_conv singletonD subsetD)
qed

lemma sess_ok_register:
  assumes "sess_ok s" "\<not> seReaped s" "distinct (map pcID ps)" "pcID ` set ps \<inter> pcID ` set (sePending s) = {}"
    "\<forall>p \<in> set ps. pc_ok p"
  shows "sess_ok (fold addPending ps s)"
proof -
  let ?s' = "fold addPending ps s"
  have "sePendingByID ?s' cid = Some i \<longleftrightarrow> i < length (sePending ?s') \<and> pcID (sePending ?s' ! i) = cid" for cid i
  proof (cases "cid \<in> pcID ` set ps")
    case True
    then obtain j where j: "j < length ps" "cid = pcID (ps ! j)" by (auto simp: in_set_conv_nth)
    have old: "pcID (sePending s ! k) \<noteq> cid" if "k < length (sePending s)" for k
      using assms(4) True that by (metis disjoint_iff imageI nth_mem)
    have "sePendingByID ?s' cid = Some (length (sePending s) + j)"
      using True last_filter_unique [OF assms(3) j(1)] by (simp add: fold_addPending j(2))
    moreover have "i < length (sePending ?s') \<and> pcID (sePending ?s' ! i) = cid \<longleftrightarrow> i = length (sePending s) + j"
    proof
      assume h: "i < length (sePending ?s') \<and> pcID (sePending ?s' ! i) = cid"
      with old [of i] have n: "\<not> i < length (sePending s)" by (auto simp: fold_addPending nth_append)
      with h have "i - length (sePending s) < length ps" "pcID (ps ! (i - length (sePending s))) = pcID (ps ! j)"
        by (auto simp: fold_addPending nth_append j(2))
      with assms(3) j(1) have "i - length (sePending s) = j" by (simp add: distinct_conv_nth) metis
      with n show "i = length (sePending s) + j" by simp
    qed (use j in \<open>simp add: fold_addPending\<close>)
    ultimately show ?thesis by auto
  next
    case False
    then have "pcID (ps ! (i - length (sePending s))) \<noteq> cid" if "i < length (sePending s) + length ps" "\<not> i < length (sePending s)"
      using that by (metis add_diff_inverse_nat imageI nat_add_left_cancel_less nth_mem)
    moreover have "sePendingByID s cid = Some i \<longleftrightarrow> i < length (sePending s) \<and> pcID (sePending s ! i) = cid"
      using assms(1) by (simp add: sess_ok_def)
    ultimately show ?thesis using False by (cases "i < length (sePending s)") (auto simp: fold_addPending nth_append)
  qed
  then show ?thesis using assms(1,2,5) by (auto simp: sess_ok_def fold_addPending)
qed

definition newCalls :: "(gostring \<Rightarrow> json option) \<Rightarrow> ToolUseBlock list \<Rightarrow> gostring list \<Rightarrow> PendingToolCall list" where
  "newCalls um uses ids = map (\<lambda>(u, cid). newPending um u cid) (zip uses ids)"

lemma newCalls_ids: "length ids = length uses \<Longrightarrow> map pcID (newCalls um uses ids) = ids"
  by (simp add: newCalls_def newPending_def comp_def case_prod_beta)

lemma newCalls_ok: "p \<in> set (newCalls um uses ids) \<Longrightarrow> pc_ok p \<and> \<not> pcResolved p \<and> \<not> pcClaimed p"
  by (auto simp: newCalls_def newPending_def pc_ok_def)

lemma Register_step:
  fixes um :: "gostring \<Rightarrow> json option" and now :: int
  assumes "world_inv w" "a < length (smHeap (wdMgr w))" "length ids = length uses" "distinct ids"
    "set ids \<inter> all_ids (wdMgr w) = {}" "\<not> seReaped (smHeap (wdMgr w) ! a)"
  defines "m' \<equiv> updSession a (\<lambda>s. (fold addPending (newCalls um uses ids) s)\<lparr>seLastActivity := now\<rparr>) (wdMgr w)"
  shows "Register_pending um a uses ids now (wdMgr w) = (m', Some (newCalls um uses ids))"
    and "world_inv (w\<lparr>wdMgr := m', wdReg := (a, ids) # wdReg w\<rparr>)" and "evolves {} (wdMgr w) m'"
proof -
  let ?m = "wdMgr w"
  let ?s = "smHeap ?m ! a"
  let ?ps = "newCalls um uses ids"
  let ?s' = "(fold addPending ?ps ?s)\<lparr>seLastActivity := now\<rparr>"
  show "Register_pending um a uses ids now ?m = (m', Some ?ps)"
    using assms(6) by (simp add: Register_pending_def m'_def newCalls_def Let_def)
  have inv: "mgr_inv ?m" using assms(1) by (simp add: world_inv_def)
  have idset: "pcID ` set ?ps = set ids" using newCalls_ids [OF assms(3), of um] by (metis set_map)
  have len: "length ?ps = length ids" using newCalls_ids [OF assms(3), of um] by (metis length_map)
  have own: "pcID ` set (sePending ?s) \<subseteq> all_ids ?m"
    using nth_mem [OF assms(2)] unfolding all_ids_def by blast
  have "sess_ok (fold addPending ?ps ?s)"
    by (rule sess_ok_register [OF mgr_inv_sess_ok [OF inv assms(2)] assms(6)])
      (use assms(4,5) own newCalls_ids [OF assms(3)] newCalls_ok idset in auto)
  then have ok': "sess_ok ?s'" by simp
  have rep: "replaces {} ?s ?s'" by (simp add: replaces_def fold_addPending nth_append)
  have heap: "smHeap m' = (smHeap ?m)[a := ?s']" by (simp add: m'_def)
  have new: "pcID (sePending ?s' ! i) \<in> set ids" if "length (sePending ?s) \<le> i" "i < length (sePending ?s')" for i
    using that idset by (simp add: fold_addPending nth_append) (metis imageI less_diff_conv2 add.commute nth_mem)
  have "mgr_inv m'"
    by (rule mgr_inv_upd [OF inv assms(2) ok' rep _ _ heap])
      (use new assms(5) in \<open>auto simp: m'_def fold_addPending\<close>)
  moreover have ev: "evolves (Pair a ` {}) ?m m'" by (rule evolves_upd [OF assms(2) heap rep])
  moreover have "indexed m' ((a, ids) # wdReg w)"
    unfolding indexed_def
  proof (intro allI impI)
    fix b i p assume c: "call_at m' b i p" and u: "\<not> pcResolved p"
    have sid: "seID (smHeap m' ! b) = seID (smHeap ?m ! b)"
      using assms(2) rep by (cases "b = a") (simp_all add: heap replaces_def)
    show "smIndex m' (pcID p) = Some (seID (smHeap m' ! b)) \<or> (\<exists>is. (b, is) \<in> set ((a, ids) # wdReg w) \<and> pcID p \<in> set is)"
    proof (cases "b = a \<and> length (sePending ?s) \<le> i")
      case True
      with c new [of i] show ?thesis by (auto simp: call_at_upd [OF assms(2) heap])
    next
      case False
      then have "call_at ?m b i p"
        using c unfolding call_at_upd [OF assms(2) heap]
        by (cases "b = a") (auto simp: fold_addPending nth_append call_at_def assms(2))
      with u assms(1) sid show ?thesis unfolding world_inv_def indexed_def by (fastforce simp: m'_def)
    qed
  qed
  moreover have "tasks_ok m' ((a, ids) # wdReg w) (wdRes w)"
  proof -
    have "\<exists>i p. call_at m' a i p \<and> pcID p = cid" if "cid \<in> set ids" for cid
    proof -
      from that idset obtain j where j: "j < length ?ps" "pcID (?ps ! j) = cid" by (metis imageE in_set_conv_nth)
      then have "call_at m' a (length (sePending ?s) + j) (?ps ! j)"
        by (simp add: call_at_upd [OF assms(2) heap] fold_addPending)
      with j(2) show ?thesis by blast
    qed
    moreover have "tasks_ok m' (wdReg w) (wdRes w)"
      using assms(1) ev by (auto simp: world_inv_def intro: tasks_ok_evolves)
    ultimately show ?thesis by (auto simp: tasks_ok_def)
  qed
  ultimately show "world_inv (w\<lparr>wdMgr := m', wdReg := (a, ids) # wdReg w\<rparr>)" "evolves {} ?m m'"
    by (simp_all add: world_inv_def)
qed

text \<open>The index halves, and \<open>CreateSession\<close>.\<close>

lemma fold_index: "fold (\<lambda>cid m. m(cid \<mapsto> v)) ids f = (\<lambda>cid. if cid \<in> set ids then Some v else f cid)"
  by (induction ids arbitrary: f) (auto simp: fun_eq_iff)

lemma call_at_heap: "smHeap m' = smHeap m \<Longrightarrow> call_at m' = call_at m"
  by (simp add: call_at_def fun_eq_iff)

lemma evolves_heap: "smHeap m' = smHeap m \<Longrightarrow> evolves X m m'"
  using call_at_heap [of m' m] by (auto simp: evolves_def)

lemma set_drop_nth: "j < length xs \<Longrightarrow> x \<in> set xs \<Longrightarrow> x = xs ! j \<or> x \<in> set (take j xs @ drop (Suc j) xs)"
  by (metis Un_iff id_take_nth_drop insert_iff list.simps(15) set_append)

lemma set_drop_sub: "set (take j xs @ drop (Suc j) xs) \<subseteq> set xs"
  by (metis Un_least set_append set_drop_subset set_take_subset)

lemma tasks_ok_sub: "tasks_ok m regs ress \<Longrightarrow> set regs' \<subseteq> set regs \<Longrightarrow> set ress' \<subseteq> set ress \<Longrightarrow> tasks_ok m regs' ress'"
  unfolding tasks_ok_def by blast

lemma Index_step:
  assumes "world_inv w" "j < length (wdReg w)" "wdReg w ! j = (a, ids)"
  defines "m' \<equiv> Register_index a ids (wdMgr w)"
  shows "world_inv (w\<lparr>wdMgr := m', wdReg := take j (wdReg w) @ drop (Suc j) (wdReg w)\<rparr>)" and "evolves {} (wdMgr w) m'"
proof -
  let ?m = "wdMgr w"
  let ?regs = "take j (wdReg w) @ drop (Suc j) (wdReg w)"
  have inv: "mgr_inv ?m" and ix: "indexed ?m (wdReg w)" and tk: "tasks_ok ?m (wdReg w) (wdRes w)"
    using assms(1) by (simp_all add: world_inv_def)
  have heap: "smHeap m' = smHeap ?m" by (simp add: m'_def Register_index_def)
  note ca = call_at_heap [OF heap]
  have idx: "smIndex m' cid = (if cid \<in> set ids then Some (seID (smHeap ?m ! a)) else smIndex ?m cid)" for cid
    by (simp add: m'_def Register_index_def fold_index)
  have mem: "(a, ids) \<in> set (wdReg w)" using assms(2,3) by (metis nth_mem)
  have call: "\<exists>i p. call_at ?m a i p \<and> pcID p = cid" if "cid \<in> set ids" for cid
    using tk mem that unfolding tasks_ok_def by blast
  have "mgr_inv m'"
    unfolding mgr_inv_def ca heap
  proof (intro conjI)
    show "\<forall>cid sid. smIndex m' cid = Some sid \<longrightarrow> (\<exists>a i p. call_at ?m a i p \<and> pcID p = cid \<and> seID (smHeap ?m ! a) = sid)"
    proof (intro allI impI)
      fix cid sid assume h: "smIndex m' cid = Some sid"
      show "\<exists>a i p. call_at ?m a i p \<and> pcID p = cid \<and> seID (smHeap ?m ! a) = sid"
      proof (cases "cid \<in> set ids")
        case True
        with h idx call [OF True] show ?thesis by auto
      next
        case False
        with h idx have "smIndex ?m cid = Some sid" by simp
        with inv show ?thesis unfolding mgr_inv_def by blast
      qed
    qed
    show "\<forall>b i p c j q. call_at ?m b i p \<longrightarrow> call_at ?m c j q \<longrightarrow> pcID p = pcID q \<longrightarrow> b = c \<and> i = j"
      using inv by (simp add: mgr_inv_def)
  qed (use inv in \<open>simp_all add: mgr_inv_def m'_def Register_index_def\<close>)
  moreover have "indexed m' ?regs"
    unfolding indexed_def ca heap
  proof (intro allI impI)
    fix b i p assume c: "call_at ?m b i p" and u: "\<not> pcResolved p"
    have uniq: "b = a" if "pcID p \<in> set ids"
    proof -
      from call [OF that] obtain k q where "call_at ?m a k q" "pcID q = pcID p" by blast
      with c inv show ?thesis unfolding mgr_inv_def by metis
    qed
    show "smIndex m' (pcID p) = Some (seID (smHeap ?m ! b)) \<or> (\<exists>is. (b, is) \<in> set ?regs \<and> pcID p \<in> set is)"
    proof (cases "pcID p \<in> set ids")
      case True
      with idx uniq show ?thesis by simp
    next
      case False
      from ix c u consider "smIndex ?m (pcID p) = Some (seID (smHeap ?m ! b))"
        | is' where "(b, is') \<in> set (wdReg w)" "pcID p \<in> set is'"
        unfolding indexed_def by blast
      then show ?thesis
      proof cases
        case 1
        with False idx show ?thesis by simp
      next
        case 2
        with False assms(3) have "(b, is') \<noteq> wdReg w ! j" by auto
        with set_drop_nth [OF assms(2) 2(1)] 2(2) show ?thesis by blast
      qed
    qed
  qed
  moreover have "tasks_ok m' ?regs (wdRes w)"
    using tasks_ok_sub [OF tk set_drop_sub order_refl] unfolding tasks_ok_def ca .
  ultimately show "world_inv (w\<lparr>wdMgr := m', wdReg := ?regs\<rparr>)" by (simp add: world_inv_def)
  show "evolves {} ?m m'" by (rule evolves_heap [OF heap])
qed

lemma Unindex_step:
  assumes "world_inv w" "j < length (wdRes w)"
  defines "m' \<equiv> Resolve_index (wdRes w ! j) (wdMgr w)"
  shows "world_inv (w\<lparr>wdMgr := m', wdRes := take j (wdRes w) @ drop (Suc j) (wdRes w)\<rparr>)" and "evolves {} (wdMgr w) m'"
proof -
  let ?m = "wdMgr w" and ?cid = "wdRes w ! j"
  have inv: "mgr_inv ?m" and ix: "indexed ?m (wdReg w)" and tk: "tasks_ok ?m (wdReg w) (wdRes w)"
    using assms(1) by (simp_all add: world_inv_def)
  have heap: "smHeap m' = smHeap ?m" by (simp add: m'_def Resolve_index_def)
  note ca = call_at_heap [OF heap]
  have idx: "smIndex m' cid = (if cid = ?cid then None else smIndex ?m cid)" for cid
    by (simp add: m'_def Resolve_index_def)
  from tk assms(2) obtain a i q where q: "call_at ?m a i q" "pcID q = ?cid" "pcResolved q"
    unfolding tasks_ok_def by (meson nth_mem)
  have "pcResolved p" if "call_at ?m b k p" "pcID p = ?cid" for b k p
  proof -
    have "b = a \<and> k = i" using inv that q(1,2) unfolding mgr_inv_def by metis
    with that(1) q show ?thesis using call_at_fun by metis
  qed
  then have "indexed m' (wdReg w)"
    using ix unfolding indexed_def ca heap idx by metis
  moreover have "mgr_inv m'"
    using inv unfolding mgr_inv_def ca heap idx by (auto simp: m'_def Resolve_index_def)
  moreover have "tasks_ok m' (wdReg w) (take j (wdRes w) @ drop (Suc j) (wdRes w))"
    using tasks_ok_sub [OF tk order_refl set_drop_sub] unfolding tasks_ok_def ca .
  ultimately show "world_inv (w\<lparr>wdMgr := m', wdRes := take j (wdRes w) @ drop (Suc j) (wdRes w)\<rparr>)"
    by (simp add: world_inv_def)
  show "evolves {} ?m m'" by (rule evolves_heap [OF heap])
qed

lemma Create_step:
  assumes "world_inv w" "sid \<notin> seID ` set (smHeap (wdMgr w))" "CreateSession sid tools now (wdMgr w) = (m', r)"
  shows "world_inv (w\<lparr>wdMgr := m'\<rparr>) \<and> evolves {} (wdMgr w) m'"
proof (cases "int (card (dom (smSessions (wdMgr w)))) \<ge> smMaxSessions (wdMgr w)")
  case True
  then have "m' = wdMgr w" using assms(3) by (simp add: CreateSession_def)
  then show ?thesis using assms(1) by simp
next
  case False
  let ?m = "wdMgr w"
  let ?s = "\<lparr>seID = sid, seCmd = False, seKills = 0, seTools = tools, sePending = [],
             sePendingByID = Map.empty, seCreatedAt = now, seLastActivity = now, seReaped = False\<rparr>"
  have inv: "mgr_inv ?m" and ix: "indexed ?m (wdReg w)" and tk: "tasks_ok ?m (wdReg w) (wdRes w)"
    using assms(1) by (simp_all add: world_inv_def)
  have m': "m' = ?m\<lparr>smHeap := smHeap ?m @ [?s], smSessions := (smSessions ?m)(sid \<mapsto> length (smHeap ?m))\<rparr>"
    using assms(3) False by (auto simp: CreateSession_def Let_def)
  have nth: "smHeap m' ! a = (if a = length (smHeap ?m) then ?s else smHeap ?m ! a)" if "a < length (smHeap m')" for a
    using that by (auto simp: m' nth_append)
  have ca: "call_at m' = call_at ?m"
    by (auto simp: call_at_def fun_eq_iff m' nth_append less_Suc_eq)
  have fresh: "seID (smHeap ?m ! a) \<noteq> sid" if "a < length (smHeap ?m)" for a
    using assms(2) that by (metis imageI nth_mem)
  have sess: "smSessions m' sid' = Some a \<longleftrightarrow>
      a < length (smHeap m') \<and> seID (smHeap m' ! a) = sid' \<and> \<not> seReaped (smHeap m' ! a)" for sid' a
    using inv fresh by (auto simp: m' nth_append mgr_inv_def less_Suc_eq)
  have none: "sid \<notin> dom (smSessions ?m)"
  proof
    assume "sid \<in> dom (smSessions ?m)"
    then obtain a where "a < length (smHeap ?m)" "seID (smHeap ?m ! a) = sid"
      using mgr_inv_live [OF inv] by blast
    with fresh show False by blast
  qed
  have "mgr_inv m'"
    unfolding mgr_inv_def ca
  proof (intro conjI)
    show "\<forall>a < length (smHeap m'). sess_ok (smHeap m' ! a)"
      using inv by (auto simp: m' nth_append less_Suc_eq mgr_inv_def sess_ok_def)
    show "\<forall>a < length (smHeap m'). \<forall>b < length (smHeap m'). seID (smHeap m' ! a) = seID (smHeap m' ! b) \<longrightarrow> a = b"
      using inv fresh by (auto simp: m' nth_append less_Suc_eq mgr_inv_def)
    show "\<forall>sid a. smSessions m' sid = Some a \<longleftrightarrow>
        a < length (smHeap m') \<and> seID (smHeap m' ! a) = sid \<and> \<not> seReaped (smHeap m' ! a)"
      using sess by blast
    show "\<forall>cid sid. smIndex m' cid = Some sid \<longrightarrow> (\<exists>a i p. call_at ?m a i p \<and> pcID p = cid \<and> seID (smHeap m' ! a) = sid)"
    proof (intro allI impI)
      fix cid sid' assume "smIndex m' cid = Some sid'"
      then have "smIndex ?m cid = Some sid'" by (simp add: m')
      then obtain a i p where "call_at ?m a i p" "pcID p = cid" "seID (smHeap ?m ! a) = sid'"
        using mgr_inv_index [OF inv, of cid sid'] by (auto simp: m')
      moreover from this(1) have "smHeap m' ! a = smHeap ?m ! a" by (simp add: call_at_def m' nth_append)
      ultimately show "\<exists>a i p. call_at ?m a i p \<and> pcID p = cid \<and> seID (smHeap m' ! a) = sid'" by metis
    qed
    show "\<forall>a i p b j q. call_at ?m a i p \<longrightarrow> call_at ?m b j q \<longrightarrow> pcID p = pcID q \<longrightarrow> a = b \<and> i = j"
      using inv by (simp add: mgr_inv_def)
    show "int (card (dom (smSessions m'))) \<le> smMaxSessions m'"
      using False none inv by (simp add: m' mgr_inv_def)
  qed (use inv in \<open>simp_all add: mgr_inv_def m'\<close>)
  moreover have "indexed m' (wdReg w)"
    unfolding indexed_def ca
  proof (intro allI impI)
    fix a i p assume c: "call_at ?m a i p" "\<not> pcResolved p"
    then have "smHeap m' ! a = smHeap ?m ! a" by (simp add: call_at_def m' nth_append)
    with ix c show "smIndex m' (pcID p) = Some (seID (smHeap m' ! a)) \<or> (\<exists>ids. (a, ids) \<in> set (wdReg w) \<and> pcID p \<in> set ids)"
      unfolding indexed_def by (simp add: m')
  qed
  moreover have "tasks_ok m' (wdReg w) (wdRes w)" using tk unfolding tasks_ok_def ca .
  moreover have "evolves {} ?m m'"
    unfolding evolves_def ca by (auto simp: m' nth_append)
  ultimately show ?thesis by (simp add: world_inv_def)
qed

text \<open>Reaping: no channel is closed twice, because a waiting call's channel is open.\<close>

definition reaped_call :: "PendingToolCall \<Rightarrow> PendingToolCall" where
  "reaped_call p = (if pcResolved p then p else p\<lparr>pcResolved := True, pcResolver := (pcResolver p)\<lparr>rvClosed := True\<rparr>\<rparr>)"

lemma reap_pending_Done: "\<forall>p \<in> set ps. pc_ok p \<Longrightarrow> reap_pending ps = Done (map reaped_call ps)"
  by (induction ps) (auto simp: reaped_call_def close_chan_def pc_ok_def)

lemma reaped_call_simps [simp]:
  "pcID (reaped_call p) = pcID p" "pcName (reaped_call p) = pcName p" "pcArguments (reaped_call p) = pcArguments p"
  "pcClaimed (reaped_call p) = pcClaimed p" "pcResolved (reaped_call p)"
  "pcResolved p \<Longrightarrow> pcResolver (reaped_call p) = pcResolver p"
  by (simp_all add: reaped_call_def)

lemma reaped_call_ok: "pc_ok p \<Longrightarrow> pc_ok (reaped_call p)"
  by (auto simp: reaped_call_def pc_ok_def)

definition reaped_session :: "Session \<Rightarrow> Session" where
  "reaped_session s =
     s\<lparr>seReaped := True, sePending := map reaped_call (sePending s), seKills := (if seCmd s then Suc (seKills s) else seKills s)\<rparr>"

definition reaped_mgr :: "nat \<Rightarrow> gostring \<Rightarrow> SessionManager \<Rightarrow> SessionManager" where
  "reaped_mgr a sid m =
     m\<lparr>smHeap := (smHeap m)[a := reaped_session (smHeap m ! a)], smSessions := (smSessions m)(sid := None),
       smIndex := map_drop (\<lambda>v. v = sid) (smIndex m)\<rparr>"

lemma reap_Done:
  assumes "mgr_inv m"
  shows "reapSessionLocked sid m =
    Done (case smSessions m sid of None \<Rightarrow> m | Some a \<Rightarrow> reaped_mgr a sid m)"
proof (cases "smSessions m sid")
  case (Some a)
  with assms have "a < length (smHeap m)" unfolding mgr_inv_def by blast
  with mgr_inv_sess_ok [OF assms this] have "reap_pending (sePending (smHeap m ! a)) = Done (map reaped_call (sePending (smHeap m ! a)))"
    by (intro reap_pending_Done) (simp add: sess_ok_def)
  with Some show ?thesis by (simp add: reapSessionLocked_def reaped_mgr_def reaped_session_def Let_def)
qed (simp add: reapSessionLocked_def)

lemma reaped_step:
  assumes "world_inv w" "smSessions (wdMgr w) sid = Some a"
  defines "m' \<equiv> reaped_mgr a sid (wdMgr w)"
  shows "world_inv (w\<lparr>wdMgr := m'\<rparr>)" and "evolves {} (wdMgr w) m'"
proof -
  let ?m = "wdMgr w"
  let ?s = "smHeap ?m ! a" and ?s' = "reaped_session (smHeap ?m ! a)"
  have inv: "mgr_inv ?m" and ix: "indexed ?m (wdReg w)" and tk: "tasks_ok ?m (wdReg w) (wdRes w)"
    using assms(1) by (simp_all add: world_inv_def)
  from inv assms(2) have a: "a < length (smHeap ?m)" "seID ?s = sid" "\<not> seReaped ?s"
    by (simp_all add: mgr_inv_live)
  have heap: "smHeap m' = (smHeap ?m)[a := ?s']" by (simp add: m'_def reaped_mgr_def)
  have rep: "replaces {} ?s ?s'" by (simp add: replaces_def reaped_session_def)
  note ev = evolves_upd [OF a(1) heap rep]
  have ok': "sess_ok ?s'"
    using mgr_inv_sess_ok [OF inv a(1)] by (auto simp: sess_ok_def reaped_session_def reaped_call_ok cong: conj_cong)
  have sid: "seID (smHeap m' ! b) = seID (smHeap ?m ! b)" for b
    using a(1) by (cases "b = a") (simp_all add: heap reaped_session_def)
  have len: "length (smHeap m') = length (smHeap ?m)" by (simp add: heap)
  have old: "\<exists>q. call_at ?m b i q \<and> pcID q = pcID p \<and> (\<not> pcResolved p \<longrightarrow> b \<noteq> a \<and> q = p)" if "call_at m' b i p" for b i p
    using that a(1) unfolding call_at_upd [OF a(1) heap]
    by (cases "b = a") (auto simp: call_at_def reaped_session_def)
  have dead: "seID (smHeap ?m ! b) \<noteq> sid" if "b \<noteq> a" "b < length (smHeap ?m)" for b
    using a that mgr_inv_seID [OF inv that(2) a(1)] by simp
  have idx: "smIndex m' cid = Some v \<longleftrightarrow> smIndex ?m cid = Some v \<and> v \<noteq> sid" for cid v
    by (simp add: m'_def reaped_mgr_def)
  have dom: "dom (smSessions m') = dom (smSessions ?m) - {sid}" by (auto simp: m'_def reaped_mgr_def split: if_splits)
  have "mgr_inv m'"
    unfolding mgr_inv_def len
  proof (intro conjI)
    show "\<forall>b < length (smHeap ?m). sess_ok (smHeap m' ! b)"
      using inv ok' a(1) by (auto simp: mgr_inv_def heap nth_list_update)
    show "\<forall>b < length (smHeap ?m). \<forall>c < length (smHeap ?m). seID (smHeap m' ! b) = seID (smHeap m' ! c) \<longrightarrow> b = c"
      using inv unfolding sid mgr_inv_def by blast
    show "\<forall>sid' b. smSessions m' sid' = Some b \<longleftrightarrow>
        b < length (smHeap ?m) \<and> seID (smHeap m' ! b) = sid' \<and> \<not> seReaped (smHeap m' ! b)"
    proof (intro allI)
      fix sid' b
      show "smSessions m' sid' = Some b \<longleftrightarrow>
          b < length (smHeap ?m) \<and> seID (smHeap m' ! b) = sid' \<and> \<not> seReaped (smHeap m' ! b)"
      proof (cases "b = a")
        case True
        have "smSessions ?m sid' = Some a \<longleftrightarrow> sid' = sid" using a by (auto simp: mgr_inv_live [OF inv])
        then show ?thesis using True a(1) by (simp add: m'_def reaped_mgr_def reaped_session_def)
      next
        case False
        have "smSessions ?m sid' = Some b \<longleftrightarrow>
            b < length (smHeap ?m) \<and> seID (smHeap ?m ! b) = sid' \<and> \<not> seReaped (smHeap ?m ! b)"
          by (rule mgr_inv_live [OF inv])
        then show ?thesis using False dead [OF False] sid [of b]
          by (auto simp: m'_def reaped_mgr_def)
      qed
    qed
    show "\<forall>b i p c j q. call_at m' b i p \<longrightarrow> call_at m' c j q \<longrightarrow> pcID p = pcID q \<longrightarrow> b = c \<and> i = j"
    proof (intro allI impI)
      fix b i p c j q assume "call_at m' b i p" "call_at m' c j q" "pcID p = pcID q"
      moreover from this(1) old obtain p' where "call_at ?m b i p'" "pcID p' = pcID p" by blast
      moreover from calculation(2) old obtain q' where "call_at ?m c j q'" "pcID q' = pcID q" by blast
      ultimately have "call_at ?m b i p'" "call_at ?m c j q'" "pcID p' = pcID q'" by simp_all
      then show "b = c \<and> i = j" by (rule mgr_inv_call [OF inv])
    qed
    show "\<forall>cid v. smIndex m' cid = Some v \<longrightarrow> (\<exists>b i p. call_at m' b i p \<and> pcID p = cid \<and> seID (smHeap m' ! b) = v)"
    proof (intro allI impI)
      fix cid v assume "smIndex m' cid = Some v"
      then obtain b i p where c: "call_at ?m b i p" "pcID p = cid" "seID (smHeap ?m ! b) = v"
        using mgr_inv_index [OF inv] unfolding idx by blast
      with ev obtain p' where "call_at m' b i p'" "pcID p' = cid" unfolding evolves_def by blast
      with c(3) sid show "\<exists>b i p. call_at m' b i p \<and> pcID p = cid \<and> seID (smHeap m' ! b) = v" by blast
    qed
    show "finite (dom (smSessions m'))" using inv unfolding dom mgr_inv_def by blast
    have "card (dom (smSessions ?m) - {sid}) \<le> card (dom (smSessions ?m))"
      using inv by (intro card_mono) (auto simp: mgr_inv_def)
    then show "int (card (dom (smSessions m'))) \<le> smMaxSessions m'"
      using inv unfolding dom mgr_inv_def by (simp add: m'_def reaped_mgr_def)
    show "0 \<le> smMaxSessions m'" using inv by (simp add: m'_def reaped_mgr_def mgr_inv_def)
  qed
  moreover have "indexed m' (wdReg w)"
    unfolding indexed_def
  proof (intro allI impI)
    fix b i p assume c: "call_at m' b i p" and u: "\<not> pcResolved p"
    from old [OF c] u have q: "call_at ?m b i p" "b \<noteq> a" by blast+
    then have "seID (smHeap ?m ! b) \<noteq> sid" by (intro dead) (simp_all add: call_at_def)
    with ix q(1) u show "smIndex m' (pcID p) = Some (seID (smHeap m' ! b)) \<or> (\<exists>ids. (b, ids) \<in> set (wdReg w) \<and> pcID p \<in> set ids)"
      unfolding indexed_def idx sid by blast
  qed
  moreover have "tasks_ok m' (wdReg w) (wdRes w)" by (rule tasks_ok_evolves [OF tk ev])
  ultimately show "world_inv (w\<lparr>wdMgr := m'\<rparr>)" by (simp add: world_inv_def)
  show "evolves {} ?m m'" using ev by simp
qed

lemma reap_step:
  assumes "world_inv w"
  shows "\<exists>m'. reapSessionLocked sid (wdMgr w) = Done m' \<and> world_inv (w\<lparr>wdMgr := m'\<rparr>) \<and> evolves {} (wdMgr w) m'"
proof -
  have "mgr_inv (wdMgr w)" using assms by (simp add: world_inv_def)
  from reap_Done [OF this, of sid] show ?thesis
    using assms reaped_step [OF assms, of sid] by (cases "smSessions (wdMgr w) sid") auto
qed

lemma reap_all_step:
  "world_inv w \<Longrightarrow>
   \<exists>m'. reap_all sids (wdMgr w) = Done m' \<and> world_inv (w\<lparr>wdMgr := m'\<rparr>) \<and> evolves {} (wdMgr w) m'"
proof (induction sids arbitrary: w)
  case (Cons sid sids)
  from reap_step [OF Cons.prems, of sid] obtain m where
    m: "reapSessionLocked sid (wdMgr w) = Done m" "world_inv (w\<lparr>wdMgr := m\<rparr>)" "evolves {} (wdMgr w) m" by blast
  from Cons.IH [OF m(2)] obtain m' where "reap_all sids m = Done m'" "world_inv (w\<lparr>wdMgr := m'\<rparr>)" "evolves {} m m'"
    by auto
  with m evolves_trans [OF m(3)] show ?case by auto
qed simp

section \<open>Every event\<close>

lemma done_frame:
  "call_at (m\<lparr>smDone := b\<rparr>) = call_at m" "mgr_inv (m\<lparr>smDone := b\<rparr>) = mgr_inv m"
  "indexed (m\<lparr>smDone := b\<rparr>) regs = indexed m regs" "tasks_ok (m\<lparr>smDone := b\<rparr>) regs ress = tasks_ok m regs ress"
  "evolves X n (m\<lparr>smDone := b\<rparr>) = evolves X n m"
proof -
  show c: "call_at (m\<lparr>smDone := b\<rparr>) = call_at m" by (rule call_at_heap) simp
  show "mgr_inv (m\<lparr>smDone := b\<rparr>) = mgr_inv m" unfolding mgr_inv_def c by simp
  show "indexed (m\<lparr>smDone := b\<rparr>) regs = indexed m regs" unfolding indexed_def c by simp
  show "tasks_ok (m\<lparr>smDone := b\<rparr>) regs ress = tasks_ok m regs ress" unfolding tasks_ok_def c by simp
  show "evolves X n (m\<lparr>smDone := b\<rparr>) = evolves X n m" unfolding evolves_def c by simp
qed

fun touches :: "sess_ev \<Rightarrow> (nat \<times> nat) set" where
  "touches (EAwait a i) = {(a, i)}"
| "touches _ = {}"

lemma sess_do_step:
  assumes "world_inv w" "sess_ev_ok ev w" "sess_do um ordr ev w = Done (w', rep)"
  shows "world_inv w' \<and> evolves (touches ev) (wdMgr w) (wdMgr w')"
  using assms(2,3)
proof (cases ev)
  case (ECreate sid tools now)
  with assms Create_step [of w sid tools now] show ?thesis by (auto split: prod.splits)
next
  case (EAttach a)
  with assms Attach_step [of w a] show ?thesis by auto
next
  case (ERegister a uses ids now)
  show ?thesis
  proof (cases "seReaped (smHeap (wdMgr w) ! a)")
    case True
    with assms ERegister show ?thesis by (auto simp: Register_pending_def)
  next
    case False
    with assms ERegister Register_step [of w a ids uses] newCalls_ids [of ids uses um]
    show ?thesis by auto
  qed
next
  case (EIndex j)
  with assms Index_step [of w j] show ?thesis by (auto split: prod.splits)
next
  case (EResolve a cid result now)
  with assms Resolve_step [of w a cid result now] show ?thesis by auto
next
  case (EUnindex j)
  with assms Unindex_step [of w j] show ?thesis by auto
next
  case (EClaim a name args now)
  with assms Claim_step [of w a name args now] show ?thesis by (auto split: prod.splits)
next
  case (EAwait a i)
  with assms Await_step [of w a i] show ?thesis by (auto simp: outcome_simps)
next
  case (EReap sid)
  with assms reap_step [of w sid] show ?thesis by (auto simp: ReapSession_def)
next
  case (ESupersede ids keep)
  with assms reap_all_step [of w "ordr (superseded ids keep (wdMgr w))"] show ?thesis by (auto simp: ReapSuperseded_def)
next
  case (ESweepCheck sid now)
  with assms show ?thesis by (auto simp: world_inv_def)
next
  case (ESweepReap j)
  with assms reap_step [of w "wdSweep w ! j"] show ?thesis by (auto simp: world_inv_def)
next
  case (EClose sids)
  from reap_all_step [OF assms(1), of sids] obtain m where
    m: "reap_all sids (wdMgr w) = Done m" "world_inv (w\<lparr>wdMgr := m\<rparr>)" "evolves {} (wdMgr w) m" by blast
  with assms(3) EClose have "w' = w\<lparr>wdMgr := m\<lparr>smDone := True\<rparr>\<rparr>" by (simp add: Close_def)
  with m(2,3) EClose show ?thesis by (simp add: world_inv_def done_frame)
qed

end
