(* ===== verification/ServerProps.thy ===== *)
theory ServerProps
  imports Server SessionRun
begin

text \<open>
  What the server's handlers promise, request by request: who may reach them, what they pass to the
  CLI, the shape of what they send, and what of it is recorded.
\<close>

section \<open>Who is let in\<close>

definition public :: "HttpRequest \<Rightarrow> bool" where
  "public r \<longleftrightarrow> (hrMethod r = ''GET'' \<and> hrPath r \<in> {''/healthz'', ''/dashboard'', ''/logo-mark.svg''}) \<or> HasPrefix (hrPath r) ''/mcp/''"

lemma route_private: "\<not> public r \<Longrightarrow> \<not> isAuthorized c r \<Longrightarrow> route c r = Unauthorized"
  by (auto simp: public_def route_def)

lemma route_public:
  "public r \<Longrightarrow> route c r \<in> {Healthz, Dashboard, LogoMark, MCP (TrimPrefix (hrPath r) ''/mcp/'')}"
  by (auto simp: public_def route_def)

text \<open>What a tool-call id holder of one session can do: the poll touches that session alone, and what the call
  is answered with was in one of its channels.\<close>

definition only_session :: "nat \<Rightarrow> SessionManager \<Rightarrow> SessionManager \<Rightarrow> bool" where
  "only_session a m m' \<longleftrightarrow> (\<exists>s'. m' = m\<lparr>smHeap := (smHeap m)[a := s']\<rparr> \<and> map pcResolver (sePending s') = map pcResolver (sePending (smHeap m ! a)))"

lemma only_session_refl: "only_session a m m"
  by (auto simp: only_session_def intro: exI [of _ "smHeap m ! a"])

lemma only_session_trans: "a < length (smHeap m) \<Longrightarrow> only_session a m m' \<Longrightarrow> only_session a m' m'' \<Longrightarrow> only_session a m m''"
  by (auto simp: only_session_def)

lemma Claim_only:
  assumes "a < length (smHeap m)" "ClaimPendingCall a name args now m = (m', r)"
  shows "only_session a m m' \<and> (\<forall>i. r = Some i \<longrightarrow> i < length (sePending (smHeap m ! a)))"
proof (cases "find_claim name args 0 (sePending (smHeap m ! a))")
  case None
  with assms(2) only_session_refl show ?thesis by (auto simp: ClaimPendingCall_def)
next
  case (Some i)
  let ?s = "(updPending i (\<lambda>p. p\<lparr>pcClaimed := True\<rparr>) (smHeap m ! a))\<lparr>seLastActivity := now\<rparr>"
  from Some have i: "i < length (sePending (smHeap m ! a))" by (simp add: find_claim_Some)
  then have "map pcResolver (sePending ?s) = map pcResolver (sePending (smHeap m ! a))"
    by (simp add: updPending_def map_update) (metis length_map list_update_id nth_map)
  moreover from Some assms(2) have "m' = m\<lparr>smHeap := (smHeap m)[a := ?s]\<rparr>" "r = Some i" by (simp_all add: ClaimPendingCall_def)
  ultimately show ?thesis using i unfolding only_session_def by blast
qed

lemma poll_only:
  "a < length (smHeap m) \<Longrightarrow> \<forall>p \<in> set polls. fst p = id \<Longrightarrow> poll_claim a name args polls m = (m', r) \<Longrightarrow>
   only_session a m m' \<and> (\<forall>i. r = Some i \<longrightarrow> i < length (sePending (smHeap m ! a)))"
proof (induction a name args polls m rule: poll_claim.induct)
  case (2 a name args others now polls m)
  obtain m1 r1 where c: "ClaimPendingCall a name args now m = (m1, r1)" by fastforce
  note o = Claim_only [OF "2.prems"(1) c]
  show ?case
  proof (cases r1)
    case None
    have len: "a < length (smHeap m1)" "length (sePending (smHeap m1 ! a)) = length (sePending (smHeap m ! a))"
      using o "2.prems"(1) by (auto simp: only_session_def dest: map_eq_imp_length_eq)
    from "2.IH" [of m1] c None "2.prems" len have
      "only_session a m1 m' \<and> (\<forall>i. r = Some i \<longrightarrow> i < length (sePending (smHeap m1 ! a)))" by simp
    with o len only_session_trans [OF "2.prems"(1)] show ?thesis by auto
  qed (use "2.prems" c o in auto)
qed (simp add: only_session_refl)

text \<open>What a live session's endpoint may say: the protocol's own replies, its tools, a result in one of its channels.\<close>

definition says_own :: "Session \<Rightarrow> mcp_reply \<Rightarrow> bool" where
  "says_own s rep \<longleftrightarrow>
     (case rep of
        McpResult res rid \<Rightarrow> res = initialize_result \<or> res = tools_result (seTools s) \<or>
          (\<exists>p \<in> set (sePending s). \<exists>v \<in> set (rvBuf (pcResolver p)). res = text_result v)
      | _ \<Rightarrow> True)"

text \<open>Of the table, a call of the endpoint may change the session it is for.\<close>

definition other_sessions :: "nat \<Rightarrow> SessionManager \<Rightarrow> SessionManager" where
  "other_sessions a m = m\<lparr>smHeap := take a (smHeap m) @ drop (Suc a) (smHeap m)\<rparr>"

lemma Await_own:
  assumes "only_session a m m1" "a < length (smHeap m)" "i < length (sePending (smHeap m ! a))" "await_result rid a i m1 = Done (m2, rep)"
  shows "other_sessions a m2 = other_sessions a m \<and> says_own (smHeap m ! a) rep"
proof -
  from assms(1) obtain s' where s': "m1 = m\<lparr>smHeap := (smHeap m)[a := s']\<rparr>" and r: "map pcResolver (sePending s') = map pcResolver (sePending (smHeap m ! a))"
    by (auto simp: only_session_def)
  from r assms(3) have i: "i < length (sePending s')" by (metis length_map)
  with r assms(3) have p: "pcResolver (sePending s' ! i) = pcResolver (sePending (smHeap m ! a) ! i)" by (metis nth_map)
  have mem: "sePending (smHeap m ! a) ! i \<in> set (sePending (smHeap m ! a))" using assms(3) by simp
  have own: "says_own (smHeap m ! a) (McpResult (text_result v) rid)" if "rvBuf (pcResolver (sePending (smHeap m ! a) ! i)) = v # vs" for v vs
    using mem that unfolding says_own_def by (auto intro!: bexI [of _ "sePending (smHeap m ! a) ! i"])
  from assms(4) s' assms(2) p show ?thesis
    by (auto simp: await_result_def Await_def recv_def other_sessions_def outcome_simps Let_def own split: list.splits if_splits)
      (simp add: says_own_def)
qed

lemma endpoint_own:
  assumes "handleMCPEndpoint menv mdecode meth body sid m = Done (m', rep)" "smSessions m sid = Some a" "a < length (smHeap m)"
    and "\<forall>p \<in> set (mePolls menv). fst p = id" "meWhileParked menv = id"
  shows "other_sessions a m' = other_sessions a m \<and> says_own (smHeap m ! a) rep"
proof -
  have own: "other_sessions a m2 = other_sessions a m \<and> says_own (smHeap m ! a) r"
    if h: "handleMCPToolsCall menv params rid a m = Done (m2, r)" for params rid m2 r
  proof (cases "meParams menv params")
    case (Some p)
    obtain m1 c where pc: "poll_claim a (tpName p) (canonicalJSON (meUnmarshal menv) (tpArguments p)) (mePolls menv) m = (m1, c)" by fastforce
    from poll_only [OF assms(3,4) pc] have o: "only_session a m m1" and i: "\<And>i. c = Some i \<Longrightarrow> i < length (sePending (smHeap m ! a))" by auto
    show ?thesis
    proof (cases c)
      case None
      with h Some pc o show ?thesis by (auto simp: handleMCPToolsCall_def only_session_def other_sessions_def says_own_def)
    next
      case (Some i')
      with h \<open>meParams menv params = Some p\<close> pc assms(5) have "await_result rid a i' m1 = Done (m2, r)"
        by (simp add: handleMCPToolsCall_def)
      with Await_own [OF o assms(3) i [OF Some]] show ?thesis by blast
    qed
  qed (use h in \<open>auto simp: handleMCPToolsCall_def says_own_def\<close>)
  from assms(1,2) show ?thesis
    by (auto simp: handleMCPEndpoint_def GetSession_def handleMCPInitialize_def handleMCPToolsList_def says_own_def
        split: if_splits option.splits dest: own)
qed

lemma route_mcp: "route c r = MCP (TrimPrefix (hrPath r) ''/mcp/'')" if "hrPath r = ''/mcp/'' @ sid"
  using that by (simp add: route_def HasPrefix_def)


section \<open>What reaches the command line\<close>

definition no_flag :: "gostring \<Rightarrow> bool" where
  "no_flag s \<longleftrightarrow> s = [] \<or> hd s \<noteq> CHR ''-''"

lemma lower_hd: "HasPrefix (ToLower s) p \<Longrightarrow> p \<noteq> [] \<Longrightarrow> s \<noteq> [] \<and> lower_char (hd s) = hd p"
  by (cases s; cases p) (auto simp: HasPrefix_def ToLower_def)

lemma lower_dash_iff: "lower_char c = CHR ''-'' \<longleftrightarrow> c = CHR ''-''"
proof
  assume h: "lower_char c = CHR ''-''"
  show "c = CHR ''-''"
  proof (rule ccontr)
    assume "c \<noteq> CHR ''-''"
    with h have r: "65 \<le> (of_char c :: nat)" "(of_char c :: nat) \<le> 90" and e: "char_of ((of_char c :: nat) + 32) = CHR ''-''"
      by (auto simp: lower_char_def split: if_splits)
    from e have "(of_char (char_of ((of_char c :: nat) + 32) :: char) :: nat) = 45" by simp
    with r show False by (simp add: of_char_of)
  qed
qed (simp add: lower_char_def)

lemma no_flag_lower: "no_flag (ToLower s) \<longleftrightarrow> no_flag s"
  by (cases s) (auto simp: no_flag_def ToLower_def lower_dash_iff)

definition cli_flags :: "gostring list" where
  "cli_flags = [''-p'', ''--output-format'', ''--include-partial-messages'', ''--verbose'', ''--tools'', ''--disable-slash-commands'',
     ''--system-prompt'', ''--resume'', ''--no-session-persistence'', ''--model'', ''--effort'', ''--strict-mcp-config'', ''--mcp-config'']"

lemma no_flag_simps [simp]: "no_flag []" "no_flag (ch # s) \<longleftrightarrow> ch \<noteq> CHR ''-''"
  by (simp_all add: no_flag_def)

lemma run_args_flags:
  assumes "no_flag (roModel opts)" and "no_flag (roEffort opts)"
  shows "list_all (\<lambda>arg. no_flag arg \<or> arg \<in> set cli_flags \<or> arg = roSystemPrompt opts \<or> arg = roResumeSessionID opts) (run_args opts)"
  using assms by (simp add: run_args_def cli_flags_def)

lemma session_args_flags:
  assumes "no_flag (soModel opts)" and "no_flag (soEffort opts)"
  shows "list_all (\<lambda>arg. no_flag arg \<or> arg \<in> set cli_flags \<or> arg = soSystemPrompt opts) (session_args opts)"
  using assms by (simp add: session_args_def cli_flags_def)

lemma no_flag_model:
  assumes "no_flag (cfDefaultModel c)" and "\<forall>m \<in> set (cfModels c). no_flag m"
  shows "no_flag (resolveModel c model)"
proof -
  have al: "no_flag x" if "x \<in> aliases (cfModels c)" for x
    using that assms(2) by (auto simp: aliases_def no_flag_lower)
  have "no_flag (TrimSpace model)" if "HasPrefix (ToLower (TrimSpace model)) ''claude''"
    using lower_hd [OF that] by (auto simp: no_flag_def lower_char_def)
  moreover have "no_flag (TrimSpace model)" if "ToLower (TrimSpace model) \<in> aliases (cfModels c)"
    using al [OF that] by (simp add: no_flag_lower)
  ultimately show ?thesis using assms(1) by (simp add: resolveModel_def Let_def)
qed

lemma no_flag_effort: "no_flag (resolveEffort effort reasoning)"
  by (auto simp: resolveEffort_def validReasoningEfforts_def no_flag_def split: option.split)

text \<open>C14: A client cannot smuggle a flag into the command line: whatever model and effort a request names, every
  argument of the CLI that starts with a dash, in a plain run or in a tool session, is one of the gateway's
  own flags, the system prompt behind its flag, or the id of a session the CLI itself reported.\<close>

theorem no_flag_injection:
  assumes "no_flag (cfDefaultModel c)" and "\<forall>m \<in> set (cfModels c). no_flag m"
    and "m = resolveModel c model" and "e = resolveEffort effort reasoning" and "\<not> no_flag arg"
  shows "(arg \<in> set (run_args (plan_options c plan m e systemPrompt prompt)) \<longrightarrow>
            arg \<in> set cli_flags \<or> arg = systemPrompt \<or> arg = rtCliSessionID plan) \<and>
         (arg \<in> set (session_args (session_options c base m e sid systemPrompt prompt)) \<longrightarrow>
            arg \<in> set cli_flags \<or> arg = systemPrompt)"
proof -
  let ?r = "plan_options c plan m e systemPrompt prompt" and ?s = "session_options c base m e sid systemPrompt prompt"
  have me: "no_flag m" "no_flag e" using no_flag_model [OF assms(1,2)] no_flag_effort assms(3,4) by simp_all
  then have "no_flag (roModel ?r)" "no_flag (roEffort ?r)" "no_flag (soModel ?s)" "no_flag (soEffort ?s)"
    by (simp_all add: plan_options_def session_options_def)
  note flags = run_args_flags [OF this(1,2)] session_args_flags [OF this(3,4)]
  from flags assms(5) show ?thesis by (auto simp: list_all_iff plan_options_def session_options_def)
qed

abbreviation demo_config :: Config where
  "demo_config \<equiv> \<lparr>cfPort = 8787, cfHost = ''127.0.0.1'', cfAPIKey = ''k'', cfDefaultModel = ''sonnet'', cfModels = [''opus''], cfClaudeBin = ''claude'',
     cfTimeoutMS = 300000, cfConcurrency = 4, cfMaxSessions = 16, cfToolTimeoutMS = 120000, cfSessionIdleMS = 600000,
     cfContextLengths = Map.empty, cfDefaultContextLength = 0, cfResumeSessions = False, cfResumeMaxEntries = 32,
     cfExposeReasoning = False, cfUsageDB = ''off''\<rparr>"

theorem no_flag_injection_witness:
  "''--model'' \<in> set (run_args (plan_options demo_config noResume (resolveModel demo_config ''--x'') (resolveEffort [] None) ''s'' ''p'')) \<and>
   ''--x'' \<notin> set (run_args (plan_options demo_config noResume (resolveModel demo_config ''--x'') (resolveEffort [] None) ''s'' ''p''))"
proof -
  let ?args = "run_args (plan_options demo_config noResume (resolveModel demo_config ''--x'') (resolveEffort [] None) ''s'' ''p'')"
  have "resolveModel demo_config ''--x'' = ''sonnet''" by code_simp
  then have "''--model'' \<in> set ?args" by (simp add: run_args_def plan_options_def)
  moreover from no_flag_injection [OF _ _ refl refl, of demo_config "''--x''" noResume "''--x''" "[]" None "''s''" "''p''"] have
    "''--x'' \<notin> set ?args"
    by (auto simp: no_flag_def noResume_def cli_flags_def)
  ultimately show ?thesis by blast
qed

section \<open>What a client is sent\<close>

fun is_delta_chunk :: "'f sse \<Rightarrow> bool" where
  "is_delta_chunk (SChunk c) \<longleftrightarrow> scFinishReason c = None \<and> scUsage c = None \<and> scDelta c \<noteq> DRole"
| "is_delta_chunk _ \<longleftrightarrow> False"

text \<open>
  A well-formed event stream: it opens with the role, goes on with deltas, and closes either with a
  chunk that has the finish reason and the usage, followed by the end marker, or with one error.
\<close>

definition sse_ok :: "'f sse list \<Rightarrow> bool" where
  "sse_ok cs \<longleftrightarrow>
     (\<exists>c0 deltas fin. cs = SChunk c0 # deltas @ fin \<and> scDelta c0 = DRole \<and> list_all is_delta_chunk deltas \<and>
        ((\<exists>msg. fin = [SError msg]) \<or>
         (\<exists>c. fin = [SChunk c, SDone] \<and> scDelta c = DEmpty \<and> scFinishReason c \<noteq> None \<and> scUsage c \<noteq> None)))"

lemma sse_okI_error:
  "list_all is_delta_chunk ds \<Longrightarrow> sse_ok (role_chunk rid created model # ds @ [SError msg])"
  unfolding sse_ok_def role_chunk_def NewStreamChunk_def by fastforce

lemma sse_okI_done:
  "list_all is_delta_chunk ds \<Longrightarrow>
   sse_ok (role_chunk rid created model # ds @ [SChunk (NewStreamChunk rid created m DEmpty (Some fr) (Some u)), SDone])"
  unfolding sse_ok_def role_chunk_def NewStreamChunk_def by fastforce

lemma delta_chunks: "list_all is_delta_chunk (map (delta_chunk rid created model) cbs)"
  by (auto simp: list_all_iff delta_chunk_def NewStreamChunk_def split: callback.split)

lemma stream_turn_ok: "stream_turn rid created model ds out sid sm = Done (sm', RStream cs, tlog) \<Longrightarrow> sse_ok cs"
proof -
  assume h: "stream_turn rid created model ds out sid sm = Done (sm', RStream cs, tlog)"
  let ?open = "map (delta_chunk rid created model) ds"
  let ?calls = "SChunk (NewStreamChunk rid created (toModel out) (DToolCalls (enumerate 0 (ToolCallsFromPending (toCalls out)))) None None)"
  have c: "list_all is_delta_chunk (?open @ [?calls])"
    using delta_chunks by (simp add: NewStreamChunk_def)
  show ?thesis
    using h sse_okI_error [OF delta_chunks] sse_okI_done [OF delta_chunks] sse_okI_done [OF c]
    by (auto simp: stream_turn_def Let_def outcome_simps split: option.splits if_splits)
qed

lemma open_turn_body: "open_turn cf base model effort env req cs trs sm = Done (sm', Inl (resp, tlog)) \<Longrightarrow> \<exists>body. resp = RBody (tlStatus tlog) body"
  by (auto simp: open_turn_def sendError_def failed_log_def outcome_simps split: option.splits sum.splits prod.splits)

lemma answer_turn_body: "answer_turn rid created out sid sm = Done (sm', resp, tlog) \<Longrightarrow> \<exists>body. resp = RBody (tlStatus tlog) body"
  by (auto simp: answer_turn_def sendError_def usage_log_def outcome_simps split: option.splits if_splits)

lemma handleToolTurn_cases:
  assumes "handleToolTurn cf base env req cs trs rid created model effort sm = Done (sm', resp, tlog)"
  obtains (refused) body where "open_turn cf base model effort env req cs trs sm = Done (sm', Inl (resp, tlog))" "resp = RBody (tlStatus tlog) body"
  | (turn) sm1 a st rest sm2 sid out where "open_turn cf base model effort env req cs trs sm = Done (sm1, Inr a)"
      "collectTurn (cfTimeoutMS cf) (teInputs env) = Done (st, rest)" "sm2 = teMeanwhile env sm1" "sid = seID (smHeap sm2 ! a)"
      "out = (if toModel (tnOut st) = [] then (tnOut st)\<lparr>toModel := model\<rparr> else tnOut st)"
      "(if ccStream req then stream_turn rid created model (tnDeltas st) out sid sm2 else answer_turn rid created out sid sm2) =
         Done (sm', resp, tlog)"
proof -
  from assms obtain sm1 opened where op: "open_turn cf base model effort env req cs trs sm = Done (sm1, opened)"
    by (auto simp: handleToolTurn_def outcome_simps)
  show ?thesis
  proof (cases opened)
    case (Inl rl)
    obtain r l where rl: "rl = (r, l)" by fastforce
    with assms op Inl have "open_turn cf base model effort env req cs trs sm = Done (sm', Inl (resp, tlog))" by (simp add: handleToolTurn_def)
    with open_turn_body [OF this] refused show ?thesis by blast
  next
    case (Inr a)
    with assms op obtain st rest where c: "collectTurn (cfTimeoutMS cf) (teInputs env) = Done (st, rest)"
      by (auto simp: handleToolTurn_def outcome_simps)
    show ?thesis
      by (rule turn [OF _ c refl refl refl]) (use assms op Inr c in \<open>simp_all add: handleToolTurn_def Let_def\<close>)
  qed
qed

lemma handleToolTurn_sse:
  assumes "handleToolTurn cf base env req cs trs rid created model effort sm = Done (sm', RStream chunks, tlog)"
  shows "sse_ok chunks"
  using assms
proof (cases rule: handleToolTurn_cases)
  case (turn sm1 a st rest sm2 sid out)
  from turn(6) show ?thesis by (auto split: if_splits dest: stream_turn_ok answer_turn_body)
qed simp

text \<open>The path without tools: it is refused before the CLI is run, for want of a prompt or of a slot, or it is answered.\<close>

lemma stateless_cases:
  assumes "stateless_turn env c req model effort slots store = Done (slots', store', resp, tlog)"
  obtains (refused) status msg kind where "resp = sendError status msg kind" "tlog = failed_log status"
  | (run) opts st where "handleStreamingResponse env req opts st = (store', resp, tlog)"
  | (whole) opts st where "complete env req opts st = (store', resp, tlog)"
proof -
  obtain st plan where p: "planResumeTurn (qeSha256 env) (ccMessages req) model effort store = (st, plan)" by fastforce
  define ans where "ans = (\<lambda>opts. if ccStream req then handleStreamingResponse env req opts st else complete env req opts st)"
  have "(\<exists>status msg kind. resp = sendError status msg kind \<and> tlog = failed_log status) \<or> (\<exists>opts. ans opts = (store', resp, tlog))"
  proof (cases "if rtHit plan then Inr (rtSystemPrompt plan, rtPrompt plan) else BuildPrompt (ccMessages req)")
    case (Inl err)
    with assms p show ?thesis by (auto simp: stateless_turn_def)
  next
    case (Inr sp)
    obtain systemPrompt prompt where sp: "sp = (systemPrompt, prompt)" by fastforce
    with assms p Inr obtain opts slots1 r where
      w: "with_slot (qeSlots env) slots (Done (ans opts)) = Done (slots1, r)"
      and r: "(case r of None \<Rightarrow> Done (slots1, map_option (qeResumeMeanwhile env) st, no_slot) | Some answered \<Rightarrow> Done (slots1, answered)) =
        Done (slots', store', resp, tlog)"
      by (auto simp: stateless_turn_def outcome_simps Let_def ans_def simp del: if_split)
    from w r show ?thesis by (cases r) (auto simp: no_slot_def dest: with_slot_Some)
  qed
  then show thesis using refused run whole by (auto simp: ans_def split: if_splits)
qed

lemma stateless_sse:
  "stateless_turn env c req model effort slots store = Done (slots', store', RStream chunks, tlog) \<Longrightarrow> sse_ok chunks"
  by (erule stateless_cases)
    (auto simp: handleStreamingResponse_def complete_def sendError_def Let_def sse_okI_error [OF delta_chunks] sse_okI_done [OF delta_chunks]
      split: prod.splits sum.splits)

text \<open>The answers of the handler: no slot, or the tool path, or the path without tools.\<close>

lemma answer_chat_cases:
  assumes "answer_chat env req sv = Done (sv', resp, tlog)"
  obtains (no_slot) "(resp, tlog) = no_slot" "svMetrics sv' = svMetrics sv" "svUsage sv' = svUsage sv" "svFiles sv' = svFiles sv"
  | (tools) base cs trs rid created model effort sm sm' where
      "handleToolTurn (svConfig sv) base (qeTurn env) req cs trs rid created model effort sm = Done (sm', resp, tlog)"
      "svMetrics sv' = svMetrics sv" "svUsage sv' = svUsage sv" "svFiles sv' = svFiles sv"
  | (plain) model effort slots slots' store store' where
      "stateless_turn env (svConfig sv) req model effort slots store = Done (slots', store', resp, tlog)"
      "svMetrics sv' = svMetrics sv" "svUsage sv' = svUsage sv" "svFiles sv' = svFiles sv"
proof -
  obtain cs trs where f: "findContinuationSession (ccMessages req) (svSessions sv) = (cs, trs)" by fastforce
  from assms have same: "svMetrics sv' = svMetrics sv" "svUsage sv' = svUsage sv" "svFiles sv' = svFiles sv"
    by (auto simp: answer_chat_def f Let_def outcome_simps split: if_splits option.splits)
  from assms have
    "(resp, tlog) = no_slot \<or>
     (\<exists>base rid created model effort sm sm'.
        handleToolTurn (svConfig sv) base (qeTurn env) req cs trs rid created model effort sm = Done (sm', resp, tlog)) \<or>
     (\<exists>model effort slots slots' store store'.
        stateless_turn env (svConfig sv) req model effort slots store = Done (slots', store', resp, tlog))"
    by (auto simp: answer_chat_def f Let_def outcome_simps split: if_splits option.splits dest!: with_slot_Some) blast+
  then show thesis using no_slot tools plain same by blast
qed

text \<open>C32: Every event stream the gateway sends, with tools or without, is well formed: the role first, then deltas,
  then either the finish reason with the usage and the end marker, or one error and no end marker.\<close>

theorem streams_well_formed:
  assumes "answer_chat env req sv = Done (sv', RStream chunks, tlog)"
  shows "sse_ok chunks"
  using assms by (cases rule: answer_chat_cases) (auto simp: no_slot_def sendError_def dest: handleToolTurn_sse stateless_sse)

text \<open>What a client reads off a stream: the text and the reasoning of its deltas.\<close>

fun chunk_text :: "'f sse \<Rightarrow> gostring" where
  "chunk_text (SChunk c) = (case scDelta c of DContent t \<Rightarrow> t | _ \<Rightarrow> [])"
| "chunk_text _ = []"

fun chunk_reasoning :: "'f sse \<Rightarrow> gostring" where
  "chunk_reasoning (SChunk c) = (case scDelta c of DReasoning t \<Rightarrow> t | _ \<Rightarrow> [])"
| "chunk_reasoning _ = []"

lemma delta_chunk_text:
  "concat (map (chunk_text \<circ> delta_chunk rid created model) cbs) = concat (map cb_text cbs)"
  "concat (map (chunk_reasoning \<circ> delta_chunk rid created model) cbs) = concat (map cb_reasoning cbs)"
  by (induction cbs) (auto simp: delta_chunk_def NewStreamChunk_def split: callback.split)

abbreviation message_of :: "'f CompletionResponse \<Rightarrow> Message" where
  "message_of r \<equiv> chMessage (hd (crChoices r))"

text \<open>C17: Streaming changes nothing but the form: for the same run of the CLI the event stream carries the reasoning,
  the finish reason and the usage of the plain response, the same tokens are recorded and the same
  conversation is stored; and its deltas make up the plain response's text, except that the text of a
  final result line, when there is one, replaces them in the plain response alone.\<close>

theorem stream_agrees:
  assumes "\<not> requiresJSON (ccResponseFormat req)" and "qeRun env 0 opts = CliOutput out exitCode deadline"
    and "complete env req opts store = (store1, RBody 200 (BCompletion r), log1)"
    and "handleStreamingResponse env req opts store = (store2, RStream cs, log2)"
  shows "store1 = store2 \<and> log1 = log2 \<and>
         mgReasoningContent (message_of r) = concat (map chunk_reasoning cs) \<and>
         mgContent (message_of r) = Some (case final_text (parsed_lines (qeParse env) MaxScanTokenSize out) of
            Some t \<Rightarrow> t | None \<Rightarrow> concat (map chunk_text cs)) \<and>
         (\<exists>c. drop (length cs - 2) cs = [SChunk c, SDone] \<and> scFinishReason c = Some (chFinishReason (hd (crChoices r))) \<and>
            scUsage c = Some (crUsage r) \<and> scModel c = crModel r)"
proof -
  obtain res cbs where run: "RunClaude (qeParse env) opts (qeRun env 0 opts) = (res, cbs)" by fastforce
  with assms(3) obtain c where c: "res = Inr c" by (cases res) (auto simp: complete_def sendError_def)
  from RunClaude_deltas [of "qeParse env" opts out exitCode deadline c cbs] run c assms(2)
  have tx: "cmText c = (case final_text (parsed_lines (qeParse env) MaxScanTokenSize out) of Some t \<Rightarrow> t | None \<Rightarrow> concat (map cb_text cbs))"
    and reasoning: "cmReasoningText c = concat (map cb_reasoning cbs)" by simp_all
  let ?opening = "role_chunk (qeID env) (qeCreated env) (roModel opts) # map (delta_chunk (qeID env) (qeCreated env) (roModel opts)) cbs"
  let ?fin = "NewStreamChunk (qeID env) (qeCreated env) (cmModel c) DEmpty (Some (MapFinishReason (cmStopReason c)))
      (Some (ToOpenAIUsage (cmUsage c) (cmCostUSD c)))"
  from assms(4) run c have cs: "cs = ?opening @ [SChunk ?fin, SDone]" and s2: "store2 = record_after env req (roModel opts) (roEffort opts) c store"
      and l2: "log2 = usage_log 200 (cmUsage c) (cmCostUSD c)"
    by (simp_all add: handleStreamingResponse_def)
  from assms(1,3) run c have r: "r = CompletionResponseWithCost (qeID env) (qeCreated env) c"
      and s1: "store1 = record_after env req (roModel opts) (roEffort opts) c store" and l1: "log1 = usage_log 200 (cmUsage c) (cmCostUSD c)"
    by (simp_all add: complete_def json_retry_def)
  have t: "concat (map chunk_text cs) = concat (map cb_text cbs)" "concat (map chunk_reasoning cs) = concat (map cb_reasoning cbs)"
    by (simp_all add: cs delta_chunk_text role_chunk_def NewStreamChunk_def)
  have "drop (length cs - 2) cs = [SChunk ?fin, SDone]" by (simp add: cs)
  then show ?thesis
    by (simp add: s1 s2 l1 l2 t r tx reasoning CompletionResponseWithCost_def NewStreamChunk_def split: option.split)
qed

section \<open>What is recorded\<close>

fun status_of :: "'f response \<Rightarrow> int" where
  "status_of (RBody status body) = status"
| "status_of (RStream cs) = 200"

text \<open>The usage an answer reports to the client: that of its completion, or of the chunks of its stream.\<close>

fun chunk_usage :: "'f sse \<Rightarrow> 'f OpenAIUsage list" where
  "chunk_usage (SChunk c) = (case scUsage c of None \<Rightarrow> [] | Some u \<Rightarrow> [u])"
| "chunk_usage _ = []"

definition reported :: "'f response \<Rightarrow> 'f OpenAIUsage list" where
  "reported resp =
     (case resp of
        RBody _ body \<Rightarrow> (case body of BCompletion r \<Rightarrow> [crUsage r] | _ \<Rightarrow> [])
      | RStream cs \<Rightarrow> concat (map chunk_usage cs))"

text \<open>The log is in step with the answer: its status, and the usage where the answer has one.\<close>

definition in_step :: "'f response \<Rightarrow> 'f turn_log \<Rightarrow> bool" where
  "in_step resp tlog \<longleftrightarrow>
     tlStatus tlog = status_of resp \<and>
     (\<forall>u \<in> set (reported resp). tlPromptTokens tlog = ouPromptTokens u \<and> tlCompletionTokens tlog = ouCompletionTokens u \<and>
        tlCostUSD tlog = ouCostUSD u)"

lemma no_usage_deltas [simp]: "concat (map (chunk_usage \<circ> delta_chunk rid created model) cbs) = []"
  by (induction cbs) (auto simp: delta_chunk_def NewStreamChunk_def split: callback.split)

lemmas in_step_simps = in_step_def reported_def failed_log_def usage_log_def sendError_def ToOpenAIUsage_def prompt_tokens_def
  CompletionResponseWithCost_def NewToolCallResponse_def role_chunk_def NewStreamChunk_def Let_def

lemma stream_turn_in_step: "stream_turn rid created model ds out sid sm = Done (sm', resp, tlog) \<Longrightarrow> in_step resp tlog"
  by (auto simp: stream_turn_def in_step_simps outcome_simps split: option.splits if_splits)

lemma answer_turn_in_step: "answer_turn rid created out sid sm = Done (sm', resp, tlog) \<Longrightarrow> in_step resp tlog"
  by (auto simp: answer_turn_def in_step_simps outcome_completion_def outcome_simps split: option.splits if_splits)

lemma open_turn_in_step: "open_turn cf base model effort env req cs trs sm = Done (sm', Inl (resp, tlog)) \<Longrightarrow> in_step resp tlog"
  by (auto simp: open_turn_def in_step_simps outcome_simps split: option.splits sum.splits prod.splits)

lemma handleToolTurn_in_step:
  assumes "handleToolTurn cf base env req cs trs rid created model effort sm = Done (sm', resp, tlog)"
  shows "in_step resp tlog"
  using assms
proof (cases rule: handleToolTurn_cases)
  case (turn sm1 a st rest sm2 sid out)
  from turn(6) show ?thesis by (auto split: if_splits dest: stream_turn_in_step answer_turn_in_step)
qed (blast intro: open_turn_in_step)

lemma stateless_in_step: "stateless_turn env c req model effort slots store = Done (slots', store', resp, tlog) \<Longrightarrow> in_step resp tlog"
  by (erule stateless_cases)
    (auto simp: handleStreamingResponse_def complete_def in_step_simps split: prod.splits sum.splits)

lemma answer_chat_in_step:
  assumes "answer_chat env req sv = Done (sv', resp, tlog)"
  shows "in_step resp tlog \<and> svMetrics sv' = svMetrics sv \<and> svUsage sv' = svUsage sv \<and> svFiles sv' = svFiles sv"
  using assms
  by (cases rule: answer_chat_cases) (auto simp: no_slot_def in_step_simps dest: handleToolTurn_in_step stateless_in_step)

text \<open>C33: Every chat request is recorded exactly once, whatever becomes of it: the counter of its route under the very
  status the client was sent goes up by one, no other counter moves, and the ledger takes one record of
  today, in memory and on disk, with the tokens and the cost that the answer reports to the client when it
  reports any, as every completion and every complete stream does.\<close>

theorem requests_recorded:
  assumes "handleChatCompletions env r sv = Done (sv', resp)"
  shows "requests_total (svMetrics sv') key st =
           (if key = request_key (hrMethod r) (hrPath r) \<and> st = status_of resp
            then wrap64 (requests_total (svMetrics sv) key st + 1) else requests_total (svMetrics sv) key st) \<and>
         mtDurations (svMetrics sv') = mtDurations (svMetrics sv) @ [qeDurationMs env] \<and>
         (\<exists>input output cost.
            (svFiles sv', svUsage sv') =
              recordUsageOn (qeEncode env) (qeTmp env) (qeSaveFault env) (qeToday env) input output cost (svUsage sv) (svFiles sv) \<and>
            (\<forall>u \<in> set (reported resp). input = ouPromptTokens u \<and> output = ouCompletionTokens u \<and> cost = ouCostUSD u))"
proof -
  have "\<exists>tlog sv1. sv' = log_request env r tlog sv1 \<and> in_step resp tlog \<and> svMetrics sv1 = svMetrics sv \<and> svUsage sv1 = svUsage sv \<and> svFiles sv1 = svFiles sv"
  proof -
    have early: ?thesis if "sv' = log_request env r (failed_log 400) sv" "resp = sendError 400 msg kind" for msg kind
      using that by (intro exI [of _ "failed_log 400"] exI [of _ sv]) (simp add: in_step_simps)
    show ?thesis
      using assms early by (auto simp: handleChatCompletions_def outcome_simps split: option.splits) (use answer_chat_in_step in blast)
  qed
  then obtain tlog sv1 where l: "sv' = log_request env r tlog sv1" and s: "in_step resp tlog"
    and sv1: "svMetrics sv1 = svMetrics sv" "svUsage sv1 = svUsage sv" "svFiles sv1 = svFiles sv" by blast
  have "svMetrics sv' = RecordRequest (hrMethod r) (hrPath r) (status_of resp) (qeDurationMs env) (svMetrics sv)"
    using s by (simp add: l sv1 log_request_def in_step_def split: prod.split)
  moreover have "(svFiles sv', svUsage sv') = recordUsageOn (qeEncode env) (qeTmp env) (qeSaveFault env) (qeToday env)
      (tlPromptTokens tlog) (tlCompletionTokens tlog) (tlCostUSD tlog) (svUsage sv) (svFiles sv)"
    by (simp add: l sv1 log_request_def split: prod.split)
  ultimately show ?thesis using s by (auto simp: requests_total_Record durations_Record in_step_def)
qed

section \<open>A small gateway\<close>

text \<open>A gateway with one request, and the CLI's answer to it.\<close>

definition demo_server :: "nat Server" where
  "demo_server = NewServer (\<lambda>path fs. (fs, disabled)) demo_config Map.empty"

definition demo_req :: "bool \<Rightarrow> ChatCompletionRequest" where
  "demo_req stream =
     \<lparr>ccModel = [], ccMessages = [\<lparr>omRole = ''user'', omContent = JString ''q'', omToolCallID = [], omToolCalls = []\<rparr>], ccTools = [],
      ccToolChoice = JNull, ccStream = stream, ccReasoningEffort = [], ccTemperature = [], ccTopP = [], ccMaxTokens = 0,
      ccMaxCompletionTokens = 0, ccReasoning = None, ccResponseFormat = None\<rparr>"

definition demo_turn_env :: "nat turn_env" where
  "demo_turn_env = \<lparr>teSessionID = ''s'', teStart = (\<lambda>args env input. None), teNow = 0, teStarting = (\<lambda>sm. sm), teMeanwhile = (\<lambda>sm. sm), teInputs = [TTimeout]\<rparr>"

abbreviation demo_slots :: slot_env where
  "demo_slots \<equiv> \<lparr>slBefore = (\<lambda>s. s), slCtxDone = False, slParked = (\<lambda>s. s), slHeld = (\<lambda>s. s)\<rparr>"

definition demo_env :: "bool \<Rightarrow> nat request_env" where
  "demo_env stream =
     \<lparr>qeDecode = (\<lambda>body. Some (demo_req stream)), qeParse = (\<lambda>t. Some (ok_line t)), qeJson = (\<lambda>t. Inl []), qeSha256 = (\<lambda>t. []), qeID = ''id'',
      qeCreated = 0, qeDurationMs = 7, qeReapOrder = (\<lambda>ids. ids), qeSlots = demo_slots, qeBeforeReap = (\<lambda>sm. sm), qeSessionsMeanwhile = (\<lambda>sm. sm),
      qeResumeMeanwhile = (\<lambda>rs. rs), qeRun = (\<lambda>k opts. CliOutput ''hi'' 0 False), qeTurn = demo_turn_env,
      qeEncode = (\<lambda>days. []), qeTmp = ''t'', qeSaveFault = NoFault, qeToday = \<lparr>dtYear = 2025, dtMonth = 6, dtDay = 1\<rparr>\<rparr>"

definition demo_post :: HttpRequest where
  "demo_post = \<lparr>hrMethod = ''POST'', hrPath = ''/v1/chat/completions'', hrAuthorization = [], hrXApiKey = [], hrBody = Some []\<rparr>"

lemma demo_lines: "parsed_lines (\<lambda>t. Some (ok_line t)) MaxScanTokenSize ''hi'' = [ok_line ''hi'']"
  by (simp add: parsed_lines_def scan_lines_def raw_lines_single MaxScanTokenSize_def dropCR_def List.map_filter_def)

lemma demo_run: "\<exists>c. RunClaude (\<lambda>t. Some (ok_line t)) opts (CliOutput ''hi'' 0 False) = (Inr c, [])"
  by (simp add: RunClaude_def demo_lines run_start_def run_result_def Let_def)

lemma demo_prompt: "BuildPrompt (ccMessages (demo_req stream)) = Inr (defaultSystemPrompt, ''q'')"
  by (simp add: demo_req_def BuildPrompt_def add_message_def textOf_def Let_def)

lemma demo_slot: "with_slot demo_slots (NewSemaphore 4) (Done r) = Done (Release_call 0 (Acquire_enter (NewSemaphore 4)), Some r)"
  by (simp add: with_slot_def Acquire_def Acquire_enter_def NewSemaphore_def)

lemma demo_stateless:
  "\<exists>opts slots. stateless_turn (demo_env stream) demo_config (demo_req stream) model effort (NewSemaphore 4) None =
     Done (slots, if stream then handleStreamingResponse (demo_env stream) (demo_req stream) opts None
                  else complete (demo_env stream) (demo_req stream) opts None)"
proof -
  have e: "qeSlots (demo_env stream) = demo_slots" by (simp add: demo_env_def)
  have s: "ccStream (demo_req stream) = stream" "ccResponseFormat (demo_req stream) = None" by (simp_all add: demo_req_def)
  show ?thesis
    using demo_prompt [of stream]
    by (simp add: stateless_turn_def planResumeTurn_def noResume_def e s demo_slot Let_def) blast
qed

lemma demo_server_simps:
  "svResume demo_server = None" "svConfig demo_server = demo_config" "svSlots demo_server = NewSemaphore 4"
  "svSessions demo_server = NewSessionManager 16 120000 600000"
  by (simp_all add: demo_server_def NewServer_def defaults_def Let_def)

lemma demo_answer:
  "\<exists>sv resp tlog. answer_chat (demo_env stream) (demo_req stream) demo_server = Done (sv, resp, tlog) \<and>
     (if stream then (\<exists>cs. resp = RStream cs) else status_of resp = 200)"
proof -
  have f: "findContinuationSession (ccMessages (demo_req stream)) sm = (None, [])" for sm
    by (simp add: demo_req_def findContinuationSession_def trailing_results_def)
  have i: "referencedToolCallIDs (ccMessages (demo_req stream)) = []"
    by (simp add: demo_req_def referencedToolCallIDs_def message_ids_def)
  have t: "ccTools (demo_req stream) = []" by (simp add: demo_req_def)
  have s: "ReapSuperseded ordr [] keep sm = bind_outcome (reap_all (ordr []) sm) (\<lambda>sm'. Done (sm', 0))" for ordr keep sm
    by (simp add: ReapSuperseded_def superseded_def List.map_filter_def)
  obtain c slots where st: "stateless_turn (demo_env stream) demo_config (demo_req stream) (resolveModel demo_config (ccModel (demo_req stream)))
      (resolveEffort (ccReasoningEffort (demo_req stream)) (ccReasoning (demo_req stream))) (NewSemaphore 4) None =
     Done (slots, if stream then handleStreamingResponse (demo_env stream) (demo_req stream) c None else complete (demo_env stream) (demo_req stream) c None)"
    using demo_stateless by blast
  obtain k where k: "RunClaude (\<lambda>t. Some (ok_line t)) c (CliOutput ''hi'' 0 False) = (Inr k, [])" using demo_run by blast
  have e: "qeReapOrder (demo_env b) [] = []" "qeParse (demo_env b) = (\<lambda>t. Some (ok_line t))"
      "qeRun (demo_env b) 0 c = CliOutput ''hi'' 0 False" for b
    by (simp_all add: demo_env_def)
  show ?thesis
    by (simp add: answer_chat_def f i t demo_server_simps s e st handleStreamingResponse_def complete_def Let_def k split: prod.split)
qed

theorem streams_well_formed_witness:
  "\<exists>sv cs tlog. answer_chat (demo_env True) (demo_req True) demo_server = Done (sv, RStream cs, tlog) \<and> sse_ok cs"
proof -
  from demo_answer [of True] obtain sv cs tlog where
    h: "answer_chat (demo_env True) (demo_req True) demo_server = Done (sv, RStream cs, tlog)" by auto
  from streams_well_formed [OF h] h show ?thesis by blast
qed

theorem requests_recorded_witness:
  "\<exists>sv resp. handleChatCompletions (demo_env False) demo_post demo_server = Done (sv, resp) \<and>
     requests_total (svMetrics sv) ''POST /v1/chat/completions'' 200 = 1"
proof -
  from demo_answer [of False] obtain sv resp tlog where
    h: "answer_chat (demo_env False) (demo_req False) demo_server = Done (sv, resp, tlog)" "status_of resp = 200" by auto
  let ?sv = "log_request (demo_env False) demo_post tlog sv"
  have r: "handleChatCompletions (demo_env False) demo_post demo_server = Done (?sv, resp)"
    using h(1) by (simp add: handleChatCompletions_def readBody_def demo_post_def demo_env_def)
  have m: "requests_total (svMetrics demo_server) k s = 0" for k s
    by (simp add: demo_server_def NewServer_def Let_def NewMetrics_def requests_total_def)
  have "requests_total (svMetrics ?sv) ''POST /v1/chat/completions'' 200 = 1"
    using requests_recorded [OF r, of "''POST /v1/chat/completions''" 200] h(2) m by (simp add: request_key_def demo_post_def)
  with r show ?thesis by blast
qed

definition demo_menv :: mcp_env where
  "demo_menv = \<lparr>meParams = (\<lambda>b. None), meUnmarshal = (\<lambda>b. None), meQuote = (\<lambda>t. t), mePolls = [], meWhileParked = (\<lambda>sm. sm)\<rparr>"

definition demo_scrape :: "nat scrape" where
  "demo_scrape = \<lparr>scSeconds = (\<lambda>n. []), scEntries = [], scFormatFloat = (\<lambda>c. []), scDays = []\<rparr>"


theorem stream_agrees_witness:
  "\<exists>r cs store1 store2 log1 log2. complete (demo_env False) (demo_req False) plain_options None = (store1, RBody 200 (BCompletion r), log1) \<and>
     handleStreamingResponse (demo_env False) (demo_req False) plain_options None = (store2, RStream cs, log2) \<and>
     store1 = store2 \<and> mgContent (message_of r) = Some ''hi''"
proof -
  obtain k where k: "RunClaude (\<lambda>t. Some (ok_line t)) plain_options (CliOutput ''hi'' 0 False) = (Inr k, [])" using demo_run by blast
  have e: "qeParse (demo_env False) = (\<lambda>t. Some (ok_line t))" "qeRun (demo_env False) 0 plain_options = CliOutput ''hi'' 0 False"
    by (simp_all add: demo_env_def)
  have j: "\<not> requiresJSON (ccResponseFormat (demo_req False))" by (simp add: demo_req_def requiresJSON_def)
  obtain store1 r log1 where c: "complete (demo_env False) (demo_req False) plain_options None = (store1, RBody 200 (BCompletion r), log1)"
    by (simp add: complete_def e k Let_def)
  obtain store2 cs log2 where st: "handleStreamingResponse (demo_env False) (demo_req False) plain_options None = (store2, RStream cs, log2)"
    by (simp add: handleStreamingResponse_def e k Let_def)
  from stream_agrees [OF j e(2) c st] have "store1 = store2" "mgContent (message_of r) = Some ''hi''"
    by (simp_all add: e demo_lines final_text_def is_result_def)
  with c st show ?thesis by blast
qed

end
