(* ===== verification/SessionProps.thy ===== *)
theory SessionProps
  imports SessionRun
begin

text \<open>
  The properties of the session table: no panic, the cap, delivery of results, claims,
  continuation routing, and what reaping, sweeping and superseding do. They hold in every
  reachable state of the concurrent table of \<open>SessionRun\<close>.
\<close>

lemma sess_start_inv: "sess_start w \<Longrightarrow> world_inv w"
  by (auto simp: sess_start_def NewSessionManager_def world_inv_def mgr_inv_def indexed_def tasks_ok_def call_at_def)

lemma sess_step_inv: "world_inv w \<Longrightarrow> sess_step um ordr w w' \<Longrightarrow> world_inv w'"
  using sess_do_step by (auto simp: sess_step_def)

text \<open>A reaped session stays reaped: the stable predicate of the machine.\<close>

definition is_reaped :: "nat \<Rightarrow> world \<Rightarrow> bool" where
  "is_reaped a w \<longleftrightarrow> a < length (smHeap (wdMgr w)) \<and> seReaped (smHeap (wdMgr w) ! a)"

lemma is_reaped_step: "world_inv w \<Longrightarrow> is_reaped a w \<Longrightarrow> sess_step um ordr w w' \<Longrightarrow> is_reaped a w'"
proof -
  assume w: "world_inv w" and r: "is_reaped a w" and "sess_step um ordr w w'"
  then obtain ev rep where "sess_ev_ok ev w" "sess_do um ordr ev w = Done (w', rep)"
    by (auto simp: sess_step_def)
  from sess_do_step [OF w this] have "evolves (touches ev) (wdMgr w) (wdMgr w')" by blast
  with r show "is_reaped a w'" unfolding is_reaped_def evolves_def by (meson order.strict_trans2)
qed

interpretation st: stable_machine sess_start "sess_step um ordr" world_inv "is_reaped a" for um ordr a
proof
  fix w w' :: world
  show "sess_start w \<Longrightarrow> world_inv w" by (rule sess_start_inv)
  show "world_inv w \<Longrightarrow> sess_step um ordr w w' \<Longrightarrow> world_inv w'" by (rule sess_step_inv)
  show "world_inv w \<Longrightarrow> is_reaped a w \<Longrightarrow> sess_step um ordr w w' \<Longrightarrow> is_reaped a w'" by (rule is_reaped_step)
qed

lemma reach_inv: "sess_start w \<Longrightarrow> (sess_step um ordr)\<^sup>*\<^sup>* w w' \<Longrightarrow> world_inv w'"
  by (rule st.reachable_inv)

text \<open>A run of given events, every one of which is possible when it happens.\<close>

fun sess_exec :: "(gostring \<Rightarrow> json option) \<Rightarrow> (gostring list \<Rightarrow> gostring list) \<Rightarrow> sess_ev list \<Rightarrow> world \<Rightarrow> world option" where
  "sess_exec um ordr [] w = Some w"
| "sess_exec um ordr (ev # evs) w =
     (if sess_ev_ok ev w then
        (case sess_do um ordr ev w of Done (w', rep) \<Rightarrow> sess_exec um ordr evs w' | _ \<Rightarrow> None)
      else None)"

lemma exec_evolves:
  "world_inv w \<Longrightarrow> sess_exec um ordr evs w = Some w' \<Longrightarrow> (\<Union>ev \<in> set evs. touches ev) \<subseteq> X \<Longrightarrow>
   world_inv w' \<and> evolves X (wdMgr w) (wdMgr w')"
proof (induction evs arbitrary: w)
  case (Cons ev evs)
  from Cons.prems(2) obtain v rep where v: "sess_ev_ok ev w" "sess_do um ordr ev w = Done (v, rep)" "sess_exec um ordr evs v = Some w'"
    by (auto split: if_splits outcome.splits)
  from sess_do_step [OF Cons.prems(1) v(1,2)] have s: "world_inv v" "evolves (touches ev) (wdMgr w) (wdMgr v)" by blast+
  from Cons.IH [OF s(1) v(3)] Cons.prems(3) have "world_inv w'" "evolves X (wdMgr v) (wdMgr w')" by auto
  with evolves_trans [OF evolves_mono [OF s(2)]] Cons.prems(3) show ?case by auto
qed simp

section \<open>No panic, no block\<close>

lemma sess_do_Done:
  assumes "world_inv w" "sess_ev_ok ev w"
  shows "(\<exists>r. sess_do um ordr ev w = Done r) \<or> (\<exists>a i. ev = EAwait a i \<and> sess_do um ordr ev w = Blocked)"
proof (cases ev)
  case (EResolve a cid result now)
  with assms Resolve_step [of w a cid result now] show ?thesis by auto
next
  case (EAwait a i)
  then show ?thesis by (cases "rvBuf (pcResolver (sePending (smHeap (wdMgr w) ! a) ! i))") (auto simp: Await_def recv_def)
next
  case (EReap sid)
  with reap_step [OF assms(1), of sid] show ?thesis by (auto simp: ReapSession_def)
next
  case (ESupersede ids keep)
  with reap_all_step [OF assms(1), of "ordr (superseded ids keep (wdMgr w))"] show ?thesis by (auto simp: ReapSuperseded_def)
next
  case (ESweepReap j)
  with reap_step [OF assms(1), of "wdSweep w ! j"] show ?thesis by auto
next
  case (EClose sids)
  with reap_all_step [OF assms(1), of sids] show ?thesis by (auto simp: Close_def)
qed (auto split: prod.split option.split)

text \<open>C1: However the handlers, the stream readers, the MCP calls and the sweeper interleave, no critical
  section of the session table panics by sending on or closing a closed resolver, and none blocks:
  only the MCP handler's wait for a result may.\<close>

theorem sessions_never_panic:
  assumes "sess_start w" and "(sess_step um ordr)\<^sup>*\<^sup>* w w'" and "sess_ev_ok ev w'"
  shows "sess_do um ordr ev w' \<noteq> Panic \<and> (sess_do um ordr ev w' = Blocked \<longrightarrow> (\<exists>a i. ev = EAwait a i))"
  using sess_do_Done [OF reach_inv [OF assms(1,2)] assms(3), of um ordr] by auto

abbreviation fresh_world :: "int \<Rightarrow> world" where
  "fresh_world mx \<equiv> \<lparr>wdMgr = NewSessionManager mx 120000 600000, wdReg = [], wdRes = [], wdSweep = []\<rparr>"

lemma fresh_world_start: "0 \<le> mx \<Longrightarrow> sess_start (fresh_world mx)"
  by (auto simp: sess_start_def)

theorem sessions_never_panic_witness:
  "sess_do (\<lambda>_. None) rev (EReap ''x'') (fresh_world 1) \<noteq> Panic"
  by (rule sessions_never_panic [OF fresh_world_start rtranclp.rtrancl_refl, THEN conjunct1]) simp_all

text \<open>There are never more live sessions than the cap, and a session is refused exactly at the cap.\<close>

theorem session_cap:
  assumes "sess_start w" and "(sess_step um ordr)\<^sup>*\<^sup>* w w'"
  shows "int (GetSessionCount (wdMgr w')) \<le> smMaxSessions (wdMgr w') \<and>
         (snd (CreateSession sid tools now (wdMgr w')) = None \<longleftrightarrow>
            int (GetSessionCount (wdMgr w')) = smMaxSessions (wdMgr w'))"
  using reach_inv [OF assms]
  by (auto simp: world_inv_def mgr_inv_def GetSessionCount_def CreateSession_def Let_def)

theorem session_cap_witness:
  "snd (CreateSession ''s'' [] 0 (wdMgr (fresh_world 0))) = None"
  using session_cap [OF fresh_world_start [of 0] rtranclp.rtrancl_refl, of "''s''" "[]" 0]
  by (simp add: NewSessionManager_def GetSessionCount_def)

section \<open>Results and claims\<close>

text \<open>C4: A result is delivered exactly as the client sent it, whatever happens in between: once
  \<open>ResolveToolCall\<close> has accepted a result for a call, the MCP handler that waits for that call gets
  this result, even when the session has been reaped meanwhile; every further result is refused.\<close>

theorem result_delivered:
  assumes "sess_start w" and "(sess_step um ordr)\<^sup>*\<^sup>* w w1" and "a < length (smHeap (wdMgr w1))"
    and "sePendingByID (smHeap (wdMgr w1) ! a) cid = Some i"
    and "sess_do um ordr (EResolve a cid result now) w1 = Done (w2, RBool True)"
    and "sess_exec um ordr evs w2 = Some w3" and "list_all (\<lambda>ev. ev \<noteq> EAwait a i) evs"
  shows "(\<exists>m. Await a i (wdMgr w3) = Done (m, Some result)) \<and>
         Resolve_pending a cid other later (wdMgr w3) = Done (wdMgr w3, False)"
proof -
  have inv: "world_inv w1" by (rule reach_inv [OF assms(1,2)])
  then have minv: "mgr_inv (wdMgr w1)" by (simp add: world_inv_def)
  from assms(3,4) mgr_inv_sess_ok [OF minv assms(3)]
  have i: "i < length (sePending (smHeap (wdMgr w1) ! a))" "pcID (sePending (smHeap (wdMgr w1) ! a) ! i) = cid"
    by (simp_all add: sess_ok_def)
  from assms(5) obtain m where m: "Resolve_pending a cid result now (wdMgr w1) = Done (m, True)" "wdMgr w2 = m"
    by (auto simp: outcome_simps)
  let ?p = "sePending (smHeap m ! a) ! i"
  have p: "call_at m a i ?p \<and> pcResolved ?p \<and> pcResolver ?p = \<lparr>rvBuf = [result], rvClosed = False\<rparr> \<and> pcID ?p = cid"
    using minv assms(3)
  proof (cases rule: Resolve_cases [where cid = cid and result = result and now = now])
    case unknown
    with m(1) show ?thesis by simp
  next
    case (resolved j)
    have "sePendingByID (smHeap (wdMgr w1) ! a) cid = Some j"
      using mgr_inv_sess_ok [OF minv assms(3)] resolved(1,2) by (simp add: sess_ok_def)
    then have "j = i" using assms(4) by simp
    with resolved m(1) i assms(3) show ?thesis by (auto simp: call_at_def)
  qed
  have inv2: "world_inv w2" using sess_do_step [OF inv _ assms(5)] assms(3) by simp
  have sub: "(\<Union>ev \<in> set evs. touches ev) \<subseteq> - {(a, i)}"
  proof -
    have "(a, i) \<notin> touches ev" if "ev \<in> set evs" for ev
      using assms(7) that by (cases ev) (auto simp: list_all_iff)
    then show ?thesis by blast
  qed
  from exec_evolves [OF inv2 assms(6) sub] m(2)
  have inv3: "world_inv w3" and evo: "evolves (- {(a, i)}) m (wdMgr w3)" by simp_all
  from evo p obtain q where q: "call_at (wdMgr w3) a i q" "pcResolved q" "pcResolver q = pcResolver ?p" "pcID q = cid"
    unfolding evolves_def by blast
  have "sePendingByID (smHeap (wdMgr w3) ! a) cid = Some i"
    using inv3 q(1,4) mgr_inv_sess_ok [of "wdMgr w3" a] by (auto simp: world_inv_def call_at_def sess_ok_def)
  with q p show ?thesis
    by (simp add: Await_def recv_def call_at_def Resolve_pending_def)
qed

lemma exec_reach: "sess_exec um ordr evs w = Some w' \<Longrightarrow> (sess_step um ordr)\<^sup>*\<^sup>* w w'"
proof (induction evs arbitrary: w)
  case (Cons ev evs)
  from Cons.prems obtain v rep where v: "sess_ev_ok ev w" "sess_do um ordr ev w = Done (v, rep)" "sess_exec um ordr evs v = Some w'"
    by (auto split: if_splits outcome.splits)
  then have "sess_step um ordr w v" by (auto simp: sess_step_def)
  with Cons.IH [OF v(3)] show ?case by (rule converse_rtranclp_into_rtranclp [rotated])
qed simp

text \<open>A table with one session and one announced call, as the operations leave it.\<close>

abbreviation demo_call :: PendingToolCall where
  "demo_call \<equiv> \<lparr>pcID = ''c'', pcName = ''f'', pcArguments = ''{}'', pcResolver = \<lparr>rvBuf = [], rvClosed = False\<rparr>,
     pcClaimed = False, pcResolved = False\<rparr>"

abbreviation demo_session :: "PendingToolCall \<Rightarrow> Session" where
  "demo_session p \<equiv> \<lparr>seID = ''s'', seCmd = False, seKills = 0, seTools = [], sePending = [p],
     sePendingByID = [''c'' \<mapsto> 0], seCreatedAt = 0, seLastActivity = 5, seReaped = False\<rparr>"

abbreviation demo_world :: "PendingToolCall \<Rightarrow> world" where
  "demo_world p \<equiv> \<lparr>wdMgr = \<lparr>smHeap = [demo_session p], smSessions = [''s'' \<mapsto> 0], smIndex = [''c'' \<mapsto> ''s''],
     smMaxSessions = 1, smToolTimeoutMS = 120000, smSessionIdleMS = 600000, smDone = False\<rparr>, wdReg = [], wdRes = [], wdSweep = []\<rparr>"

abbreviation demo_use :: ToolUseBlock where
  "demo_use \<equiv> \<lparr>tuID = [], tuName = ''f'', tuInput = []\<rparr>"

lemma demo_reach: "(sess_step (\<lambda>_. None) rev)\<^sup>*\<^sup>* (fresh_world 1) (demo_world demo_call)"
  by (rule exec_reach [of _ _ "[ECreate ''s'' [] 0, ERegister 0 [demo_use] [''c''] 5, EIndex 0]"])
    (simp add: CreateSession_def NewSessionManager_def Register_pending_def newPending_def canonicalJSON_def
      addPending_def all_ids_def Register_index_def Let_def)

lemmas demo_simps = Resolve_pending_def send_def updPending_def ReapSession_def reapSessionLocked_def close_chan_def

theorem result_delivered_witness:
  "\<exists>w2 w3. sess_do (\<lambda>_. None) rev (EResolve 0 ''c'' ''r'' 9) (demo_world demo_call) = Done (w2, RBool True) \<and>
     sess_exec (\<lambda>_. None) rev [EReap ''s''] w2 = Some w3 \<and> (\<exists>m. Await 0 0 (wdMgr w3) = Done (m, Some ''r''))"
proof -
  obtain w2 where w2: "sess_do (\<lambda>_. None) rev (EResolve 0 ''c'' ''r'' 9) (demo_world demo_call) = Done (w2, RBool True)"
    by (simp add: demo_simps)
  moreover from w2 obtain w3 where w3: "sess_exec (\<lambda>_. None) rev [EReap ''s''] w2 = Some w3"
    by (auto simp: demo_simps)
  ultimately show ?thesis
    using result_delivered [OF fresh_world_start demo_reach _ _ w2 w3, of 0] by fastforce
qed

text \<open>C5: MCP calls are matched in announcement order and never twice: a claim takes the first announced,
  unclaimed call with that name and those canonical arguments, and no later claim takes it again.\<close>

theorem claims_fifo_unique:
  assumes "sess_start w" and "(sess_step um ordr)\<^sup>*\<^sup>* w w1" and "a < length (smHeap (wdMgr w1))"
    and "sess_do um ordr (EClaim a name args now) w1 = Done (w2, RClaim (Some i))"
    and "sess_exec um ordr evs w2 = Some w3"
  shows "pcName (sePending (smHeap (wdMgr w1) ! a) ! i) = name \<and> pcArguments (sePending (smHeap (wdMgr w1) ! a) ! i) = args \<and>
         \<not> pcClaimed (sePending (smHeap (wdMgr w1) ! a) ! i) \<and>
         (\<forall>j<i. pcClaimed (sePending (smHeap (wdMgr w1) ! a) ! j) \<or> pcName (sePending (smHeap (wdMgr w1) ! a) ! j) \<noteq> name \<or>
                pcArguments (sePending (smHeap (wdMgr w1) ! a) ! j) \<noteq> args) \<and>
         snd (ClaimPendingCall a name' args' later (wdMgr w3)) \<noteq> Some i"
proof -
  let ?ps = "sePending (smHeap (wdMgr w1) ! a)"
  have inv: "world_inv w1" by (rule reach_inv [OF assms(1,2)])
  have f: "find_claim name args 0 ?ps = Some i"
    using assms(4) by (auto simp: ClaimPendingCall_def split: option.splits)
  have m2: "wdMgr w2 = updSession a (\<lambda>s. (updPending i (\<lambda>p. p\<lparr>pcClaimed := True\<rparr>) s)\<lparr>seLastActivity := now\<rparr>) (wdMgr w1)"
    using assms(4) f by (auto simp: ClaimPendingCall_def)
  have i: "i < length ?ps" using f by (simp add: find_claim_Some)
  have c: "call_at (wdMgr w2) a i ((?ps ! i)\<lparr>pcClaimed := True\<rparr>)"
    using i assms(3) by (simp add: m2 call_at_def)
  have inv2: "world_inv w2" using sess_do_step [OF inv _ assms(4)] assms(3) by simp
  from exec_evolves [OF inv2 assms(5) subset_UNIV] c obtain q where
    "call_at (wdMgr w3) a i q" "pcClaimed q" unfolding evolves_def by fastforce
  then have "snd (ClaimPendingCall a name' args' later (wdMgr w3)) \<noteq> Some i"
    by (auto simp: ClaimPendingCall_def find_claim_Some call_at_def split: option.split)
  with f show ?thesis by (auto simp: find_claim_Some)
qed

theorem claims_fifo_unique_witness:
  "\<exists>w2. sess_do (\<lambda>_. None) rev (EClaim 0 ''f'' ''{}'' 9) (demo_world demo_call) = Done (w2, RClaim (Some 0)) \<and>
     snd (ClaimPendingCall 0 ''f'' ''{}'' 10 (wdMgr w2)) \<noteq> Some 0"
proof -
  obtain w2 where w2: "sess_do (\<lambda>_. None) rev (EClaim 0 ''f'' ''{}'' 9) (demo_world demo_call) = Done (w2, RClaim (Some 0))"
    by (simp add: ClaimPendingCall_def updPending_def)
  have "snd (ClaimPendingCall 0 ''f'' ''{}'' 10 (wdMgr w2)) \<noteq> Some 0"
    using claims_fifo_unique [OF fresh_world_start demo_reach _ w2, of "[]" w2] by simp
  with w2 show ?thesis by blast
qed

section \<open>Continuations\<close>

lemma waiting_call_routes:
  assumes "world_inv w" and h: "a < length (smHeap (wdMgr w))" "sePendingByID (smHeap (wdMgr w) ! a) cid = Some i"
    "\<not> pcResolved (sePending (smHeap (wdMgr w) ! a) ! i)" "list_all (\<lambda>(b, ids). cid \<notin> set ids) (wdReg w)"
  shows "GetSessionByToolCallID cid (wdMgr w) = Some a"
proof -
  let ?m = "wdMgr w"
  have inv: "mgr_inv ?m" and ix: "indexed ?m (wdReg w)" using assms(1) by (simp_all add: world_inv_def)
  have ok: "sess_ok (smHeap ?m ! a)" by (rule mgr_inv_sess_ok [OF inv h(1)])
  with h(2) have i: "i < length (sePending (smHeap ?m ! a))" "pcID (sePending (smHeap ?m ! a) ! i) = cid"
    by (simp_all add: sess_ok_def)
  have live: "\<not> seReaped (smHeap ?m ! a)" using ok h(3) i(1) by (auto simp: sess_ok_def)
  have "call_at ?m a i (sePending (smHeap ?m ! a) ! i)" using h(1) i(1) by (simp add: call_at_def)
  with ix h(3,4) i(2) have "smIndex ?m cid = Some (seID (smHeap ?m ! a))"
    unfolding indexed_def by (force simp: list_all_iff)
  moreover have "smSessions ?m (seID (smHeap ?m ! a)) = Some a" using h(1) live by (simp add: mgr_inv_live [OF inv])
  ultimately show ?thesis by (simp add: GetSessionByToolCallID_def)
qed

text \<open>C24: A continuation finds its session: a tool-call id leads only to a live session that announced that
  very call; and a call that is still waiting in a live session leads to it as soon as its
  registration has completed.\<close>

theorem continuation_routes:
  assumes "sess_start w" and "(sess_step um ordr)\<^sup>*\<^sup>* w w'"
  shows "(GetSessionByToolCallID cid (wdMgr w') = Some a \<longrightarrow>
           a < length (smHeap (wdMgr w')) \<and> \<not> seReaped (smHeap (wdMgr w') ! a) \<and> sePendingByID (smHeap (wdMgr w') ! a) cid \<noteq> None) \<and>
         (a < length (smHeap (wdMgr w')) \<and> sePendingByID (smHeap (wdMgr w') ! a) cid = Some i \<and>
          \<not> pcResolved (sePending (smHeap (wdMgr w') ! a) ! i) \<and> list_all (\<lambda>(b, ids). cid \<notin> set ids) (wdReg w') \<longrightarrow>
           GetSessionByToolCallID cid (wdMgr w') = Some a)"
proof -
  let ?m = "wdMgr w'"
  have w: "world_inv w'" by (rule reach_inv [OF assms])
  then have inv: "mgr_inv ?m" and ix: "indexed ?m (wdReg w')" by (simp_all add: world_inv_def)
  have 1: "a < length (smHeap ?m) \<and> \<not> seReaped (smHeap ?m ! a) \<and> sePendingByID (smHeap ?m ! a) cid \<noteq> None"
    if g: "GetSessionByToolCallID cid ?m = Some a"
  proof -
    from g obtain sid where sid: "smIndex ?m cid = Some sid" "smSessions ?m sid = Some a"
      by (auto simp: GetSessionByToolCallID_def split: option.splits)
    then have a: "a < length (smHeap ?m)" "seID (smHeap ?m ! a) = sid" "\<not> seReaped (smHeap ?m ! a)"
      by (simp_all add: mgr_inv_live [OF inv])
    from mgr_inv_index [OF inv sid(1)] obtain b i p where b: "call_at ?m b i p" "pcID p = cid" "seID (smHeap ?m ! b) = sid" by blast
    then have "b = a" using mgr_inv_seID [OF inv _ a(1), of b] a(2) by (simp add: call_at_def)
    with b mgr_inv_sess_ok [OF inv a(1)] have "sePendingByID (smHeap ?m ! a) cid = Some i"
      by (simp add: call_at_def sess_ok_def)
    with a show ?thesis by simp
  qed
  from 1 waiting_call_routes [OF w] show ?thesis by blast
qed

theorem continuation_routes_witness: "GetSessionByToolCallID ''c'' (wdMgr (demo_world demo_call)) = Some 0"
  using continuation_routes [OF fresh_world_start demo_reach, of "''c''" 0 0] by simp

section \<open>What reaping does\<close>

text \<open>The table with a set of sessions reaped, in closed form.\<close>

definition reap_set :: "gostring set \<Rightarrow> SessionManager \<Rightarrow> SessionManager" where
  "reap_set S m =
     m\<lparr>smHeap := map (\<lambda>s. if seID s \<in> S \<and> \<not> seReaped s then reaped_session s else s) (smHeap m),
       smSessions := (\<lambda>sid. if sid \<in> S then None else smSessions m sid),
       smIndex := map_drop (\<lambda>v. v \<in> S \<and> smSessions m v \<noteq> None) (smIndex m)\<rparr>"

lemma reap_set_empty [simp]: "reap_set {} m = m"
  by (simp add: reap_set_def map_drop_def fun_eq_iff split: option.split)

lemma reap_set_dead:
  "mgr_inv m \<Longrightarrow> smSessions m sid = None \<Longrightarrow> reap_set (insert sid S) m = reap_set S m"
proof -
  assume inv: "mgr_inv m" and none: "smSessions m sid = None"
  have "seReaped (smHeap m ! a)" if "a < length (smHeap m)" "seID (smHeap m ! a) = sid" for a
    using none that mgr_inv_live [OF inv, of sid a] by auto
  then have "map (\<lambda>s. if seID s \<in> insert sid S \<and> \<not> seReaped s then reaped_session s else s) (smHeap m) =
      map (\<lambda>s. if seID s \<in> S \<and> \<not> seReaped s then reaped_session s else s) (smHeap m)"
    by (auto simp: in_set_conv_nth)
  then have heap: "smHeap (reap_set (insert sid S) m) = smHeap (reap_set S m)" by (simp add: reap_set_def)
  have sess: "smSessions (reap_set (insert sid S) m) = smSessions (reap_set S m)"
    using none by (auto simp: reap_set_def fun_eq_iff)
  have idx: "smIndex (reap_set (insert sid S) m) = smIndex (reap_set S m)"
    using none by (auto simp: reap_set_def fun_eq_iff map_drop_def split: option.split)
  show ?thesis
    by (rule SessionManager.equality) (use heap sess idx in \<open>simp_all add: reap_set_def\<close>)
qed

lemma reap_set_insert:
  assumes inv: "mgr_inv m" and a: "smSessions m sid = Some a"
  shows "reap_set (insert sid S) m = reap_set S (reaped_mgr a sid m)"
proof -
  have l: "a < length (smHeap m)" "seID (smHeap m ! a) = sid" "\<not> seReaped (smHeap m ! a)"
    using a by (simp_all add: mgr_inv_live [OF inv])
  have heap: "smHeap (reap_set (insert sid S) m) = smHeap (reap_set S (reaped_mgr a sid m))"
  proof (rule nth_equalityI)
    fix b assume "b < length (smHeap (reap_set (insert sid S) m))"
    then have b: "b < length (smHeap m)" by (simp add: reap_set_def)
    show "smHeap (reap_set (insert sid S) m) ! b = smHeap (reap_set S (reaped_mgr a sid m)) ! b"
    proof (cases "b = a")
      case True
      with l show ?thesis by (simp add: reap_set_def reaped_mgr_def reaped_session_def)
    next
      case False
      then have "seID (smHeap m ! b) \<noteq> sid" using mgr_inv_seID [OF inv b l(1)] l(2) by simp
      with False b show ?thesis by (simp add: reap_set_def reaped_mgr_def)
    qed
  qed (simp add: reap_set_def reaped_mgr_def)
  have sess: "smSessions (reap_set (insert sid S) m) = smSessions (reap_set S (reaped_mgr a sid m))"
    by (auto simp: reap_set_def reaped_mgr_def fun_eq_iff)
  have idx: "smIndex (reap_set (insert sid S) m) = smIndex (reap_set S (reaped_mgr a sid m))"
    using a by (auto simp: reap_set_def reaped_mgr_def fun_eq_iff map_drop_def split: option.split)
  show ?thesis
    by (rule SessionManager.equality) (use heap sess idx in \<open>simp_all add: reap_set_def reaped_mgr_def\<close>)
qed

lemma reap_all_eq: "world_inv w \<Longrightarrow> reap_all sids (wdMgr w) = Done (reap_set (set sids) (wdMgr w))"
proof (induction sids arbitrary: w)
  case (Cons sid sids)
  have inv: "mgr_inv (wdMgr w)" using Cons.prems by (simp add: world_inv_def)
  show ?case
  proof (cases "smSessions (wdMgr w) sid")
    case None
    then show ?thesis using reap_Done [OF inv, of sid] Cons.IH [OF Cons.prems] reap_set_dead [OF inv None]
      by simp
  next
    case (Some a)
    from Cons.IH [OF reaped_step(1) [OF Cons.prems Some]]
    show ?thesis using reap_Done [OF inv, of sid] Some reap_set_insert [OF inv Some] by simp
  qed
qed simp

lemma superseded_set:
  "set (superseded ids keep m) =
     {sid. (\<exists>cid \<in> set ids. smIndex m cid = Some sid) \<and> (\<forall>k. keep = Some k \<longrightarrow> sid \<noteq> seID (smHeap m ! k))}"
  by (auto simp: superseded_def List.map_filter_def split: option.splits if_splits) (force split: option.splits)+

text \<open>C25: Reaping ends a session for its clients: it disappears from the table and no tool-call id leads to it in
  the index any more; its process is killed if it has one; every handler waiting for one of its results
  is released; and whatever happens afterwards, an id never finds the session again, calls announced for it
  are not registered and results for it are refused. (An index entry of a registration that was under way
  may still be written later; it leads nowhere. Claims and the attachment of a process are not refused.)\<close>

theorem reaped_for_good:
  assumes "sess_start w" and "(sess_step um ordr)\<^sup>*\<^sup>* w w1" and "smSessions (wdMgr w1) sid = Some a"
    and "sess_do um ordr (EReap sid) w1 = Done (w2, rep)" and "(sess_step um ordr)\<^sup>*\<^sup>* w2 w3"
  shows "GetSession sid (wdMgr w2) = None \<and> (\<forall>c. smIndex (wdMgr w2) c \<noteq> Some sid) \<and>
         seKills (smHeap (wdMgr w2) ! a) = seKills (smHeap (wdMgr w1) ! a) + of_bool (seCmd (smHeap (wdMgr w1) ! a)) \<and>
         GetSessionByToolCallID cid (wdMgr w3) \<noteq> Some a \<and>
         snd (Register_pending um a uses ids now (wdMgr w3)) = None \<and>
         Resolve_pending a cid result now (wdMgr w3) = Done (wdMgr w3, False) \<and>
         (i < length (sePending (smHeap (wdMgr w1) ! a)) \<and> \<not> pcResolved (sePending (smHeap (wdMgr w1) ! a) ! i) \<longrightarrow>
            (\<exists>m. Await a i (wdMgr w2) = Done (m, None)))"
proof -
  have w1: "world_inv w1" by (rule reach_inv [OF assms(1,2)])
  then have inv: "mgr_inv (wdMgr w1)" by (simp add: world_inv_def)
  have l: "a < length (smHeap (wdMgr w1))" using assms(3) by (simp add: mgr_inv_live [OF inv])
  have m2: "wdMgr w2 = reaped_mgr a sid (wdMgr w1)"
    using assms(3,4) reap_Done [OF inv, of sid] by (auto simp: ReapSession_def)
  have w2: "world_inv w2" using sess_do_step [OF w1 _ assms(4)] by simp
  have "is_reaped a w2" using l by (simp add: is_reaped_def m2 reaped_mgr_def reaped_session_def)
  from st.stuck_run [OF assms(5) w2 this] have r3: "is_reaped a w3" and w3: "world_inv w3" by blast+
  then have a3: "a < length (smHeap (wdMgr w3))" "seReaped (smHeap (wdMgr w3) ! a)" and inv3: "mgr_inv (wdMgr w3)"
    by (simp_all add: is_reaped_def world_inv_def)
  have ok: "sess_ok (smHeap (wdMgr w3) ! a)" by (rule mgr_inv_sess_ok [OF inv3 a3(1)])
  have "GetSessionByToolCallID cid (wdMgr w3) \<noteq> Some a"
    using a3(2) by (auto simp: GetSessionByToolCallID_def mgr_inv_live [OF inv3] split: option.splits)
  moreover have "Resolve_pending a cid result now (wdMgr w3) = Done (wdMgr w3, False)"
    using ok a3(2) by (auto simp: Resolve_pending_def sess_ok_def Let_def split: option.split)
  moreover have "\<exists>m. Await a i (wdMgr w2) = Done (m, None)"
    if h: "i < length (sePending (smHeap (wdMgr w1) ! a))" "\<not> pcResolved (sePending (smHeap (wdMgr w1) ! a) ! i)"
  proof -
    have "pc_ok (sePending (smHeap (wdMgr w1) ! a) ! i)" by (rule sess_ok_pc [OF mgr_inv_sess_ok [OF inv l] h(1)])
    with h l show ?thesis
      by (simp add: Await_def m2 reaped_mgr_def reaped_session_def reaped_call_def pc_ok_def recv_def)
  qed
  ultimately show ?thesis
    using l a3(2) by (simp add: m2 GetSession_def reaped_mgr_def reaped_session_def Register_pending_def)
qed

theorem reaped_for_good_witness:
  "\<exists>w2. sess_do (\<lambda>_. None) rev (EReap ''s'') (demo_world demo_call) = Done (w2, RNone) \<and> GetSession ''s'' (wdMgr w2) = None"
proof -
  obtain w2 where w2: "sess_do (\<lambda>_. None) rev (EReap ''s'') (demo_world demo_call) = Done (w2, RNone)"
    by (simp add: demo_simps)
  have "GetSession ''s'' (wdMgr w2) = None"
    using reaped_for_good [OF fresh_world_start demo_reach _ w2 rtranclp.rtrancl_refl, of 0] by simp
  with w2 show ?thesis by blast
qed

section \<open>The sweeper\<close>

text \<open>
  The table of a reachable world; and what other goroutines can do to it while the sweeper has the table's
  lock: the critical sections that need no more than a session's own lock.
\<close>

definition consistent :: "SessionManager \<Rightarrow> bool" where
  "consistent m \<longleftrightarrow> (\<exists>w. world_inv w \<and> wdMgr w = m)"

fun own_lock :: "sess_ev \<Rightarrow> bool" where
  "own_lock (EAttach a) \<longleftrightarrow> True"
| "own_lock (ERegister a uses ids now) \<longleftrightarrow> True"
| "own_lock (EResolve a cid result now) \<longleftrightarrow> True"
| "own_lock (EClaim a name args now) \<longleftrightarrow> True"
| "own_lock (EAwait a i) \<longleftrightarrow> True"
| "own_lock _ \<longleftrightarrow> False"

definition quiet_step :: "(gostring \<Rightarrow> json option) \<Rightarrow> SessionManager \<Rightarrow> SessionManager \<Rightarrow> bool" where
  "quiet_step um m m' \<longleftrightarrow> (\<exists>w w' ev rep. world_inv w \<and> wdMgr w = m \<and> sess_ev_ok ev w \<and> own_lock ev \<and>
     sess_do um id ev w = Done (w', rep) \<and> wdMgr w' = m')"

definition beside_sweep :: "(gostring \<Rightarrow> json option) \<Rightarrow> (SessionManager \<Rightarrow> SessionManager) \<Rightarrow> bool" where
  "beside_sweep um f \<longleftrightarrow> (\<forall>m. consistent m \<longrightarrow> (quiet_step um)\<^sup>*\<^sup>* m (f m))"

text \<open>Sessions and their ids stay in place, the timeouts stay, and no session enters the table.\<close>

definition follows :: "SessionManager \<Rightarrow> SessionManager \<Rightarrow> bool" where
  "follows m m' \<longleftrightarrow> evolves UNIV m m' \<and> smToolTimeoutMS m' = smToolTimeoutMS m \<and> smSessionIdleMS m' = smSessionIdleMS m"

lemma follows_refl [simp]: "follows m m"
  by (simp add: follows_def)

lemma follows_trans: "follows m m' \<Longrightarrow> follows m' m'' \<Longrightarrow> follows m m''"
  unfolding follows_def using evolves_trans by auto

definition same_table :: "SessionManager \<Rightarrow> SessionManager \<Rightarrow> bool" where
  "same_table m m' \<longleftrightarrow> follows m m' \<and> smSessions m' = smSessions m"

lemma own_lock_table:
  "own_lock ev \<Longrightarrow> sess_do um ordr ev w = Done (w', rep) \<Longrightarrow>
   smSessions (wdMgr w') = smSessions (wdMgr w) \<and> smToolTimeoutMS (wdMgr w') = smToolTimeoutMS (wdMgr w) \<and>
   smSessionIdleMS (wdMgr w') = smSessionIdleMS (wdMgr w)"
  by (cases ev) (auto simp: AttachCmd_def Register_pending_def Resolve_pending_def ClaimPendingCall_def Await_def outcome_simps Let_def
      split: option.splits if_splits)

lemma quiet_step_table: "same_table m0 m \<Longrightarrow> quiet_step um m m' \<Longrightarrow> same_table m0 m'"
proof -
  assume s: "same_table m0 m" and "quiet_step um m m'"
  then obtain w w' ev rep where w: "world_inv w" "wdMgr w = m" "sess_ev_ok ev w" "own_lock ev" "sess_do um id ev w = Done (w', rep)" "wdMgr w' = m'"
    by (auto simp: quiet_step_def)
  from sess_do_step [OF w(1,3,5)] w(2,6) have "evolves UNIV m m'" by (auto intro: evolves_mono)
  moreover note own_lock_table [OF w(4,5)]
  ultimately have "same_table m m'" using w(2,6) by (simp add: same_table_def follows_def)
  with s follows_trans show "same_table m0 m'" unfolding same_table_def by metis
qed

interpretation qu: stable_machine consistent "quiet_step um" consistent "same_table m0" for um m0
proof
  fix m m' :: SessionManager
  show "consistent m \<Longrightarrow> consistent m" .
  show "consistent m \<Longrightarrow> quiet_step um m m' \<Longrightarrow> consistent m'"
    unfolding quiet_step_def consistent_def using sess_do_step by blast
  show "consistent m \<Longrightarrow> same_table m0 m \<Longrightarrow> quiet_step um m m' \<Longrightarrow> same_table m0 m'" by (rule quiet_step_table)
qed

lemma beside_keeps: "beside_sweep um f \<Longrightarrow> consistent m \<Longrightarrow> consistent (f m) \<and> same_table m (f m)"
  using qu.stuck_run [of um m "f m" m] by (simp add: beside_sweep_def same_table_def)

text \<open>One session's turn in the round, and a whole round.\<close>

lemma reap_consistent:
  assumes "consistent m"
  shows "\<exists>m'. reapSessionLocked sid m = Done m' \<and> consistent m' \<and> follows m m' \<and> smSessions m' = (smSessions m)(sid := None)"
proof -
  from assms obtain w where w: "world_inv w" "wdMgr w = m" by (auto simp: consistent_def)
  from reap_step [OF w(1), of sid] w(2) obtain m' where m': "reapSessionLocked sid m = Done m'" "world_inv (w\<lparr>wdMgr := m'\<rparr>)" "evolves {} m m'"
    by blast
  from m'(2) have "consistent m'" by (metis consistent_def world.select_convs(1) world.surjective world.update_convs(1))
  moreover from m'(1) have "smToolTimeoutMS m' = smToolTimeoutMS m" "smSessionIdleMS m' = smSessionIdleMS m" "smSessions m' = (smSessions m)(sid := None)"
    by (auto simp: reapSessionLocked_def Let_def outcome_simps fun_eq_iff split: option.splits)
  ultimately show ?thesis using m'(1,3) by (auto simp: follows_def intro: evolves_mono)
qed

lemma sweep_one:
  assumes "consistent m" "beside_sweep um (others sid)"
  shows "\<exists>m'. sweep others now [sid] m = Done m' \<and> consistent m' \<and> follows m m' \<and>
     smSessions m' = (if sweep_check now sid m then (smSessions m)(sid := None) else smSessions m)"
proof -
  from beside_keeps [OF assms(2,1)] have o: "consistent (others sid m)" "follows m (others sid m)" "smSessions (others sid m) = smSessions m"
    by (simp_all add: same_table_def)
  from reap_consistent [OF o(1), of sid] obtain m' where
    "reapSessionLocked sid (others sid m) = Done m'" "consistent m'" "follows (others sid m) m'" "smSessions m' = (smSessions (others sid m))(sid := None)"
    by blast
  with o follows_trans [OF o(2)] show ?thesis by auto
qed

lemma sweep_append: "sweep others now (xs @ ys) m = bind_outcome (sweep others now xs m) (sweep others now ys)"
proof (induction xs arbitrary: m)
  case (Cons sid xs)
  then show ?case by (cases "reapSessionLocked sid (others sid m)") auto
qed simp

lemma sweep_all:
  "consistent m \<Longrightarrow> (\<And>sid. beside_sweep um (others sid)) \<Longrightarrow>
   \<exists>m'. sweep others now ids m = Done m' \<and> consistent m' \<and> follows m m' \<and>
     (\<forall>sid. smSessions m' sid = smSessions m sid \<or> sid \<in> set ids \<and> smSessions m' sid = None)"
proof (induction ids arbitrary: m)
  case (Cons sid ids)
  from sweep_one [where others = others and sid = sid and now = now, OF Cons.prems(1) Cons.prems(2)] obtain m1 where
    m1: "sweep others now [sid] m = Done m1" "consistent m1" "follows m m1" "smSessions m1 = smSessions m \<or> smSessions m1 = (smSessions m)(sid := None)"
    by metis
  from Cons.IH [OF m1(2) Cons.prems(2)] obtain m' where
    m': "sweep others now ids m1 = Done m'" "consistent m'" "follows m1 m'" "\<forall>sid. smSessions m' sid = smSessions m1 sid \<or> sid \<in> set ids \<and> smSessions m' sid = None"
    by blast
  have "sweep others now (sid # ids) m = Done m'"
    using sweep_append [of others now "[sid]" ids m] m1(1) m'(1) by simp
  moreover have "\<forall>v. smSessions m' v = smSessions m v \<or> v \<in> set (sid # ids) \<and> smSessions m' v = None"
    using m1(4) m'(4) by (metis fun_upd_apply list.set_intros)
  ultimately show ?case using m'(2) follows_trans [OF m1(3) m'(3)] by blast
qed simp

text \<open>C26: A round of the sweeper visits every session once and removes it exactly when, at that visit, it had been
  inactive for longer than the tool timeout with a call of its model still without a result, or for longer
  than the idle timeout with none; what is removed is reaped, and the round never panics. The session's
  own lock is free between the visit and the reap, so that what other handlers do meanwhile, a new result or
  claim among it, does not save the session.\<close>

theorem sweep_reaps_expired:
  assumes "sess_start w" and "(sess_step um ordr)\<^sup>*\<^sup>* w w'" and "\<And>v. beside_sweep um (others v)"
    and "smSessions (wdMgr w') sid = Some a" and "sid \<notin> set before" and "sid \<notin> set after"
  shows "\<exists>m1 m2. sweep others now before (wdMgr w') = Done m1 \<and> sweep others now (before @ sid # after) (wdMgr w') = Done m2 \<and>
    (smSessions m2 sid = None \<longleftrightarrow>
       (if \<exists>p \<in> set (sePending (smHeap m1 ! a)). \<not> pcResolved p
        then now - seLastActivity (smHeap m1 ! a) > wrap64 (smToolTimeoutMS (wdMgr w') * 1000000)
        else now - seLastActivity (smHeap m1 ! a) > wrap64 (smSessionIdleMS (wdMgr w') * 1000000))) \<and>
    (seReaped (smHeap m2 ! a) \<longleftrightarrow> smSessions m2 sid = None)"
proof -
  have w: "world_inv w'" by (rule reach_inv [OF assms(1,2)])
  then have c: "consistent (wdMgr w')" and inv: "mgr_inv (wdMgr w')" by (auto simp: consistent_def world_inv_def)
  from assms(4) have a: "a < length (smHeap (wdMgr w'))" "seID (smHeap (wdMgr w') ! a) = sid" by (simp_all add: mgr_inv_live [OF inv])
  from sweep_all [where others = others and ids = before and now = now, OF c assms(3)] obtain m1 where
    m1: "sweep others now before (wdMgr w') = Done m1" "consistent m1" "follows (wdMgr w') m1" "smSessions m1 sid = Some a"
    using assms(4,5) by metis
  from sweep_one [where others = others and sid = sid and now = now, OF m1(2) assms(3)] obtain m where
    m: "sweep others now [sid] m1 = Done m" "consistent m" "follows m1 m"
       "smSessions m = (if sweep_check now sid m1 then (smSessions m1)(sid := None) else smSessions m1)"
    by blast
  from sweep_all [where others = others and ids = after and now = now, OF m(2) assms(3)] obtain m2 where
    m2: "sweep others now after m = Done m2" "consistent m2" "follows m m2" "smSessions m2 sid = smSessions m sid"
    using assms(6) by metis
  have run: "sweep others now (before @ sid # after) (wdMgr w') = Done m2"
    using sweep_append [of others now before "[sid] @ after" "wdMgr w'"] sweep_append [of others now "[sid]" after m1] m1(1) m(1) m2(1)
    by simp
  have f: "follows (wdMgr w') m2" using follows_trans [OF m1(3) follows_trans [OF m(3) m2(3)]] .
  have t: "smToolTimeoutMS m1 = smToolTimeoutMS (wdMgr w')" "smSessionIdleMS m1 = smSessionIdleMS (wdMgr w')"
    using m1(3) by (simp_all add: follows_def)
  have s: "smSessions m2 sid = (if sweep_check now sid m1 then None else Some a)" using m2(4) m(4) m1(4) by simp
  from f a have a2: "a < length (smHeap m2)" "seID (smHeap m2 ! a) = sid" by (auto simp: follows_def evolves_def)
  from m2(2) have "mgr_inv m2" by (auto simp: consistent_def world_inv_def)
  from mgr_inv_live [OF this, of sid a] a2 s have "seReaped (smHeap m2 ! a) \<longleftrightarrow> smSessions m2 sid = None"
    by (auto split: if_splits)
  with m1(1) run s m1(4) t show ?thesis
    by (intro exI [of _ m1] exI [of _ m2]) (auto simp: sweep_check_def expired_def milliseconds_def list_ex_iff)
qed

text \<open>A result that arrives between the sweeper's look and the reap does not keep the session.\<close>

definition late_result :: "gostring \<Rightarrow> SessionManager \<Rightarrow> SessionManager" where
  "late_result v m =
     (if smHeap m = [] then m
      else case Resolve_pending 0 ''c'' ''r'' 200000000005 m of Done (m', ok) \<Rightarrow> m' | _ \<Rightarrow> m)"

lemma late_result_beside: "beside_sweep (\<lambda>_. None) (late_result v)"
  unfolding beside_sweep_def
proof (intro allI impI)
  fix m assume "consistent m"
  then obtain w where w: "world_inv w" "wdMgr w = m" by (auto simp: consistent_def)
  show "(quiet_step (\<lambda>_. None))\<^sup>*\<^sup>* m (late_result v m)"
  proof (cases "smHeap m = []")
    case False
    with Resolve_step [OF w(1), of 0 "''c''" "''r''" 200000000005] w(2) obtain m' ok where
      "Resolve_pending 0 ''c'' ''r'' 200000000005 m = Done (m', ok)" by auto
    then have "quiet_step (\<lambda>_. None) m (late_result v m)"
      using w False unfolding quiet_step_def
      by (intro exI [of _ w] exI [of _ "w\<lparr>wdMgr := m', wdRes := (if ok then ''c'' # wdRes w else wdRes w)\<rparr>"]
          exI [of _ "EResolve 0 ''c'' ''r'' 200000000005"] exI [of _ "RBool ok"]) (simp add: late_result_def)
    then show ?thesis by blast
  qed (simp add: late_result_def)
qed

theorem sweep_reaps_expired_witness:
  "\<exists>m. sweep late_result 200000000000 [''s''] (wdMgr (demo_world demo_call)) = Done m \<and> GetSession ''s'' m = None \<and> seReaped (smHeap m ! 0)"
  using sweep_reaps_expired [OF fresh_world_start demo_reach, of late_result "''s''" 0 "[]" "[]" 200000000000] late_result_beside
  by (auto simp: GetSession_def wrap64_def)

text \<open>C27: Superseding reaps exactly the live sessions that some referenced tool-call id leads to, other than
  the one the request continues, which is never touched, and counts them once each.\<close>

theorem supersede_spec:
  assumes "sess_start w" and "(sess_step um ordr)\<^sup>*\<^sup>* w w'" and "\<And>xs. set (ordr xs) = set xs"
  shows "ReapSuperseded ordr ids keep (wdMgr w') =
    Done (reap_set {sid. (\<exists>cid \<in> set ids. smIndex (wdMgr w') cid = Some sid) \<and>
                          (\<forall>k. keep = Some k \<longrightarrow> sid \<noteq> seID (smHeap (wdMgr w') ! k))} (wdMgr w'),
          card {sid. (\<exists>cid \<in> set ids. smIndex (wdMgr w') cid = Some sid) \<and>
                     (\<forall>k. keep = Some k \<longrightarrow> sid \<noteq> seID (smHeap (wdMgr w') ! k))})"
proof -
  have "card (set (superseded ids keep (wdMgr w'))) = length (superseded ids keep (wdMgr w'))"
    by (rule distinct_card) (simp add: superseded_def)
  then show ?thesis
    using reap_all_eq [OF reach_inv [OF assms(1,2)], of "ordr (superseded ids keep (wdMgr w'))"]
    by (simp add: ReapSuperseded_def assms(3) flip: superseded_set)
qed

theorem supersede_spec_witness:
  "\<exists>m n. ReapSuperseded rev [''c''] None (wdMgr (demo_world demo_call)) = Done (m, n) \<and> GetSession ''s'' m = None"
  using supersede_spec [OF fresh_world_start demo_reach, of "[''c'']" None]
  by (simp add: reap_set_def GetSession_def)

section \<open>No handler is left waiting\<close>

text \<open>A resolved call has something to receive, a result or the close, until somebody has received from it.\<close>

definition readable_at :: "SessionManager \<Rightarrow> nat \<Rightarrow> nat \<Rightarrow> bool" where
  "readable_at m a i \<longleftrightarrow>
     (\<forall>p. call_at m a i p \<longrightarrow> pcResolved p \<longrightarrow> rvBuf (pcResolver p) \<noteq> [] \<or> rvClosed (pcResolver p))"

lemma readable_heap: "readable_at m a i \<Longrightarrow> smHeap m' = smHeap m \<Longrightarrow> readable_at m' a i"
  using call_at_heap [of m' m] by (simp add: readable_at_def)

lemma readable_reap_set: "readable_at m a i \<Longrightarrow> readable_at (reap_set S m) a i"
  by (auto simp: readable_at_def call_at_def reap_set_def reaped_session_def reaped_call_def)

lemma readable_upd:
  assumes "readable_at m a i" "b < length (smHeap m)" "smHeap m' = (smHeap m)[b := s']"
    "\<And>p. b = a \<Longrightarrow> i < length (sePending s') \<Longrightarrow> p = sePending s' ! i \<Longrightarrow> pcResolved p \<Longrightarrow>
       rvBuf (pcResolver p) \<noteq> [] \<or> rvClosed (pcResolver p)"
  shows "readable_at m' a i"
  using assms(1,4) unfolding readable_at_def call_at_upd [OF assms(2,3)] by auto

lemma readable_atD:
  "readable_at m a i \<Longrightarrow> a < length (smHeap m) \<Longrightarrow> i < length (sePending (smHeap m ! a)) \<Longrightarrow> pcResolved (sePending (smHeap m ! a) ! i) \<Longrightarrow>
   rvBuf (pcResolver (sePending (smHeap m ! a) ! i)) \<noteq> [] \<or> rvClosed (pcResolver (sePending (smHeap m ! a) ! i))"
  by (simp add: readable_at_def call_at_def)

lemma readable_updPending:
  assumes "readable_at m a i" "b < length (smHeap m)" "smHeap m' = (smHeap m)[b := s']"
    "sePending s' = (sePending (smHeap m ! b))[j := q]" "j < length (sePending (smHeap m ! b))"
    "b = a \<Longrightarrow> j = i \<Longrightarrow> pcResolved q \<Longrightarrow> rvBuf (pcResolver q) \<noteq> [] \<or> rvClosed (pcResolver q)"
  shows "readable_at m' a i"
  by (rule readable_upd [OF assms(1-3)]; cases "i = j") (use assms(2,4-6) in \<open>auto dest: readable_atD [OF assms(1)]\<close>)

lemma readable_step:
  assumes w: "world_inv w" and ok: "sess_ev_ok ev w" and d: "sess_do um ordr ev w = Done (w', rep)"
    and "ev \<noteq> EAwait a i" and r: "readable_at (wdMgr w) a i"
  shows "readable_at (wdMgr w') a i"
proof (cases ev)
  case (ECreate sid tools now)
  with d r show ?thesis
    by (auto simp: readable_at_def call_at_def CreateSession_def Let_def nth_append split: if_splits prod.splits)
next
  case (EAttach b)
  with d ok show ?thesis
    by (auto intro!: readable_upd [OF r, of b] simp: AttachCmd_def dest: readable_atD [OF r])
next
  case (ERegister b uses ids now)
  have new: "\<not> pcResolved (newPending um u cid)" for u cid by (simp add: newPending_def)
  show ?thesis
  proof (cases "seReaped (smHeap (wdMgr w) ! b)")
    case True
    with d r ERegister show ?thesis by (simp add: Register_pending_def)
  next
    case False
    with d ERegister have "wdMgr w' = updSession b (\<lambda>s. (fold addPending (map (\<lambda>(u, cid). newPending um u cid) (zip uses ids)) s)
        \<lparr>seLastActivity := now\<rparr>) (wdMgr w)"
      by (auto simp: Register_pending_def Let_def)
    with ok ERegister show ?thesis
      by (auto intro!: readable_upd [OF r, of b] simp: fold_addPending nth_append new split: if_splits
          dest: readable_atD [OF r])
  qed
next
  case (EIndex j)
  obtain b ids where "wdReg w ! j = (b, ids)" by fastforce
  with d EIndex have "smHeap (wdMgr w') = smHeap (wdMgr w)" by (auto simp: Register_index_def)
  then show ?thesis by (rule readable_heap [OF r])
next
  case (EResolve b cid result now)
  from d EResolve obtain m res where m: "Resolve_pending b cid result now (wdMgr w) = Done (m, res)" "wdMgr w' = m"
    by (auto simp: outcome_simps)
  have inv: "mgr_inv (wdMgr w)" using w by (simp add: world_inv_def)
  have b: "b < length (smHeap (wdMgr w))" using ok EResolve by simp
  show ?thesis using inv b
  proof (cases rule: Resolve_cases [where cid = cid and result = result and now = now])
    case unknown
    with m r show ?thesis by simp
  next
    case (resolved j)
    let ?f = "\<lambda>p. p\<lparr>pcResolved := True, pcResolver := \<lparr>rvBuf = [result], rvClosed = False\<rparr>\<rparr>"
    have "wdMgr w' = updSession b (\<lambda>s. (updPending j ?f s)\<lparr>seLastActivity := now\<rparr>) (wdMgr w)"
      using m resolved(4) by simp
    then have "smHeap (wdMgr w') = (smHeap (wdMgr w))[b := (updPending j ?f (smHeap (wdMgr w) ! b))\<lparr>seLastActivity := now\<rparr>]"
      by simp
    from readable_updPending [OF r b this _ resolved(1)] show ?thesis by simp
  qed
next
  case (EUnindex j)
  with d have "smHeap (wdMgr w') = smHeap (wdMgr w)" by (auto simp: Resolve_index_def)
  then show ?thesis by (rule readable_heap [OF r])
next
  case (EClaim b name args now)
  show ?thesis
  proof (cases "find_claim name args 0 (sePending (smHeap (wdMgr w) ! b))")
    case None
    with d r EClaim show ?thesis by (simp add: ClaimPendingCall_def)
  next
    case (Some j)
    let ?s = "smHeap (wdMgr w) ! b"
    from Some d EClaim have "smHeap (wdMgr w') = (smHeap (wdMgr w))[b := (updPending j (\<lambda>p. p\<lparr>pcClaimed := True\<rparr>) ?s)\<lparr>seLastActivity := now\<rparr>]"
      by (auto simp: ClaimPendingCall_def)
    from readable_updPending [OF r _ this, of j "(sePending ?s ! j)\<lparr>pcClaimed := True\<rparr>"] ok EClaim Some readable_atD [OF r]
    show ?thesis by (auto simp: find_claim_Some)
  qed
next
  case (EAwait b j)
  let ?s = "smHeap (wdMgr w) ! b"
  from d EAwait obtain c v where "smHeap (wdMgr w') = (smHeap (wdMgr w))[b := updPending j (\<lambda>p. p\<lparr>pcResolver := c\<rparr>) ?s]"
    by (auto simp: Await_def outcome_simps)
  from readable_updPending [OF r _ this, of j "(sePending ?s ! j)\<lparr>pcResolver := c\<rparr>"] ok EAwait assms(4)
  show ?thesis by auto
next
  case (EReap sid)
  with reap_all_eq [OF w, of "[sid]"] d have "wdMgr w' = reap_set {sid} (wdMgr w)"
    by (auto simp: ReapSession_def outcome_simps)
  with readable_reap_set [OF r] show ?thesis by simp
next
  case (ESupersede ids keep)
  with reap_all_eq [OF w] d readable_reap_set [OF r] show ?thesis by (auto simp: ReapSuperseded_def)
next
  case (ESweepCheck sid now)
  with d have "smHeap (wdMgr w') = smHeap (wdMgr w)" by auto
  then show ?thesis by (rule readable_heap [OF r])
next
  case (ESweepReap j)
  with reap_all_eq [OF w, of "[wdSweep w ! j]"] d have "wdMgr w' = reap_set {wdSweep w ! j} (wdMgr w)"
    by (auto simp: outcome_simps)
  with readable_reap_set [OF r] show ?thesis by simp
next
  case (EClose sids)
  with reap_all_eq [OF w, of sids] d have "smHeap (wdMgr w') = smHeap (reap_set (set sids) (wdMgr w))" by (auto simp: Close_def)
  then show ?thesis by (rule readable_heap [OF readable_reap_set [OF r]])
qed

lemma readable_exec:
  "world_inv w \<Longrightarrow> sess_exec um ordr evs w = Some w' \<Longrightarrow> list_all (\<lambda>ev. ev \<noteq> EAwait a i) evs \<Longrightarrow>
   readable_at (wdMgr w) a i \<Longrightarrow> readable_at (wdMgr w') a i"
proof (induction evs arbitrary: w)
  case (Cons ev evs)
  from Cons.prems(2) obtain v rep where v: "sess_ev_ok ev w" "sess_do um ordr ev w = Done (v, rep)" "sess_exec um ordr evs v = Some w'"
    by (auto split: if_splits outcome.splits)
  have "world_inv v" using sess_do_step [OF Cons.prems(1) v(1,2)] by blast
  moreover have "readable_at (wdMgr v) a i"
    using readable_step [OF Cons.prems(1) v(1,2)] Cons.prems(3,4) by simp
  ultimately show ?case using Cons.IH v(3) Cons.prems(3) by simp
qed simp

lemma Await_blocks_iff:
  assumes "sess_start w" "sess_exec um ordr evs w = Some w1" "list_all (\<lambda>ev. ev \<noteq> EAwait a i) evs" "call_at (wdMgr w1) a i p"
  shows "Await a i (wdMgr w1) = Blocked \<longleftrightarrow> \<not> pcResolved p"
proof -
  have "readable_at (wdMgr w) a i" using assms(1) by (auto simp: sess_start_def NewSessionManager_def readable_at_def call_at_def)
  from readable_exec [OF sess_start_inv [OF assms(1)] assms(2,3) this] have r: "readable_at (wdMgr w1) a i" .
  have "world_inv w1" by (rule reach_inv [OF assms(1) exec_reach [OF assms(2)]])
  then have "sess_ok (smHeap (wdMgr w1) ! a)" using assms(4) by (simp add: world_inv_def call_at_def mgr_inv_sess_ok)
  then have "pc_ok p" using assms(4) by (simp add: call_at_def sess_ok_pc)
  with r assms(4) show ?thesis
    by (auto simp: Await_def recv_def call_at_def readable_at_def pc_ok_def split: list.split)
qed

text \<open>
  A process attached after its session was reaped is never killed: nothing re-checks \<open>Reaped\<close>
  when \<open>StartClaudeSession\<close> stores the command.
\<close>

lemma attached_after_reap: "is_reaped a w \<Longrightarrow> seKills (smHeap (AttachCmd a (wdMgr w)) ! a) = seKills (smHeap (wdMgr w) ! a)"
  by (simp add: is_reaped_def AttachCmd_def)

end
