(* ===== verification/Gateway.thy ===== *)
theory Gateway
  imports ServerProps SessionProps
begin

text \<open>
  The handlers at work on the shared session table: when a session outlives its turn, the way of a tool
  result from the client's request to the CLI's tool call, how long that call may wait, and every
  request among everything else that goes on in the table.
\<close>

section \<open>Interference\<close>

text \<open>
  What other goroutines may do to a table between two steps of a handler: any steps of the table's
  operations, the second halves of operations begun before among them.
\<close>

definition mgr_step :: "(gostring \<Rightarrow> json option) \<Rightarrow> (gostring list \<Rightarrow> gostring list) \<Rightarrow> SessionManager \<Rightarrow> SessionManager \<Rightarrow> bool" where
  "mgr_step um ordr m m' \<longleftrightarrow> (\<exists>w w'. world_inv w \<and> wdMgr w = m \<and> sess_step um ordr w w' \<and> wdMgr w' = m')"

definition interferes :: "(gostring \<Rightarrow> json option) \<Rightarrow> (gostring list \<Rightarrow> gostring list) \<Rightarrow> (SessionManager \<Rightarrow> SessionManager) \<Rightarrow> bool" where
  "interferes um ordr f \<longleftrightarrow> (\<forall>m. consistent m \<longrightarrow> (mgr_step um ordr)\<^sup>*\<^sup>* m (f m))"

lemma mgr_step_evolves: "mgr_step um ordr m m' \<Longrightarrow> evolves UNIV m m'"
proof -
  assume "mgr_step um ordr m m'"
  then obtain w w' ev rep where w: "world_inv w" "wdMgr w = m" "wdMgr w' = m'" "sess_ev_ok ev w" "sess_do um ordr ev w = Done (w', rep)"
    by (auto simp: mgr_step_def sess_step_def)
  from sess_do_step [OF w(1,4,5)] w(2,3) show "evolves UNIV m m'" by (auto intro: evolves_mono)
qed

lemma mgr_run_evolves: "(mgr_step um ordr)\<^sup>*\<^sup>* m m' \<Longrightarrow> evolves UNIV m m'"
  by (induction rule: rtranclp_induct) (auto intro: evolves_trans mgr_step_evolves)

definition grown :: "nat \<Rightarrow> SessionManager \<Rightarrow> bool" where
  "grown n m \<longleftrightarrow> n \<le> length (smHeap m)"

lemma grown_step: "grown n m \<Longrightarrow> mgr_step um ordr m m' \<Longrightarrow> grown n m'"
proof -
  assume g: "grown n m" and "mgr_step um ordr m m'"
  then obtain w w' ev rep where w: "world_inv w" "wdMgr w = m" "wdMgr w' = m'" "sess_ev_ok ev w" "sess_do um ordr ev w = Done (w', rep)"
    by (auto simp: mgr_step_def sess_step_def)
  from sess_do_step [OF w(1,4,5)] have "evolves (touches ev) m m'" using w(2,3) by simp
  with g show "grown n m'" by (auto simp: grown_def evolves_def)
qed

interpretation mg: stable_machine consistent "mgr_step um ordr" consistent "grown n" for um ordr n
proof
  fix m m' :: SessionManager
  show "consistent m \<Longrightarrow> consistent m" .
  show "consistent m \<Longrightarrow> mgr_step um ordr m m' \<Longrightarrow> consistent m'"
    unfolding mgr_step_def consistent_def by (blast intro: sess_step_inv)
  show "consistent m \<Longrightarrow> grown n m \<Longrightarrow> mgr_step um ordr m m' \<Longrightarrow> grown n m'" by (rule grown_step)
qed

lemma interferes_keeps: "interferes um ordr f \<Longrightarrow> consistent m \<Longrightarrow> consistent (f m) \<and> length (smHeap m) \<le> length (smHeap (f m))"
  using mg.stuck_run [of um ordr m "f m" "length (smHeap m)"] by (simp add: interferes_def grown_def)

lemma interferes_evolves: "interferes um ordr f \<Longrightarrow> consistent m \<Longrightarrow> evolves UNIV m (f m)"
  using mgr_run_evolves [of um ordr m "f m"] by (simp add: interferes_def)

lemma consistent_world: "world_inv (w\<lparr>wdMgr := m\<rparr>) \<Longrightarrow> consistent m"
  by (metis consistent_def world.select_convs(1) world.surjective world.update_convs(1))

section \<open>A tool turn keeps the table consistent\<close>

lemma resolve_one:
  assumes "world_inv w" "a < length (smHeap (wdMgr w))"
  shows "\<exists>m' ok. ResolveToolCall a cid result now (wdMgr w) = Done (m', ok) \<and> world_inv (w\<lparr>wdMgr := m'\<rparr>) \<and> evolves {} (wdMgr w) m'"
proof -
  from Resolve_step [OF assms, of cid result now] obtain m1 ok where
    m1: "Resolve_pending a cid result now (wdMgr w) = Done (m1, ok)" "evolves {} (wdMgr w) m1" and
    inv: "world_inv (w\<lparr>wdMgr := m1, wdRes := (if ok then cid # wdRes w else wdRes w)\<rparr>)" by blast
  show ?thesis
  proof (cases ok)
    case False
    with m1 inv show ?thesis by (intro exI [of _ m1] exI [of _ False]) (simp add: ResolveToolCall_def)
  next
    case True
    with Unindex_step [OF inv, of 0] have "world_inv (w\<lparr>wdMgr := Resolve_index cid m1\<rparr>)" "evolves {} m1 (Resolve_index cid m1)"
      by simp_all
    with True m1 evolves_trans [OF m1(2)] show ?thesis
      by (intro exI [of _ "Resolve_index cid m1"] exI [of _ True]) (simp add: ResolveToolCall_def)
  qed
qed

lemma resolve_all_step:
  "world_inv w \<Longrightarrow> a < length (smHeap (wdMgr w)) \<Longrightarrow>
   \<exists>m'. resolve_all a trs now (wdMgr w) = Done m' \<and> world_inv (w\<lparr>wdMgr := m'\<rparr>) \<and> evolves {} (wdMgr w) m'"
proof (induction trs arbitrary: w)
  case (Cons tr trs)
  from resolve_one [OF Cons.prems, of "trToolCallID tr" "trContent tr" now] obtain m ok where
    m: "ResolveToolCall a (trToolCallID tr) (trContent tr) now (wdMgr w) = Done (m, ok)" "world_inv (w\<lparr>wdMgr := m\<rparr>)" "evolves {} (wdMgr w) m"
    by blast
  then have "a < length (smHeap m)" using Cons.prems(2) by (auto simp: evolves_def)
  with Cons.IH [OF m(2)] obtain m' where "resolve_all a trs now m = Done m'" "world_inv (w\<lparr>wdMgr := m'\<rparr>)" "evolves {} m m'"
    by auto
  with m evolves_trans [OF m(3)] show ?case by auto
qed simp

lemma reap_world: "world_inv w \<Longrightarrow> \<exists>m'. ReapSession sid (wdMgr w) = Done m' \<and> world_inv (w\<lparr>wdMgr := m'\<rparr>)"
  using reap_step [of w sid] by (auto simp: ReapSession_def)

lemma reap_session_consistent: "consistent m \<Longrightarrow> \<exists>m'. ReapSession sid m = Done m' \<and> consistent m'"
  unfolding ReapSession_def using reap_consistent [of m sid] by blast

lemma start_consistent:
  assumes "consistent m" "a < length (smHeap m)" "StartClaudeSession start a opts m = (m', err)"
  shows "consistent m'"
proof -
  from assms(1) obtain w where w: "world_inv w" "wdMgr w = m" by (auto simp: consistent_def)
  from Attach_step [OF w(1), of a] assms(2) w(2) have "consistent (AttachCmd a m)" by (auto intro: consistent_world)
  with assms(1,3) show ?thesis by (auto simp: StartClaudeSession_def split: option.splits prod.splits)
qed

lemma open_turn_step:
  assumes "consistent m" and "\<And>a. contSess = Some a \<Longrightarrow> a < length (smHeap m)"
    and "teSessionID env \<notin> seID ` set (smHeap m)" and "interferes um ordr (teStarting env)"
  shows "\<exists>m' opened. open_turn cf base model effort env req contSess trs m = Done (m', opened) \<and> consistent m'"
proof (cases contSess)
  case (Some a)
  from assms(1) obtain w where w: "world_inv w" "wdMgr w = m" by (auto simp: consistent_def)
  from resolve_all_step [OF w(1), of a trs "teNow env"] assms(2) [OF Some] w(2) Some show ?thesis
    by (auto simp: open_turn_def intro: consistent_world)
next
  case None
  note contSess = None
  show ?thesis
  proof (cases "BuildPrompt (ccMessages req)")
    case (Inl err)
    with None assms(1) show ?thesis by (simp add: open_turn_def)
  next
    case (Inr p)
    obtain m1 r where c: "CreateSession (teSessionID env) (ccTools req) (teNow env) m = (m1, r)" by fastforce
    from assms(1) obtain w where w: "world_inv w" "wdMgr w = m" by (auto simp: consistent_def)
    from Create_step [OF w(1) assms(3) [folded w(2)] c [folded w(2)]] have c1: "consistent m1" by (auto intro: consistent_world)
    obtain systemPrompt prompt where p: "p = (systemPrompt, prompt)" by fastforce
    show ?thesis
    proof (cases r)
      case None
      with c Inr p c1 contSess show ?thesis by (simp add: open_turn_def)
    next
      case (Some a)
      let ?m1 = "teStarting env m1"
      let ?opts = "session_options cf base model effort (teSessionID env) systemPrompt prompt"
      from Some have "a < length (smHeap m1)" using c by (auto simp: CreateSession_def Let_def split: if_splits)
      with interferes_keeps [OF assms(4) c1] have c2: "consistent ?m1" and a: "a < length (smHeap ?m1)" by auto
      obtain m2 err where st: "StartClaudeSession (teStart env) a ?opts ?m1 = (m2, err)" by fastforce
      note c3 = start_consistent [OF c2 a st]
      show ?thesis
      proof (cases err)
        case None
        with c Inr p Some st c3 contSess show ?thesis by (simp add: open_turn_def)
      next
        case (Some e)
        from reap_session_consistent [OF c3, of "teSessionID env"] obtain m3 where
          "ReapSession (teSessionID env) m2 = Done m3" "consistent m3" by blast
        with c Inr p \<open>r = Some a\<close> st Some contSess show ?thesis by (simp add: open_turn_def)
      qed
    qed
  qed
qed

lemma answer_no_panic:
  assumes "world_inv w"
  shows "\<exists>r. answer_turn rid created out sid (wdMgr w) = Done r" and "\<exists>r. stream_turn rid created model ds out sid (wdMgr w) = Done r"
  using reap_world [OF assms, of sid] by (auto simp: answer_turn_def stream_turn_def Let_def split: option.split)

lemma collect_no_panic: "collect ms ins st \<noteq> Panic"
proof (induction ms ins st rule: collect.induct)
  case (5 ms ev ins st)
  obtain st1 b where "turn_event ev st = (st1, b)" by fastforce
  with "5.IH" [of st1 b] show ?case by auto
qed simp_all

section \<open>When a session stays\<close>

fun calls_chunk :: "'f sse \<Rightarrow> bool" where
  "calls_chunk (SChunk k) = (case scDelta k of DToolCalls _ \<Rightarrow> True | _ \<Rightarrow> False)"
| "calls_chunk _ = False"

definition announces :: "'f response \<Rightarrow> bool" where
  "announces resp =
     (case resp of
        RBody _ body \<Rightarrow> (case body of BCompletion r \<Rightarrow> list_ex (\<lambda>c. mgToolCalls (chMessage c) \<noteq> None) (crChoices r) | _ \<Rightarrow> False)
      | RStream cs \<Rightarrow> list_ex calls_chunk cs)"

lemma reap_gone: "ReapSession sid m = Done m' \<Longrightarrow> smSessions m' sid = None"
  by (auto simp: ReapSession_def reapSessionLocked_def Let_def outcome_simps split: option.splits)

lemma deltas_no_calls [simp]: "\<not> list_ex calls_chunk (map (delta_chunk rid created model) cbs)"
  by (induction cbs) (auto simp: delta_chunk_def NewStreamChunk_def split: callback.split)

lemma answer_turn_session:
  assumes "answer_turn rid created out sid sm = Done (sm', resp, tlog)"
  shows "(announces resp \<longrightarrow> sm' = sm) \<and> (\<not> announces resp \<longrightarrow> smSessions sm' sid = None)"
  using assms
  by (auto simp: answer_turn_def announces_def sendError_def CompletionResponseWithCost_def NewToolCallResponse_def
      outcome_simps reap_gone split: option.splits if_splits)

lemma stream_turn_session:
  assumes "stream_turn rid created model ds out sid sm = Done (sm', resp, tlog)"
  shows "(announces resp \<longrightarrow> sm' = sm) \<and> (\<not> announces resp \<longrightarrow> smSessions sm' sid = None)"
  using assms
  by (auto simp: stream_turn_def announces_def role_chunk_def NewStreamChunk_def Let_def
      outcome_simps reap_gone split: option.splits if_splits)

text \<open>C8: A session outlives its turn exactly when the answer hands tool calls to the client: a turn that ends the
  run, fails, times out or is abandoned reaps its session, and one that announces calls leaves the table
  as it is.\<close>

theorem session_survives_iff:
  assumes "open_turn cf base model effort env req contSess trs sm = Done (sm1, Inr a)"
    and "handleToolTurn cf base env req contSess trs rid created model effort sm = Done (sm', resp, tlog)"
    and "sm2 = teMeanwhile env sm1" and "sid = seID (smHeap sm2 ! a)" and "smSessions sm2 sid \<noteq> None"
  shows "(smSessions sm' sid \<noteq> None \<longleftrightarrow> announces resp) \<and> (announces resp \<longrightarrow> sm' = sm2)"
  using assms(2)
proof (cases rule: handleToolTurn_cases)
  case (refused body)
  with assms(1) show ?thesis by simp
next
  case (turn sm1' a' st rest sm2' sid' out)
  from turn(1) assms(1) have "sm1' = sm1" "a' = a" by simp_all
  with turn(3,4) assms(3,4) have "sm2' = sm2" "sid' = sid" by simp_all
  with turn(6) have "(announces resp \<longrightarrow> sm' = sm2) \<and> (\<not> announces resp \<longrightarrow> smSessions sm' sid = None)"
    by (auto split: if_splits dest: answer_turn_session stream_turn_session)
  with assms(5) show ?thesis by auto
qed

theorem session_survives_iff_witness:
  "\<exists>sm' resp tlog. handleToolTurn demo_config [] demo_turn_env (demo_req False) (Some 0) [] ''id'' 0 ''m'' [] (wdMgr (demo_world demo_call)) = Done (sm', resp, tlog) \<and>
     smSessions sm' ''s'' = None"
proof -
  let ?m = "wdMgr (demo_world demo_call)"
  have op: "open_turn demo_config [] ''m'' [] demo_turn_env (demo_req False) (Some 0) [] ?m = Done (?m, Inr 0)" by (simp add: open_turn_def)
  obtain sm' resp tlog where h: "handleToolTurn demo_config [] demo_turn_env (demo_req False) (Some 0) [] ''id'' 0 ''m'' [] ?m = Done (sm', resp, tlog)"
      and r: "\<not> announces resp"
    unfolding handleToolTurn_def op
    by (simp add: demo_turn_env_def demo_req_def collectTurn_def turn_start_def turn_fail_def answer_turn_def demo_simps
        sendError_def announces_def Let_def)
  from session_survives_iff [OF op h refl refl] r have "smSessions sm' ''s'' = None" by (simp add: demo_turn_env_def)
  with h show ?thesis by blast
qed

section \<open>The way of a tool result\<close>

lemma resolve_waiting:
  assumes "world_inv w" "call_at (wdMgr w) a i p" "pcID p = cid" "\<not> pcResolved p"
    and "ResolveToolCall a cid result now (wdMgr w) = Done (m, ok)"
  shows "\<exists>q. call_at m a i q \<and> pcID q = cid \<and> pcResolved q \<and> pcResolver q = \<lparr>rvBuf = [result], rvClosed = False\<rparr>"
    and "\<And>j q. call_at m a j q \<Longrightarrow> j \<noteq> i \<Longrightarrow> call_at (wdMgr w) a j q"
proof -
  let ?m = "wdMgr w"
  have inv: "mgr_inv ?m" using assms(1) by (simp add: world_inv_def)
  have a: "a < length (smHeap ?m)" "i < length (sePending (smHeap ?m ! a))" "p = sePending (smHeap ?m ! a) ! i"
    using assms(2) by (simp_all add: call_at_def)
  let ?f = "\<lambda>p. p\<lparr>pcResolved := True, pcResolver := \<lparr>rvBuf = [result], rvClosed = False\<rparr>\<rparr>"
  have heap: "smHeap m = (smHeap ?m)[a := (updPending i ?f (smHeap ?m ! a))\<lparr>seLastActivity := now\<rparr>]"
    using inv a(1)
  proof (cases rule: Resolve_cases [where cid = cid and result = result and now = now])
    case unknown
    with assms(2-4) show ?thesis by blast
  next
    case (resolved j)
    from mgr_inv_call [OF inv, of a i p a j "sePending (smHeap ?m ! a) ! j"] resolved a assms(2,3)
    have "j = i" by (simp add: call_at_def)
    with resolved(4) assms(5) show ?thesis by (auto simp: ResolveToolCall_def Resolve_index_def)
  qed
  show "\<exists>q. call_at m a i q \<and> pcID q = cid \<and> pcResolved q \<and> pcResolver q = \<lparr>rvBuf = [result], rvClosed = False\<rparr>"
    using a assms(3) by (simp add: call_at_def heap updPending_def)
  show "call_at ?m a j q" if "call_at m a j q" "j \<noteq> i" for j q
    using that a(1) by (simp add: call_at_def heap updPending_def)
qed

definition waits :: "SessionManager \<Rightarrow> nat \<Rightarrow> gostring \<Rightarrow> bool" where
  "waits m a cid \<longleftrightarrow> (\<exists>i p. call_at m a i p \<and> pcID p = cid \<and> \<not> pcResolved p)"

lemma resolve_all_results:
  "world_inv w \<Longrightarrow> distinct (map trToolCallID trs) \<Longrightarrow> \<forall>tr \<in> set trs. waits (wdMgr w) a (trToolCallID tr) \<Longrightarrow>
   resolve_all a trs now (wdMgr w) = Done m' \<Longrightarrow> tr \<in> set trs \<Longrightarrow>
   \<exists>i q. call_at m' a i q \<and> pcID q = trToolCallID tr \<and> pcResolved q \<and> pcResolver q = \<lparr>rvBuf = [trContent tr], rvClosed = False\<rparr>"
proof (induction trs arbitrary: w)
  case (Cons t ts)
  from Cons.prems(3) obtain i p where ip: "call_at (wdMgr w) a i p" "pcID p = trToolCallID t" "\<not> pcResolved p"
    by (auto simp: waits_def)
  then have a: "a < length (smHeap (wdMgr w))" by (simp add: call_at_def)
  from resolve_one [OF Cons.prems(1) a, of "trToolCallID t" "trContent t" now] obtain m ok where
    m: "ResolveToolCall a (trToolCallID t) (trContent t) now (wdMgr w) = Done (m, ok)" and inv: "world_inv (w\<lparr>wdMgr := m\<rparr>)"
    and ev: "evolves {} (wdMgr w) m" by blast
  from Cons.prems(4) m have rest: "resolve_all a ts now m = Done m'" by simp
  note rw = resolve_waiting [OF Cons.prems(1) ip m]
  have am: "a < length (smHeap m)" using ev a by (auto simp: evolves_def)
  show ?case
  proof (cases "tr = t")
    case True
    from rw(1) obtain q where q: "call_at m a i q" "pcID q = trToolCallID t" "pcResolved q" "pcResolver q = \<lparr>rvBuf = [trContent t], rvClosed = False\<rparr>"
      by blast
    from resolve_all_step [OF inv, of a ts now] am rest have "evolves {} m m'" by auto
    with q obtain q' where "call_at m' a i q'" "pcID q' = pcID q" "pcResolved q'" "pcResolver q' = pcResolver q"
      unfolding evolves_def by blast
    with q True show ?thesis by auto
  next
    case False
    with Cons.prems(5) have tr: "tr \<in> set ts" by simp
    have "waits m a (trToolCallID s)" if "s \<in> set ts" for s
    proof -
      from Cons.prems(3) that obtain j q where j: "call_at (wdMgr w) a j q" "pcID q = trToolCallID s" "\<not> pcResolved q"
        by (auto simp: waits_def)
      from Cons.prems(2) that have "trToolCallID s \<noteq> trToolCallID t" by (auto simp: image_iff)
      with ip(1,2) j(1,2) have "j \<noteq> i" by (auto simp: call_at_def)
      moreover from ev j(1) obtain q' where "call_at m a j q'" unfolding evolves_def by blast
      moreover from this rw(2) \<open>j \<noteq> i\<close> have "call_at (wdMgr w) a j q'" by blast
      ultimately show ?thesis using j call_at_fun [OF j(1)] unfolding waits_def by blast
    qed
    with Cons.IH [OF inv] Cons.prems(2) rest tr show ?thesis by simp
  qed
qed simp

text \<open>C2: The tool loop closes: when the trailing tool messages of a request answer calls that wait in one session,
  the request is routed to that session, every result is accepted, and each parked MCP call of the CLI
  is answered with exactly the text the client sent for it.\<close>

theorem tool_results_roundtrip:
  assumes "sess_start w" and "(sess_step um ordr)\<^sup>*\<^sup>* w w1"
    and "trs = trailing_results messages" and "trs \<noteq> []" and "distinct (map trToolCallID trs)"
    and "\<forall>tr \<in> set trs. waits (wdMgr w1) a (trToolCallID tr) \<and> list_all (\<lambda>(b, ids). trToolCallID tr \<notin> set ids) (wdReg w1)"
  shows "findContinuationSession messages (wdMgr w1) = (Some a, trs) \<and>
         (\<exists>m. resolve_all a trs now (wdMgr w1) = Done m \<and>
            (\<forall>tr \<in> set trs. \<exists>i m'. sePendingByID (smHeap m ! a) (trToolCallID tr) = Some i \<and>
               await_result rid a i m = Done (m', McpResult (text_result (trContent tr)) rid)))"
proof
  have inv: "world_inv w1" by (rule reach_inv [OF assms(1,2)])
  then have minv: "mgr_inv (wdMgr w1)" by (simp add: world_inv_def)
  obtain t ts where trs: "trs = t # ts" using assms(4) by (cases trs) auto
  with assms(6) obtain i p where ip: "call_at (wdMgr w1) a i p" "pcID p = trToolCallID t" "\<not> pcResolved p"
    by (auto simp: waits_def)
  then have a: "a < length (smHeap (wdMgr w1))" by (simp add: call_at_def)
  have "sePendingByID (smHeap (wdMgr w1) ! a) (trToolCallID t) = Some i"
    using ip(1,2) mgr_inv_sess_ok [OF minv a] by (simp add: call_at_def sess_ok_def)
  from waiting_call_routes [OF inv a this] ip assms(6) trs
  have "GetSessionByToolCallID (trToolCallID t) (wdMgr w1) = Some a" by (simp add: call_at_def)
  then show "findContinuationSession messages (wdMgr w1) = (Some a, trs)"
    using assms(3) trs by (simp add: findContinuationSession_def Let_def flip: assms(3))
  from resolve_all_step [OF inv a, of trs now] obtain m where
    m: "resolve_all a trs now (wdMgr w1) = Done m" "world_inv (w1\<lparr>wdMgr := m\<rparr>)" by blast
  then have minv': "mgr_inv m" by (simp add: world_inv_def)
  show "\<exists>m. resolve_all a trs now (wdMgr w1) = Done m \<and>
      (\<forall>tr \<in> set trs. \<exists>i m'. sePendingByID (smHeap m ! a) (trToolCallID tr) = Some i \<and>
         await_result rid a i m = Done (m', McpResult (text_result (trContent tr)) rid))"
  proof (rule exI [of _ m], intro conjI ballI)
    show "resolve_all a trs now (wdMgr w1) = Done m" by (rule m(1))
    fix tr assume "tr \<in> set trs"
    from resolve_all_results [OF inv assms(5) _ m(1) this] assms(6) obtain i q where
      q: "call_at m a i q" "pcID q = trToolCallID tr" "pcResolver q = \<lparr>rvBuf = [trContent tr], rvClosed = False\<rparr>" by blast
    then have "sePendingByID (smHeap m ! a) (trToolCallID tr) = Some i"
      using mgr_inv_sess_ok [OF minv', of a] by (simp add: call_at_def sess_ok_def)
    moreover have "\<exists>m'. await_result rid a i m = Done (m', McpResult (text_result (trContent tr)) rid)"
      using q(1,3) by (simp add: await_result_def Await_def recv_def call_at_def)
    ultimately show "\<exists>i m'. sePendingByID (smHeap m ! a) (trToolCallID tr) = Some i \<and>
         await_result rid a i m = Done (m', McpResult (text_result (trContent tr)) rid)" by blast
  qed
qed

abbreviation tool_msg :: "gostring \<Rightarrow> gostring \<Rightarrow> OpenAIMessage" where
  "tool_msg cid t \<equiv> \<lparr>omRole = ''tool'', omContent = JString t, omToolCallID = cid, omToolCalls = []\<rparr>"

theorem tool_results_roundtrip_witness:
  "\<exists>m m'. resolve_all 0 [\<lparr>trToolCallID = ''c'', trContent = ''r''\<rparr>] 9 (wdMgr (demo_world demo_call)) = Done m \<and>
     await_result (JNumber ''1'') 0 0 m = Done (m', McpResult (text_result ''r'') (JNumber ''1''))"
proof -
  let ?trs = "[\<lparr>trToolCallID = ''c'', trContent = ''r''\<rparr>]" and ?m = "wdMgr (demo_world demo_call)"
  have t: "?trs = trailing_results [user_msg ''q'', tool_msg ''c'' ''r'']"
    by (simp add: trailing_results_def tool_result_def textOf_def)
  have "waits ?m 0 ''c''" by (simp add: waits_def call_at_def)
  then have "\<exists>m. resolve_all 0 ?trs 9 ?m = Done m \<and> (\<forall>tr \<in> set ?trs. \<exists>i m'. sePendingByID (smHeap m ! 0) (trToolCallID tr) = Some i \<and>
               await_result (JNumber ''1'') 0 i m = Done (m', McpResult (text_result (trContent tr)) (JNumber ''1'')))"
    using tool_results_roundtrip [OF fresh_world_start demo_reach t, of 0] by simp
  then obtain m i m' where m: "resolve_all 0 ?trs 9 ?m = Done m" "sePendingByID (smHeap m ! 0) ''c'' = Some i"
      "await_result (JNumber ''1'') 0 i m = Done (m', McpResult (text_result ''r'') (JNumber ''1''))"
    by auto
  from m(1) have "sePendingByID (smHeap m ! 0) ''c'' = Some 0"
    by (auto simp: ResolveToolCall_def demo_simps Resolve_index_def)
  with m show ?thesis by auto
qed

section \<open>No MCP call hangs\<close>

text \<open>C3: No MCP call of the CLI hangs: after any run of the gateway in which nobody has received from a call yet,
  the handler that is parked on it waits exactly as long as no result has been accepted for it, and no
  longer than its session lives; it never panics, and what it answers goes out under its own id.\<close>

theorem parked_call_wakes:
  assumes "sess_start w" and "sess_exec um ordr evs w = Some w1" and "list_all (\<lambda>ev. ev \<noteq> EAwait a i) evs"
    and "call_at (wdMgr w1) a i p"
  shows "(await_result rid a i (wdMgr w1) = Blocked \<longleftrightarrow> \<not> pcResolved p) \<and> await_result rid a i (wdMgr w1) \<noteq> Panic \<and>
         (seReaped (smHeap (wdMgr w1) ! a) \<longrightarrow> (\<exists>m rep. await_result rid a i (wdMgr w1) = Done (m, rep) \<and> reply_id rep = Some rid))"
proof -
  have b: "Await a i (wdMgr w1) = Blocked \<longleftrightarrow> \<not> pcResolved p" by (rule Await_blocks_iff [OF assms])
  have np: "Await a i (wdMgr w1) \<noteq> Panic" by (auto simp: Await_def recv_def outcome_simps split: list.splits)
  have "world_inv w1" by (rule reach_inv [OF assms(1) exec_reach [OF assms(2)]])
  then have "sess_ok (smHeap (wdMgr w1) ! a)" using assms(4) by (simp add: world_inv_def call_at_def mgr_inv_sess_ok)
  then have "seReaped (smHeap (wdMgr w1) ! a) \<Longrightarrow> pcResolved p" using assms(4) by (auto simp: call_at_def sess_ok_def)
  with b np show ?thesis
    by (cases "Await a i (wdMgr w1)") (auto simp: await_result_def split: option.split)
qed

theorem parked_call_wakes_witness:
  "\<exists>w1. sess_exec (\<lambda>_. None) rev [ECreate ''s'' [] 0, ERegister 0 [demo_use] [''c''] 5, EIndex 0, EReap ''s''] (fresh_world 1) = Some w1 \<and>
     await_result (JNumber ''1'') 0 0 (wdMgr w1) \<noteq> Blocked"
proof -
  let ?evs = "[ECreate ''s'' [] 0, ERegister 0 [demo_use] [''c''] 5, EIndex 0, EReap ''s'']"
  obtain w1 where w1: "sess_exec (\<lambda>_. None) rev ?evs (fresh_world 1) = Some w1"
    and c: "\<exists>p. call_at (wdMgr w1) 0 0 p \<and> pcResolved p"
    by (simp add: CreateSession_def NewSessionManager_def Register_pending_def newPending_def canonicalJSON_def
        addPending_def all_ids_def Register_index_def Let_def ReapSession_def reapSessionLocked_def close_chan_def call_at_def)
  then obtain p where "call_at (wdMgr w1) 0 0 p" "pcResolved p" by blast
  with parked_call_wakes [OF fresh_world_start w1, of 0 0 p "JNumber ''1''"] w1 show ?thesis by simp
qed

section \<open>No request panics\<close>

text \<open>What a request waits for, when it waits.\<close>

definition collecting :: "Config \<Rightarrow> 'f request_env \<Rightarrow> bool" where
  "collecting c env \<longleftrightarrow> collectTurn (cfTimeoutMS c) (teInputs (qeTurn env)) = Blocked"

lemma tool_turn_returns:
  assumes "consistent m" and "\<And>a. contSess = Some a \<Longrightarrow> a < length (smHeap m)"
    and "teSessionID env \<notin> seID ` set (smHeap m)" and "interferes um ordr (teStarting env)" and "interferes um ordr (teMeanwhile env)"
  shows "(\<exists>r. handleToolTurn cf base env req contSess trs rid created model effort m = Done r) \<or>
    handleToolTurn cf base env req contSess trs rid created model effort m = Blocked \<and> collectTurn (cfTimeoutMS cf) (teInputs env) = Blocked"
proof -
  from open_turn_step [OF assms(1-4), where cf = cf and base = base and model = model and effort = effort and req = req and trs = trs]
  obtain m1 opened where op: "open_turn cf base model effort env req contSess trs m = Done (m1, opened)" and c1: "consistent m1"
    by blast
  from interferes_keeps [OF assms(5) c1] obtain w2 where w2: "world_inv w2" "wdMgr w2 = teMeanwhile env m1"
    by (auto simp: consistent_def)
  show ?thesis
  proof (cases opened)
    case (Inl rl)
    with op show ?thesis by (cases rl) (simp add: handleToolTurn_def)
  next
    case (Inr a)
    show ?thesis
    proof (cases "collectTurn (cfTimeoutMS cf) (teInputs env)")
      case (Done r)
      obtain st rest where r: "r = (st, rest)" by fastforce
      let ?out = "if toModel (tnOut st) = [] then (tnOut st)\<lparr>toModel := model\<rparr> else tnOut st"
      have "\<exists>r. (if ccStream req then stream_turn rid created model (tnDeltas st) ?out (seID (smHeap (wdMgr w2) ! a)) (wdMgr w2)
              else answer_turn rid created ?out (seID (smHeap (wdMgr w2) ! a)) (wdMgr w2)) = Done r"
        by (cases "ccStream req") (simp_all only: if_True if_False, (rule answer_no_panic [OF w2(1)])+)
      then show ?thesis
        by (simp only: handleToolTurn_def op Inr Done r Let_def w2(2) [symmetric] bind_outcome.simps prod.case sum.case)
          blast
    qed (use op Inr in \<open>simp_all add: handleToolTurn_def collectTurn_def collect_no_panic\<close>)
  qed
qed

lemma first_session_live: "first_session trs m = Some a \<Longrightarrow> mgr_inv m \<Longrightarrow> a < length (smHeap m)"
  by (induction trs) (auto simp: GetSessionByToolCallID_def mgr_inv_live split: option.splits)

text \<open>A request waits for its slot, or for its turn to be collected.\<close>

definition waiting :: "'f request_env \<Rightarrow> 'f Server \<Rightarrow> bool" where
  "waiting env sv \<longleftrightarrow> Acquire (qeSlots env) (svSlots sv) = Blocked \<or> collecting (svConfig sv) env"

lemma with_slot_returns:
  assumes "(\<exists>r. work = Done r) \<or> work = Blocked \<and> B"
  shows "(\<exists>r. with_slot env s work = Done r) \<or> with_slot env s work = Blocked \<and> (Acquire env s = Blocked \<or> B)"
  using with_slot_stuck [of env s work] assms by (cases "with_slot env s work") auto

lemma stateless_returns:
  "(\<exists>r. stateless_turn env c req model effort slots store = Done r) \<or>
   stateless_turn env c req model effort slots store = Blocked \<and> Acquire (qeSlots env) slots = Blocked"
proof -
  obtain st plan where p: "planResumeTurn (qeSha256 env) (ccMessages req) model effort store = (st, plan)" by fastforce
  show ?thesis
  proof (cases "if rtHit plan then Inr (rtSystemPrompt plan, rtPrompt plan) else BuildPrompt (ccMessages req)")
    case (Inr sp)
    obtain systemPrompt prompt where sp: "sp = (systemPrompt, prompt)" by fastforce
    let ?i = "responseFormatInstruction (ccResponseFormat req)"
    let ?opts = "plan_options c plan model effort (if ?i \<noteq> [] then systemPrompt @ nl2 @ ?i else systemPrompt) prompt"
    let ?work = "Done (if ccStream req then handleStreamingResponse env req ?opts st else complete env req ?opts st)"
    let ?slot = "with_slot (qeSlots env) slots ?work"
    have "stateless_turn env c req model effort slots store =
        bind_outcome ?slot (\<lambda>(slots', r). case r of None \<Rightarrow> Done (slots', map_option (qeResumeMeanwhile env) st, no_slot) | Some answered \<Rightarrow> Done (slots', answered))"
      by (simp only: stateless_turn_def p Inr sp Let_def prod.case sum.case)
    moreover have "(\<exists>r. ?slot = Done r) \<or> ?slot = Blocked \<and> (Acquire (qeSlots env) slots = Blocked \<or> False)"
      by (rule with_slot_returns) blast
    ultimately show ?thesis by (auto split: prod.split option.split)
  qed (auto simp: stateless_turn_def p)
qed

lemma answer_chat_returns:
  assumes "consistent (svSessions sv)" and "interferes um ordr (qeBeforeReap env)" and "interferes um ordr (qeSessionsMeanwhile env)"
    and "interferes um ordr (teStarting (qeTurn env))" and "interferes um ordr (teMeanwhile (qeTurn env))"
    and fresh: "\<And>ids cs m n. ReapSuperseded (qeReapOrder env) ids cs (qeBeforeReap env (svSessions sv)) = Done (m, n) \<Longrightarrow>
       teSessionID (qeTurn env) \<notin> seID ` set (smHeap (qeSessionsMeanwhile env m))"
  shows "(\<exists>r. answer_chat env req sv = Done r) \<or> answer_chat env req sv = Blocked \<and> waiting env sv"
proof -
  let ?m = "qeBeforeReap env (svSessions sv)"
  obtain cs trs where f: "findContinuationSession (ccMessages req) (svSessions sv) = (cs, trs)" by fastforce
  from interferes_keeps [OF assms(2,1)] have m: "consistent ?m" "length (smHeap (svSessions sv)) \<le> length (smHeap ?m)" by simp_all
  from assms(1) have "mgr_inv (svSessions sv)" by (auto simp: consistent_def world_inv_def)
  with f m(2) first_session_live [of trs "svSessions sv"] have cs: "a < length (smHeap ?m)" if "cs = Some a" for a
    using that by (fastforce simp: findContinuationSession_def Let_def)
  from m(1) obtain w where w: "world_inv w" "wdMgr w = ?m" by (auto simp: consistent_def)
  let ?ids = "referencedToolCallIDs (ccMessages req)"
  define m1 where "m1 = reap_set (set (qeReapOrder env (superseded ?ids cs ?m))) ?m"
  define n1 where "n1 = length (superseded ?ids cs ?m)"
  from reap_all_eq [OF w(1)] w(2) have r: "ReapSuperseded (qeReapOrder env) ?ids cs ?m = Done (m1, n1)"
    by (simp add: ReapSuperseded_def m1_def n1_def)
  from reap_all_step [OF w(1), of "qeReapOrder env (superseded ?ids cs ?m)"] reap_all_eq [OF w(1)] w(2)
  have "consistent m1" by (auto simp: m1_def intro: consistent_world)
  from interferes_keeps [OF assms(3) this] have m2: "consistent (qeSessionsMeanwhile env m1)"
    and len: "length (smHeap ?m) \<le> length (smHeap (qeSessionsMeanwhile env m1))" by (simp_all add: m1_def reap_set_def)
  have live: "\<And>a. cs = Some a \<Longrightarrow> a < length (smHeap (qeSessionsMeanwhile env m1))"
    using cs len by fastforce
  let ?model = "resolveModel (svConfig sv) (ccModel req)" and ?effort = "resolveEffort (ccReasoningEffort req) (ccReasoning req)"
  let ?turn = "handleToolTurn (svConfig sv) (svMcpBaseURL sv) (qeTurn env) req cs trs (qeID env) (qeCreated env)
      ?model ?effort (qeSessionsMeanwhile env m1)"
  let ?slot = "with_slot (qeSlots env) (svSlots sv) ?turn"
  have "(\<exists>r. ?turn = Done r) \<or> ?turn = Blocked \<and> collecting (svConfig sv) env"
    unfolding collecting_def by (rule tool_turn_returns [OF m2 live fresh [OF r] assms(4,5)])
  from with_slot_returns [OF this] have turn: "(\<exists>r. ?slot = Done r) \<or> ?slot = Blocked \<and> waiting env sv"
    unfolding waiting_def .
  show ?thesis
  proof (cases "cs \<noteq> None \<or> ccTools req \<noteq> [] \<and> \<not> toolChoiceIsNone (ccToolChoice req)")
    case True
    have run: "answer_chat env req sv = bind_outcome ?slot (\<lambda>(slots, r).
        case r of
          None \<Rightarrow> Done (sv\<lparr>svSessions := qeSessionsMeanwhile env m1, svSlots := slots\<rparr>, no_slot)
        | Some (sm', answered) \<Rightarrow> Done (sv\<lparr>svSessions := sm', svSlots := slots\<rparr>, answered))"
      by (simp only: answer_chat_def f r Let_def prod.case bind_outcome.simps True if_True)
    consider slots where "?slot = Done (slots, None)" | slots sm' answered where "?slot = Done (slots, Some (sm', answered))"
      | "?slot = Blocked" "waiting env sv"
      using turn by (metis not_None_eq surj_pair)
    then show ?thesis by cases (simp_all add: run del: split_paired_Ex)
  next
    case False
    have "answer_chat env req sv =
        bind_outcome (stateless_turn env (svConfig sv) req ?model ?effort (svSlots sv) (svResume sv)) (\<lambda>(slots, store, answered).
          Done (sv\<lparr>svSessions := qeSessionsMeanwhile env m1, svSlots := slots, svResume := store\<rparr>, answered))"
      by (simp only: answer_chat_def f r Let_def prod.case bind_outcome.simps False if_False)
    with stateless_returns [of env "svConfig sv" req ?model ?effort "svSlots sv" "svResume sv"] show ?thesis
      by (auto simp: waiting_def split: prod.split)
  qed
qed

lemma Await_no_panic: "Await a i m \<noteq> Panic"
  by (auto simp: Await_def recv_def outcome_simps split: list.splits)

lemma endpoint_no_panic: "handleMCPEndpoint menv mdecode meth body sid m \<noteq> Panic"
  using Await_no_panic
  by (auto simp: handleMCPEndpoint_def handleMCPToolsCall_def await_result_def outcome_simps split: option.split prod.split)

text \<open>
  What a call of the MCP endpoint waits for: a call of the session, of that name and those arguments, that it
  has claimed itself, and whose channel is open and has nothing in it.
\<close>

definition mcp_waits :: "mcp_env \<Rightarrow> nat \<Rightarrow> SessionManager \<Rightarrow> bool" where
  "mcp_waits menv a m \<longleftrightarrow>
     (\<exists>params tp m1 i p. meParams menv params = Some tp \<and>
        poll_claim a (tpName tp) (canonicalJSON (meUnmarshal menv) (tpArguments tp)) (mePolls menv) m = (m1, Some i) \<and>
        call_at (meWhileParked menv m1) a i p \<and> pcName p = tpName tp \<and>
        pcArguments p = canonicalJSON (meUnmarshal menv) (tpArguments tp) \<and> pcClaimed p \<and>
        rvBuf (pcResolver p) = [] \<and> \<not> rvClosed (pcResolver p))"

lemma Claim_consistent:
  assumes "consistent m" "a < length (smHeap m)" "ClaimPendingCall a name args now m = (m', r)"
  shows "consistent m' \<and> a < length (smHeap m') \<and>
    (\<forall>i. r = Some i \<longrightarrow> (\<exists>p. call_at m' a i p \<and> pcName p = name \<and> pcArguments p = args \<and> pcClaimed p))"
proof -
  from assms(1) obtain w where w: "world_inv w" "wdMgr w = m" by (auto simp: consistent_def)
  from Claim_step [OF w(1), of a name args now] assms(2,3) w(2) have c: "consistent m'" by (auto intro: consistent_world)
  show ?thesis
    using assms(2,3) c
    by (auto simp: ClaimPendingCall_def find_claim_Some call_at_def updPending_def split: option.splits)
qed

lemma poll_consistent:
  "consistent m \<Longrightarrow> a < length (smHeap m) \<Longrightarrow> \<forall>p \<in> set polls. interferes um ordr (fst p) \<Longrightarrow> poll_claim a name args polls m = (m', Some i) \<Longrightarrow>
   consistent m' \<and> (\<exists>p. call_at m' a i p \<and> pcName p = name \<and> pcArguments p = args \<and> pcClaimed p)"
proof (induction a name args polls m rule: poll_claim.induct)
  case (2 a name args others now polls m)
  obtain m1 r1 where c: "ClaimPendingCall a name args now (others m) = (m1, r1)" by fastforce
  from "2.prems"(3) have "interferes um ordr others" by simp
  from interferes_keeps [OF this "2.prems"(1)] "2.prems"(2) have o: "consistent (others m)" "a < length (smHeap (others m))" by simp_all
  note cc = Claim_consistent [OF o c]
  show ?case
  proof (cases r1)
    case None
    with "2.IH" [of m1] c cc "2.prems" show ?thesis by simp
  qed (use c cc "2.prems" in auto)
qed simp

lemma endpoint_waits:
  assumes "handleMCPEndpoint menv mdecode meth body sid m = Blocked" "consistent m"
    and "\<forall>p \<in> set (mePolls menv). interferes um ordr (fst p)" "interferes um ordr (meWhileParked menv)"
  shows "\<exists>a. smSessions m sid = Some a \<and> mcp_waits menv a m"
proof -
  from assms(1) obtain a params rid where a: "smSessions m sid = Some a" and h: "handleMCPToolsCall menv params rid a m = Blocked"
    by (auto simp: handleMCPEndpoint_def GetSession_def split: if_splits option.splits)
  from assms(2) have "mgr_inv m" by (auto simp: consistent_def world_inv_def)
  with a have al: "a < length (smHeap m)" by (simp add: mgr_inv_live)
  from h obtain tp m1 i where tp: "meParams menv params = Some tp"
      and pc: "poll_claim a (tpName tp) (canonicalJSON (meUnmarshal menv) (tpArguments tp)) (mePolls menv) m = (m1, Some i)"
      and aw: "await_result rid a i (meWhileParked menv m1) = Blocked"
    by (auto simp: handleMCPToolsCall_def split: option.splits prod.splits)
  from poll_consistent [OF assms(2) al assms(3) pc] obtain p where c1: "consistent m1" and
    p: "call_at m1 a i p" "pcName p = tpName tp" "pcArguments p = canonicalJSON (meUnmarshal menv) (tpArguments tp)" "pcClaimed p" by blast
  from interferes_evolves [OF assms(4) c1] p obtain q where q: "call_at (meWhileParked menv m1) a i q" "pcName q = tpName tp"
      "pcArguments q = canonicalJSON (meUnmarshal menv) (tpArguments tp)" "pcClaimed q"
    unfolding evolves_def by metis
  from aw have "Await a i (meWhileParked menv m1) = Blocked"
    by (cases "Await a i (meWhileParked menv m1)") (auto simp: await_result_def)
  with q(1) have "rvBuf (pcResolver q) = []" "\<not> rvClosed (pcResolver q)"
    by (auto simp: Await_def recv_def call_at_def split: list.splits if_splits)
  with a tp pc q show ?thesis unfolding mcp_waits_def by blast
qed

text \<open>C7: No request brings the gateway down or leaves it hanging: in every reachable state of the session table,
  with any work of the other goroutines between its steps, each request is answered without a panic,
  unless it waits for a slot, for the CLI's next event, its timer or its client, or, on the MCP endpoint
  of a live session, for the result of an announced call that it has claimed and whose channel is open and
  empty.\<close>

theorem requests_never_panic:
  assumes "sess_start w" and "(sess_step um ordr)\<^sup>*\<^sup>* w w1" and "svSessions sv = wdMgr w1"
    and "list_all (interferes um ordr) [qeBeforeReap env, qeSessionsMeanwhile env, teStarting (qeTurn env), teMeanwhile (qeTurn env), meWhileParked menv]"
    and "list_all (\<lambda>p. interferes um ordr (fst p)) (mePolls menv)"
    and "\<And>ids cs m n. ReapSuperseded (qeReapOrder env) ids cs (qeBeforeReap env (svSessions sv)) = Done (m, n) \<Longrightarrow>
       teSessionID (qeTurn env) \<notin> seID ` set (smHeap (qeSessionsMeanwhile env m))"
  shows "ServeHTTP env menv mdecode sc r sv \<noteq> Panic \<and>
         (ServeHTTP env menv mdecode sc r sv = Blocked \<longrightarrow>
            (case route (svConfig sv) r of
               Chat \<Rightarrow> Acquire (qeSlots env) (svSlots sv) = Blocked \<or> collectTurn (cfTimeoutMS (svConfig sv)) (teInputs (qeTurn env)) = Blocked
             | MCP sid \<Rightarrow> (\<exists>a. smSessions (svSessions sv) sid = Some a \<and> mcp_waits menv a (svSessions sv))
             | _ \<Rightarrow> False))"
proof (cases "route (svConfig sv) r")
  case Chat
  have c: "consistent (svSessions sv)"
    using reach_inv [OF assms(1,2)] by (auto simp: consistent_def assms(3))
  have chat: "(\<exists>r. answer_chat env req sv = Done r) \<or> answer_chat env req sv = Blocked \<and> waiting env sv" for req
    by (rule answer_chat_returns [where um = um and ordr = ordr, OF c _ _ _ _ assms(6)]) (use assms(4) in simp_all)
  have "(\<exists>x. handleChatCompletions env r sv = Done x) \<or> handleChatCompletions env r sv = Blocked \<and> waiting env sv"
  proof (cases "readBody r maxBodySize")
    case (Some body)
    then show ?thesis
    proof (cases "qeDecode env body")
      case Some': (Some req)
      from chat [of req] Some Some' show ?thesis
        by (auto simp: handleChatCompletions_def)
    qed (simp add: handleChatCompletions_def)
  qed (simp add: handleChatCompletions_def)
  with Chat show ?thesis by (auto simp: ServeHTTP_def waiting_def collecting_def)
next
  case (MCP sid)
  have c: "consistent (svSessions sv)"
    using reach_inv [OF assms(1,2)] by (auto simp: consistent_def assms(3))
  have i: "\<forall>p \<in> set (mePolls menv). interferes um ordr (fst p)" "interferes um ordr (meWhileParked menv)"
    using assms(4,5) by (simp_all add: list_all_iff)
  note w = endpoint_waits [OF _ c i, of mdecode "hrMethod r" "hrBody r" sid]
  from MCP endpoint_no_panic [of menv mdecode "hrMethod r" "hrBody r" sid "svSessions sv"] w show ?thesis
    by (cases "handleMCPEndpoint menv mdecode (hrMethod r) (hrBody r) sid (svSessions sv)") (auto simp: ServeHTTP_def)
qed (simp_all add: ServeHTTP_def)

text \<open>A chat request with the key, while the only slots of the gateway are taken: it waits for its slot.\<close>

definition demo_busy :: "nat Server" where
  "demo_busy = demo_server\<lparr>svSlots := Acquire_enter (NewSemaphore 1)\<rparr>"

definition demo_chat :: HttpRequest where
  "demo_chat = demo_post\<lparr>hrXApiKey := ''k''\<rparr>"

lemma demo_no_slot: "with_slot demo_slots (Acquire_enter (NewSemaphore 1)) work = Blocked"
  by (simp add: with_slot_def Acquire_def Acquire_enter_def NewSemaphore_def Acquire_select_def setPhase_def)

lemma demo_blocked: "ServeHTTP (demo_env False) demo_menv (\<lambda>b. None) demo_scrape demo_chat demo_busy = Blocked"
proof -
  have r: "route demo_config demo_chat = Chat"
    by (simp add: route_def isAuthorized_def demo_chat_def demo_post_def HasPrefix_def)
  have f: "findContinuationSession (ccMessages (demo_req False)) sm = (None, [])" for sm
    by (simp add: demo_req_def findContinuationSession_def trailing_results_def)
  have i: "ReapSuperseded (\<lambda>ids. ids) (referencedToolCallIDs (ccMessages (demo_req False))) None sm = Done (sm, 0)" for sm
    by (simp add: demo_req_def referencedToolCallIDs_def message_ids_def ReapSuperseded_def superseded_def List.map_filter_def)
  have s: "svSlots demo_busy = Acquire_enter (NewSemaphore 1)" "svConfig demo_busy = demo_config" "svResume demo_busy = None"
    by (simp_all add: demo_busy_def demo_server_simps)
  have e: "qeReapOrder (demo_env False) = (\<lambda>ids. ids)" "qeBeforeReap (demo_env False) = (\<lambda>sm. sm)" "qeDecode (demo_env False) = (\<lambda>b. Some (demo_req False))"
      "ccTools (demo_req False) = []"
    by (simp_all add: demo_env_def demo_req_def)
  have "stateless_turn (demo_env False) demo_config (demo_req False) model effort (Acquire_enter (NewSemaphore 1)) None = Blocked" for model effort
    using demo_prompt [of False] by (simp add: stateless_turn_def planResumeTurn_def noResume_def Let_def demo_env_def demo_no_slot)
  then have "answer_chat (demo_env False) (demo_req False) demo_busy = Blocked"
    by (simp add: answer_chat_def f s e i Let_def)
  then have "handleChatCompletions (demo_env False) demo_chat demo_busy = Blocked"
    by (simp add: handleChatCompletions_def readBody_def demo_chat_def demo_post_def e)
  then show ?thesis by (simp add: ServeHTTP_def s r)
qed

theorem requests_never_panic_witness:
  "ServeHTTP (demo_env False) demo_menv (\<lambda>b. None) demo_scrape demo_chat demo_busy = Blocked \<and>
   (Acquire demo_slots (svSlots demo_busy) = Blocked \<or> collectTurn 300000 [TTimeout :: nat turn_input] = Blocked)"
proof -
  have m: "svSessions demo_busy = NewSessionManager 16 120000 600000"
    by (simp add: demo_busy_def demo_server_simps)
  have c: "svConfig demo_busy = demo_config" by (simp add: demo_busy_def demo_server_simps)
  have i: "interferes um ordr (\<lambda>m. m)" for um ordr by (simp add: interferes_def)
  have n: "smHeap m = []" if "ReapSuperseded ordr ids cs (NewSessionManager 16 120000 600000) = Done (m, n)" for ordr ids cs m n
  proof -
    have "reap_all sids (NewSessionManager 16 120000 600000) = Done (NewSessionManager 16 120000 600000)" for sids
      by (induction sids) (simp_all add: reapSessionLocked_def NewSessionManager_def)
    with that show ?thesis by (auto simp: ReapSuperseded_def NewSessionManager_def)
  qed
  have r: "route demo_config demo_chat = Chat"
    by (simp add: route_def isAuthorized_def demo_chat_def demo_post_def HasPrefix_def)
  have "ServeHTTP (demo_env False) demo_menv (\<lambda>b. None) demo_scrape demo_chat demo_busy = Blocked \<longrightarrow>
      (case route (svConfig demo_busy) demo_chat of
         Chat \<Rightarrow> Acquire (qeSlots (demo_env False)) (svSlots demo_busy) = Blocked \<or>
           collectTurn (cfTimeoutMS (svConfig demo_busy)) (teInputs (qeTurn (demo_env False))) = Blocked
       | MCP sid \<Rightarrow> (\<exists>a. smSessions (svSessions demo_busy) sid = Some a \<and> mcp_waits demo_menv a (svSessions demo_busy))
       | _ \<Rightarrow> False)"
    by (rule requests_never_panic [OF fresh_world_start [of 16] rtranclp.rtrancl_refl [of "sess_step (\<lambda>_. None) rev"], THEN conjunct2])
      (use i n in \<open>auto simp: m demo_env_def demo_turn_env_def demo_menv_def\<close>)
  with demo_blocked show ?thesis by (simp add: r c demo_env_def demo_turn_env_def)
qed

end
