(* ===== verification/Events.thy ===== *)
theory Events
  imports Turn "HOL-Library.Sublist"
begin

text \<open>
  From the CLI's output to the client: the events channel between the session's reader goroutine
  (\<open>relaySessionStream\<close>) and the turns that take from it (\<open>collectTurn\<close>), and what becomes of the tool
  calls the CLI writes. The channel is buffered; the reader blocks when it is full, a turn when it is
  empty, and between two requests nobody takes from it.
\<close>

section \<open>The channel\<close>

definition eventsCapacity :: nat where
  "eventsCapacity = 64"

text \<open>
  \<open>ecPending\<close>: the events the reader has still to send; \<open>ecTaken\<close>: what the turns have received, the
  receives from the closed channel included.
\<close>

record 'f event_chan =
  ecPending :: "'f SessionEvent list"
  ecBuf :: "'f SessionEvent list"
  ecClosed :: bool
  ecTaken :: "'f turn_input list"

definition fresh_chan :: "'f SessionEvent list \<Rightarrow> 'f event_chan" where
  "fresh_chan evs = \<lparr>ecPending = evs, ecBuf = [], ecClosed = False, ecTaken = []\<rparr>"

inductive reader_step :: "'f event_chan \<Rightarrow> 'f event_chan \<Rightarrow> bool" where
  Send: "ecPending s = ev # evs \<Longrightarrow> length (ecBuf s) < eventsCapacity \<Longrightarrow>
         reader_step s (s\<lparr>ecPending := evs, ecBuf := ecBuf s @ [ev]\<rparr>)"
| CloseEvents: "ecPending s = [] \<Longrightarrow> \<not> ecClosed s \<Longrightarrow> reader_step s (s\<lparr>ecClosed := True\<rparr>)"

inductive turn_step :: "'f event_chan \<Rightarrow> 'f event_chan \<Rightarrow> bool" where
  Take: "ecBuf s = ev # evs \<Longrightarrow> turn_step s (s\<lparr>ecBuf := evs, ecTaken := ecTaken s @ [TEvent ev]\<rparr>)"
| TakeClosed: "ecBuf s = [] \<Longrightarrow> ecClosed s \<Longrightarrow> turn_step s (s\<lparr>ecTaken := ecTaken s @ [TStreamClosed]\<rparr>)"

inductive_cases reader_stepE: "reader_step s s'"
inductive_cases turn_stepE: "turn_step s s'"

definition chan_step :: "'f event_chan \<Rightarrow> 'f event_chan \<Rightarrow> bool" where
  "chan_step s s' \<longleftrightarrow> reader_step s s' \<or> turn_step s s'"

definition chan_inv :: "'f SessionEvent list \<Rightarrow> 'f event_chan \<Rightarrow> bool" where
  "chan_inv evs s \<longleftrightarrow>
     length (ecBuf s) \<le> eventsCapacity \<and> (ecClosed s \<longrightarrow> ecPending s = []) \<and>
     (\<exists>us n. ecTaken s = map TEvent us @ replicate n TStreamClosed \<and> evs = us @ ecBuf s @ ecPending s \<and>
        (n > 0 \<longrightarrow> ecClosed s \<and> ecBuf s = []))"

lemma chan_inv_start: "chan_inv evs (fresh_chan evs)"
  by (simp add: chan_inv_def fresh_chan_def exI [of _ 0])

lemma chan_inv_step: "chan_inv evs s \<Longrightarrow> chan_step s s' \<Longrightarrow> chan_inv evs s'"
  unfolding chan_step_def
proof (elim disjE reader_stepE turn_stepE)
  fix ev es
  assume inv: "chan_inv evs s" and s: "s' = s\<lparr>ecPending := es, ecBuf := ecBuf s @ [ev]\<rparr>" "ecPending s = ev # es"
    "length (ecBuf s) < eventsCapacity"
  then show "chan_inv evs s'" unfolding chan_inv_def by fastforce
next
  assume "chan_inv evs s" "s' = s\<lparr>ecClosed := True\<rparr>" "ecPending s = []"
  then show "chan_inv evs s'" unfolding chan_inv_def by fastforce
next
  fix ev es
  assume inv: "chan_inv evs s" and s: "s' = s\<lparr>ecBuf := es, ecTaken := ecTaken s @ [TEvent ev]\<rparr>" "ecBuf s = ev # es"
  then obtain us n where u: "ecTaken s = map TEvent us @ replicate n TStreamClosed" "evs = us @ ecBuf s @ ecPending s" "n = 0"
    unfolding chan_inv_def by auto
  with inv s show "chan_inv evs s'"
    unfolding chan_inv_def by (auto intro!: exI [of _ "us @ [ev]"] exI [of _ 0])
next
  assume inv: "chan_inv evs s" and s: "s' = s\<lparr>ecTaken := ecTaken s @ [TStreamClosed]\<rparr>" "ecBuf s = []" "ecClosed s"
  then obtain us n where u: "ecTaken s = map TEvent us @ replicate n TStreamClosed" "evs = us @ ecBuf s @ ecPending s"
    unfolding chan_inv_def by auto
  with inv s show "chan_inv evs s'"
    unfolding chan_inv_def
    by (auto intro!: exI [of _ us] exI [of _ "Suc n"] simp: replicate_append_same)
qed

interpretation ec: state_machine "\<lambda>s. s = fresh_chan evs" chan_step "chan_inv evs" for evs
  by unfold_locales (auto intro: chan_inv_start chan_inv_step)

text \<open>Nothing is lost or reordered: the turns have taken a prefix of the events.\<close>

lemma chan_taken:
  assumes "chan_step\<^sup>*\<^sup>* (fresh_chan evs) s"
  obtains us n where "ecTaken s = map TEvent us @ replicate n TStreamClosed" "evs = us @ ecBuf s @ ecPending s" "n > 0 \<Longrightarrow> us = evs"
proof -
  from ec.reachable_inv [OF refl assms] obtain us n where
    "ecTaken s = map TEvent us @ replicate n TStreamClosed" "evs = us @ ecBuf s @ ecPending s"
    "n > 0 \<longrightarrow> ecClosed s \<and> ecBuf s = []" "ecClosed s \<longrightarrow> ecPending s = []"
    unfolding chan_inv_def by blast
  then show thesis using that [of us n] by auto
qed

text \<open>A turn that has what it needs does not look further, and neither do the turns of a run that is over.\<close>

lemma collect_append: "collect ms ins st = Done (st', rest) \<Longrightarrow> collect ms (ins @ later) st = Done (st', rest @ later)"
  by (induction ms ins st rule: collect.induct) (auto split: prod.splits if_splits)

lemma collectTurn_append: "collectTurn ms ins = Done (st, rest) \<Longrightarrow> collectTurn ms (ins @ later) = Done (st, rest @ later)"
  by (simp add: collectTurn_def collect_append)

lemma turns_prefix: "prefix (turns ms ins) (turns ms (ins @ later))"
proof (induction "length ins" arbitrary: ins rule: less_induct)
  case less
  show ?case
  proof (cases "collectTurn ms ins")
    case (Done r)
    obtain st rest where r: "r = (st, rest)" by fastforce
    with Done collectTurn_append [of ms ins st rest later] have m: "collectTurn ms (ins @ later) = Done (st, rest @ later)" by simp
    from Done r collectTurn_rest have "length rest < length ins" by blast
    from less.hyps [OF this] show ?thesis
      by (subst (1 2) turns.simps) (simp add: Done r m)
  qed (subst turns.simps, simp)+
qed

lemma turns_over: "list_ex is_run_end evs \<Longrightarrow> turns ms (map TEvent evs @ later) = turns ms (map TEvent evs)"
proof (induction "length evs" arbitrary: evs rule: less_induct)
  case less
  from collectTurn_returns [OF less.prems, of ms "[]"] obtain st rest where d: "collectTurn ms (map TEvent evs) = Done (st, rest)" by auto
  from collectTurn_prefix [OF d] obtain us vs where split: "evs = us @ vs" and rest: "rest = map TEvent vs"
    and final: "toFinal (tnOut st) = list_ex is_run_end us" by metis
  show ?case
  proof (cases "toFinal (tnOut st) \<or> toErr (tnOut st) \<noteq> None")
    case True
    with collectTurn_append [OF d, of later] d show ?thesis by (subst (1 2) turns.simps) simp
  next
    case False
    with final split less.prems have "list_ex is_run_end vs" by simp
    moreover from collectTurn_rest [OF d] rest have "length vs < length evs" by simp
    ultimately have "turns ms (map TEvent vs @ later) = turns ms (map TEvent vs)" using less.hyps by blast
    with collectTurn_append [OF d, of later] d rest show ?thesis by (subst (1 2) turns.simps) simp
  qed
qed

text \<open>The turns of a whole run: all but the last announce calls, the last is the end of the run.\<close>

definition announcing :: "'f turnOutcome \<Rightarrow> bool" where
  "announcing out \<longleftrightarrow> \<not> toFinal out \<and> toErr out = None"

lemma turns_whole:
  "list_ex is_run_end evs \<Longrightarrow>
   \<exists>outs fin. turns ms (map TEvent evs) = outs @ [fin] \<and> list_all announcing outs \<and> toFinal fin"
proof (induction "length evs" arbitrary: evs rule: less_induct)
  case less
  from collectTurn_returns [OF less.prems, of ms "[]"] obtain st rest where d: "collectTurn ms (map TEvent evs) = Done (st, rest)" by auto
  from collectTurn_prefix [OF d] obtain us vs where split: "evs = us @ vs" and rest: "rest = map TEvent vs"
    and final: "toFinal (tnOut st) = list_ex is_run_end us" and err: "toErr (tnOut st) \<noteq> None \<Longrightarrow> list_ex is_run_end us" by metis
  show ?case
  proof (cases "toFinal (tnOut st)")
    case True
    with d show ?thesis by (intro exI [of _ "[]"]) (subst turns.simps, simp)
  next
    case False
    with final split less.prems have "list_ex is_run_end vs" by simp
    moreover from collectTurn_rest [OF d] rest have "length vs < length evs" by simp
    ultimately obtain outs fin where ih: "turns ms (map TEvent vs) = outs @ [fin]" "list_all announcing outs" "toFinal fin"
      using less.hyps by blast
    from False final err have e: "toErr (tnOut st) = None" by metis
    with False have "announcing (tnOut st)" by (simp add: announcing_def)
    with d rest ih False e show ?thesis
      by (intro exI [of _ "tnOut st # outs"] exI [of _ fin]) (subst turns.simps, auto)
  qed
qed



section \<open>A reader that nobody listens to\<close>

lemma reader_fills:
  "length (ecBuf s) + length (ecPending s) \<le> eventsCapacity \<Longrightarrow> \<exists>s'. reader_step\<^sup>*\<^sup>* s s' \<and> ecClosed s'"
proof (induction "ecPending s" arbitrary: s)
  case Nil
  show ?case
  proof (cases "ecClosed s")
    case False
    from CloseEvents [OF Nil.hyps [symmetric] this] show ?thesis
      by (intro exI [of _ "s\<lparr>ecClosed := True\<rparr>"]) (simp add: r_into_rtranclp)
  qed auto
next
  case (Cons ev evs)
  let ?s = "s\<lparr>ecPending := evs, ecBuf := ecBuf s @ [ev]\<rparr>"
  have len: "length (ecBuf s) < eventsCapacity" using Cons.prems Cons.hyps(2) [symmetric] by simp
  have "reader_step s ?s" by (rule Send [OF Cons.hyps(2) [symmetric] len])
  moreover have "\<exists>s'. reader_step\<^sup>*\<^sup>* ?s s' \<and> ecClosed s'"
    by (rule Cons.hyps(1)) (use Cons.prems Cons.hyps(2) [symmetric] in simp_all)
  ultimately show ?case by (meson converse_rtranclp_into_rtranclp)
qed

lemma reader_keeps:
  "reader_step\<^sup>*\<^sup>* s s' \<Longrightarrow> length (ecBuf s) \<le> eventsCapacity \<Longrightarrow>
   length (ecBuf s') + length (ecPending s') = length (ecBuf s) + length (ecPending s) \<and> length (ecBuf s') \<le> eventsCapacity \<and>
   (ecClosed s' \<and> \<not> ecClosed s \<longrightarrow> ecPending s' = [])"
  by (induction rule: rtranclp_induct) (auto elim!: reader_stepE)

text \<open>C36: A reader that nobody takes from any more, because its session was reaped or its client has gone, comes to
  its end exactly when the events it has left fit the channel; with one more it blocks for ever.\<close>

theorem reader_ends_iff:
  assumes "chan_step\<^sup>*\<^sup>* (fresh_chan evs) s"
  shows "(\<exists>s'. reader_step\<^sup>*\<^sup>* s s' \<and> ecClosed s') \<longleftrightarrow> length (ecBuf s) + length (ecPending s) \<le> eventsCapacity"
proof
  assume "\<exists>s'. reader_step\<^sup>*\<^sup>* s s' \<and> ecClosed s'"
  then obtain s' where s': "reader_step\<^sup>*\<^sup>* s s'" "ecClosed s'" by blast
  have "length (ecBuf s) \<le> eventsCapacity" "ecClosed s \<longrightarrow> ecPending s = []"
    using ec.reachable_inv [OF refl assms] by (simp_all add: chan_inv_def)
  with reader_keeps [OF s'(1)] s'(2) show "length (ecBuf s) + length (ecPending s) \<le> eventsCapacity" by auto
qed (rule reader_fills)

theorem reader_ends_iff_witness:
  "\<not> (\<exists>s'. reader_step\<^sup>*\<^sup>* (fresh_chan (replicate 65 (EvText ''t'' :: nat SessionEvent))) s' \<and> ecClosed s')"
  by (subst reader_ends_iff [OF rtranclp.rtrancl_refl]) (simp add: fresh_chan_def eventsCapacity_def)

section \<open>From the CLI's output to the client\<close>

text \<open>The calls the reader should announce: every \<open>tool_use\<close> block of the lines before the first result, under the
  id minted for it.\<close>

definition line_uses :: "'f streamJsonLine \<Rightarrow> ToolUseBlock list" where
  "line_uses l = (if slType l = ''assistant'' then (case slMessage l of None \<Rightarrow> [] | Some m \<Rightarrow> tool_uses (lmContent m)) else [])"

definition announced_use :: "(gostring \<Rightarrow> json option) \<Rightarrow> ToolUseBlock \<times> gostring \<Rightarrow> announced" where
  "announced_use um u = \<lparr>anID = snd u, anName = tuName (fst u), anArguments = canonicalJSON um (tuInput (fst u))\<rparr>"

fun stream_calls :: "(gostring \<Rightarrow> json option) \<Rightarrow> (nat \<Rightarrow> reader_env) \<Rightarrow> nat \<Rightarrow> 'f streamJsonLine list \<Rightarrow> announced list" where
  "stream_calls um env k [] = []"
| "stream_calls um env k (l # ls) =
     (if is_result l then [] else map (announced_use um) (zip (line_uses l) (reIDs (env k))) @ stream_calls um env (Suc k) ls)"

lemma relay_event_plain: "e \<in> set (relay_event x ev) \<Longrightarrow> ev_calls e = [] \<and> \<not> is_run_end e"
  by (auto simp: relay_event_def split: option.splits if_splits)

lemma seReaped_addPending [simp]: "seReaped (fold addPending ps s) = seReaped s"
  by (induction ps arbitrary: s) (simp_all add: addPending_def)

lemma Register_unreaped:
  assumes "\<not> seReaped (smHeap sm ! a)"
  shows "\<exists>sm'. RegisterAnnouncedCalls um a uses ids now sm = (sm', Some (map (\<lambda>(u, cid). newPending um u cid) (zip uses ids))) \<and>
    \<not> seReaped (smHeap sm' ! a)"
  using assms by (cases "a < length (smHeap sm)") (simp_all add: RegisterAnnouncedCalls_def Register_pending_def Register_index_def Let_def not_less list_update_beyond)

lemma announced_of_newPending: "announced_of (newPending um u cid) = announced_use um (u, cid)"
  by (simp add: announced_of_def newPending_def announced_use_def)

lemma relay_line_calls:
  assumes "\<not> seReaped (smHeap sm ! a)" and "\<not> is_result l"
  shows "\<exists>sm' evs. relay_line um x a ids now l sm = (sm', evs) \<and> \<not> seReaped (smHeap sm' ! a) \<and>
    concat (map ev_calls evs) = map (announced_use um) (zip (line_uses l) ids) \<and> \<not> list_ex is_run_end evs"
proof (cases "slType l = ''assistant'' \<and> slMessage l \<noteq> None")
  case True
  then obtain m where m: "slType l = ''assistant''" "slMessage l = Some m" by auto
  have calls: "map (\<lambda>(u, cid). announced_of (newPending um u cid)) us = map (announced_use um) us" for us
    by (auto simp: announced_of_newPending)
  from Register_unreaped [OF assms(1), of um "tool_uses (lmContent m)" ids now] m assms(1) show ?thesis
    by (auto simp: relay_line_def line_uses_def Let_def calls comp_def case_prod_beta announced_of_newPending)
qed (use assms in \<open>auto simp: relay_line_def line_uses_def is_result_def list_ex_iff dest: relay_event_plain split: option.split\<close>)

lemma relay_loop_calls:
  assumes "\<And>k m. seReaped (smHeap (reMeanwhile (env k) m) ! a) = seReaped (smHeap m ! a)"
  shows "\<not> seReaped (smHeap sm ! a) \<Longrightarrow> relay_loop um x a env k ls sm = (sm', evs) \<Longrightarrow>
    (\<not> list_ex is_result ls \<longrightarrow> \<not> list_ex is_run_end evs) \<and>
    concat (map ev_calls (takeWhile (\<lambda>ev. \<not> is_run_end ev) evs)) = stream_calls um env k ls"
proof (induction ls arbitrary: k sm sm' evs)
  case (Cons l ls)
  let ?m = "reMeanwhile (env k) sm"
  have m: "\<not> seReaped (smHeap ?m ! a)" using assms Cons.prems(1) by simp
  show ?case
  proof (cases "is_result l")
    case True
    with relay_line_end [OF this, of um x a "reIDs (env k)" "reNow (env k)" ?m] Cons.prems(2) show ?thesis
      by (auto simp: relay_result_def split: prod.splits)
  next
    case False
    from relay_line_calls [OF m this, of um x "reIDs (env k)" "reNow (env k)"] obtain sm1 evs1 where
      l: "relay_line um x a (reIDs (env k)) (reNow (env k)) l ?m = (sm1, evs1)" "\<not> seReaped (smHeap sm1 ! a)"
        "concat (map ev_calls evs1) = map (announced_use um) (zip (line_uses l) (reIDs (env k)))" "\<not> list_ex is_run_end evs1" by blast
    obtain sm2 evs2 where r: "relay_loop um x a env (Suc k) ls sm1 = (sm2, evs2)" by fastforce
    with l Cons.prems(2) have "evs = evs1 @ evs2" by simp
    moreover from l(4) have "takeWhile (\<lambda>ev. \<not> is_run_end ev) (evs1 @ evs2) = evs1 @ takeWhile (\<lambda>ev. \<not> is_run_end ev) evs2"
      by (simp add: takeWhile_append list_ex_iff)
    ultimately show ?thesis using Cons.IH [OF l(2) r] l(3,4) False by simp
  qed
qed simp

text \<open>What a client is sent of tool calls: those of a completion's message, or of a stream's chunks.\<close>

fun chunk_calls :: "'f sse \<Rightarrow> ToolCall list" where
  "chunk_calls (SChunk k) = (case scDelta k of DToolCalls es \<Rightarrow> map snd es | _ \<Rightarrow> [])"
| "chunk_calls _ = []"

definition calls_sent :: "'f response \<Rightarrow> ToolCall list" where
  "calls_sent resp =
     (case resp of
        RBody _ body \<Rightarrow>
          (case body of
             BCompletion r \<Rightarrow> concat (map (\<lambda>c. case mgToolCalls (chMessage c) of None \<Rightarrow> [] | Some cs \<Rightarrow> cs) (crChoices r))
           | _ \<Rightarrow> [])
      | RStream cs \<Rightarrow> concat (map chunk_calls cs))"

text \<open>\<open>resp\<close> is how the handler answers a turn with this outcome, streaming or not.\<close>

definition answers :: "'f turnOutcome \<Rightarrow> 'f response \<Rightarrow> bool" where
  "answers out resp \<longleftrightarrow>
     (\<exists>rid created model ds sid m m' tlog.
        let out' = (if toModel out = [] then out\<lparr>toModel := model\<rparr> else out)
        in answer_turn rid created out' sid m = Done (m', resp, tlog) \<or> stream_turn rid created model ds out' sid m = Done (m', resp, tlog))"

lemma no_calls_deltas [simp]: "concat (map (chunk_calls \<circ> delta_chunk rid created model) cbs) = []"
  by (induction cbs) (auto simp: delta_chunk_def NewStreamChunk_def split: callback.split)

lemma answer_turn_calls:
  "answer_turn rid created out sid m = Done (m', resp, tlog) \<Longrightarrow>
   calls_sent resp = (if announcing out then ToolCallsFromPending (toCalls out) else [])"
  by (auto simp: answer_turn_def calls_sent_def announcing_def sendError_def CompletionResponseWithCost_def NewToolCallResponse_def
      outcome_simps split: option.splits if_splits)

lemma stream_turn_calls:
  "stream_turn rid created model ds out sid m = Done (m', resp, tlog) \<Longrightarrow>
   calls_sent resp = (if announcing out then ToolCallsFromPending (toCalls out) else [])"
  by (auto simp: stream_turn_def calls_sent_def announcing_def role_chunk_def NewStreamChunk_def Let_def
      outcome_simps split: option.splits if_splits)

lemma answers_calls: "answers out resp \<Longrightarrow> calls_sent resp = (if announcing out then ToolCallsFromPending (toCalls out) else [])"
  by (auto simp: answers_def Let_def announcing_def dest: answer_turn_calls stream_turn_calls split: if_splits)

lemma answered_calls:
  "list_all2 answers outs resps \<Longrightarrow> list_all announcing outs \<Longrightarrow>
   concat (map calls_sent resps) = ToolCallsFromPending (concat (map toCalls outs))"
  by (induction rule: list_all2_induct) (simp_all add: answers_calls ToolCallsFromPending_def)

text \<open>The \<open>tool_use\<close> blocks of a line each get an id when as many ids are drawn as there are blocks.\<close>

lemma stream_calls_uses:
  assumes "\<forall>j < length ls. length (reIDs (env (k + j))) = length (line_uses (ls ! j))"
  shows "map (\<lambda>c. (anName c, anArguments c)) (stream_calls um env k ls) =
      map (\<lambda>u. (tuName u, canonicalJSON um (tuInput u))) (concat (map line_uses (takeWhile (\<lambda>l. \<not> is_result l) ls)))"
  using assms
proof (induction ls arbitrary: k)
  case (Cons l ls)
  have len: "length (line_uses l) = length (reIDs (env k))" using Cons.prems by (metis add_0_right length_greater_0_conv list.discI nth_Cons_0)
  have "\<forall>j < length ls. length (reIDs (env (Suc k + j))) = length (line_uses (ls ! j))"
    using Cons.prems by (auto dest: spec [of _ "Suc _"])
  note ih = Cons.IH [OF this]
  have "map (\<lambda>c. (anName c, anArguments c)) (map (announced_use um) (zip us ids)) = map (\<lambda>u. (tuName u, canonicalJSON um (tuInput u))) us"
    if "length us = length ids" for us ids
    using that by (induction us ids rule: list_induct2) (simp_all add: announced_use_def)
  with len ih show ?case by simp
qed simp

lemma stream_calls_all:
  assumes "relaySessionStream um parse x a env out sm = (sm', evs)"
    and "\<And>k m. seReaped (smHeap (reMeanwhile (env k) m) ! a) = seReaped (smHeap m ! a)" and "\<not> seReaped (smHeap sm ! a)"
  shows "concat (map toCalls (turns ms (map TEvent evs))) = stream_calls um env 0 (parsed_lines parse sessionTokenSize out)"
proof -
  let ?ls = "parsed_lines parse sessionTokenSize out"
  obtain sm1 evs1 where r: "relay_loop um x a env 0 ?ls sm = (sm1, evs1)" by fastforce
  have "list_ex is_run_end evs" using session_stream_ends [of um parse x a env out sm] assms(1) by simp
  note t = turns_calls [OF this, of ms]
  from relay_loop_calls [OF assms(2,3) r] have no_end: "\<not> list_ex is_result ?ls \<longrightarrow> \<not> list_ex is_run_end evs1"
    and calls: "concat (map ev_calls (takeWhile (\<lambda>ev. \<not> is_run_end ev) evs1)) = stream_calls um env 0 ?ls" by blast+
  show ?thesis
  proof (cases "list_ex is_result ?ls")
    case True
    with r assms(1) have "evs = evs1" by (simp add: relaySessionStream_def Let_def is_result_def [abs_def])
    with t calls show ?thesis by simp
  next
    case False
    with r assms(1) have "evs = evs1 @ [noResult]" by (simp add: relaySessionStream_def Let_def is_result_def [abs_def])
    moreover from no_end False have "takeWhile (\<lambda>ev. \<not> is_run_end ev) (evs1 @ [noResult]) = takeWhile (\<lambda>ev. \<not> is_run_end ev) evs1"
      by (simp add: takeWhile_append list_ex_iff noResult_def takeWhile_eq_all_conv [THEN iffD2])
    ultimately show ?thesis using t calls by simp
  qed
qed

text \<open>C6: No tool call of the CLI is lost, doubled or reordered on its way to the client, as long as the session is not
  reaped and no turn times out or loses its client. The answers to the turns of a run carry, one after the
  other, exactly the calls of the turns that stopped for tools, each under its minted id; the answer
  to the last turn, the end of the run, carries none. With the calls that the CLI announced in that last turn,
  which nobody is sent, they are, in order, all \<open>tool_use\<close> blocks the CLI wrote before its first result, with
  their bare names and canonical arguments.\<close>

theorem calls_reach_client:
  assumes "relaySessionStream um parse x a env out sm = (sm', evs)"
    and "\<And>k m. seReaped (smHeap (reMeanwhile (env k) m) ! a) = seReaped (smHeap m ! a)" and "\<not> seReaped (smHeap sm ! a)"
    and "ls = parsed_lines parse sessionTokenSize out" and "\<forall>j < length ls. length (reIDs (env j)) = length (line_uses (ls ! j))"
    and "outs = turns ms (map TEvent evs)" and "list_all2 answers outs resps"
  shows "resps \<noteq> [] \<and> calls_sent (last resps) = [] \<and>
         map calls_sent (butlast resps) = map (\<lambda>o'. ToolCallsFromPending (toCalls o')) (butlast outs) \<and>
         concat (map calls_sent resps) @ ToolCallsFromPending (toCalls (last outs)) =
           ToolCallsFromPending (stream_calls um env 0 ls) \<and>
         map (\<lambda>c. (tfName (tcFunction c), tfArguments (tcFunction c))) (concat (map calls_sent resps) @ ToolCallsFromPending (toCalls (last outs))) =
           map (\<lambda>u. (tuName u, canonicalJSON um (tuInput u))) (concat (map line_uses (takeWhile (\<lambda>l. \<not> is_result l) ls)))"
proof -
  have "list_ex is_run_end evs" using session_stream_ends [of um parse x a env out sm] assms(1) by simp
  from turns_whole [OF this, of ms] assms(6) obtain os fin where o: "outs = os @ [fin]" "list_all announcing os" "toFinal fin" by auto
  with assms(7) obtain rs rl where r: "resps = rs @ [rl]" "list_all2 answers os rs" "answers fin rl"
    by (auto simp: list_all2_append1 list_all2_Cons1)
  from o(3) answers_calls [OF r(3)] have last: "calls_sent rl = []" by (simp add: announcing_def)
  have each: "map calls_sent rs = map (\<lambda>o'. ToolCallsFromPending (toCalls o')) os"
    using r(2) o(2) by (induction rule: list_all2_induct) (simp_all add: answers_calls)
  from stream_calls_all [OF assms(1-3), of ms] assms(4,6) have "concat (map toCalls outs) = stream_calls um env 0 ls" by simp
  then have all: "concat (map toCalls os) @ toCalls fin = stream_calls um env 0 ls" by (simp add: o(1))
  have sent: "concat (map calls_sent resps) @ ToolCallsFromPending (toCalls (last outs)) = ToolCallsFromPending (stream_calls um env 0 ls)"
    using answered_calls [OF r(2) o(2)] by (simp add: r(1) last o(1) all [symmetric] ToolCallsFromPending_def)
  have "map (\<lambda>c. (tfName (tcFunction c), tfArguments (tcFunction c))) (ToolCallsFromPending cs) = map (\<lambda>c. (anName c, anArguments c)) cs" for cs
    by (simp add: ToolCallsFromPending_def)
  with sent stream_calls_uses [of ls env 0 um] assms(5) last each show ?thesis by (simp add: r(1) o(1))
qed

text \<open>A CLI that calls one tool, stops for it, and exits.\<close>

abbreviation use_line :: "nat streamJsonLine" where
  "use_line \<equiv> \<lparr>slType = ''assistant'', slSubtype = [], slIsError = False, slResult = [], slSessionID = [], slStopReason = None,
     slTotalCostUSD = None, slUsage = None,
     slMessage = Some \<lparr>lmModel = [], lmContent = [\<lparr>cbType = ''tool_use'', cbText = [], cbID = [], cbName = ''mcp__relay__f'', cbInput = []\<rparr>]\<rparr>,
     slEvent = None\<rparr>"

abbreviation stop_line :: "nat streamJsonLine" where
  "stop_line \<equiv> \<lparr>slType = ''stream_event'', slSubtype = [], slIsError = False, slResult = [], slSessionID = [], slStopReason = None,
     slTotalCostUSD = None, slUsage = None, slMessage = None,
     slEvent = Some \<lparr>leType = ''message_delta'',
       leDelta = Some \<lparr>ldType = [], ldText = [], ldThinking = [], ldStopReason = Some ''tool_use''\<rparr>, leUsage = None\<rparr>\<rparr>"

abbreviation demo_parse :: "gostring \<Rightarrow> nat streamJsonLine option" where
  "demo_parse l \<equiv> Some (if l = ''u'' then use_line else stop_line)"

abbreviation demo_out :: gostring where
  "demo_out \<equiv> [CHR ''u'', CHR 0x0A, CHR ''s'']"

abbreviation demo_reader :: "nat \<Rightarrow> reader_env" where
  "demo_reader k \<equiv> \<lparr>reMeanwhile = (\<lambda>m. m), reIDs = (if k = 0 then [''c''] else []), reNow = 0\<rparr>"

abbreviation demo_called :: announced where
  "demo_called \<equiv> \<lparr>anID = ''c'', anName = ''f'', anArguments = ''{}''\<rparr>"

lemma demo_parsed: "[use_line, stop_line] = parsed_lines demo_parse sessionTokenSize demo_out"
  by (simp add: parsed_lines_def scan_lines_def raw_lines_def sessionTokenSize_def dropCR_def List.map_filter_def Let_def)

lemma demo_uses:
  "line_uses use_line = [\<lparr>tuID = [], tuName = ''f'', tuInput = []\<rparr>]" "line_uses stop_line = []"
  using stripMCPToolPrefix_qualified [of "''f''"] by (simp_all add: line_uses_def tool_uses_def)

lemma demo_relayed:
  "snd (relaySessionStream (\<lambda>_. None) demo_parse False 0 demo_reader demo_out (fst (CreateSession ''s'' [] 0 (NewSessionManager 1 1 1)))) =
     [EvToolCalls [] [demo_called], EvStop (Some ''tool_use'') None, noResult]"
  using stripMCPToolPrefix_qualified [of "''f''"]
  by (simp add: relaySessionStream_def demo_parsed [symmetric] relay_line_def relay_event_def tool_uses_def RegisterAnnouncedCalls_def
      Register_pending_def Register_index_def CreateSession_def NewSessionManager_def newPending_def canonicalJSON_def announced_of_def Let_def)

lemma demo_turns:
  "\<exists>o1 o2. turns 5 (map TEvent [EvToolCalls [] [demo_called], EvStop (Some ''tool_use'') None, noResult :: nat SessionEvent]) = [o1, o2] \<and> toCalls o2 = []"
  by (subst turns.simps, simp add: collectTurn_def turn_start_def, subst turns.simps, simp add: collectTurn_def turn_start_def noResult_def)

lemma demo_answers: "\<exists>resps. list_all2 answers (outs :: nat turnOutcome list) resps"
proof -
  have ans: "\<exists>resp. answers out resp" for out :: "nat turnOutcome"
  proof -
    let ?out = "if toModel out = [] then out\<lparr>toModel := []\<rparr> else out"
    have "\<exists>m' resp tlog. answer_turn [] 0 ?out [] (NewSessionManager 1 1 1) = Done (m', resp, tlog)"
      by (auto simp: answer_turn_def ReapSession_def reapSessionLocked_def NewSessionManager_def split: option.split)
    then show ?thesis unfolding answers_def Let_def by blast
  qed
  show ?thesis
  proof (induction outs)
    case (Cons out outs)
    with ans [of out] show ?case by (auto simp: list_all2_Cons1)
  qed simp
qed

theorem calls_reach_client_witness:
  "\<exists>sm' evs resps. relaySessionStream (\<lambda>_. None) demo_parse False 0 demo_reader demo_out (fst (CreateSession ''s'' [] 0 (NewSessionManager 1 1 1))) = (sm', evs) \<and>
     list_all2 answers (turns 5 (map TEvent evs)) resps \<and>
     map calls_sent resps = [[\<lparr>tcID = ''c'', tcType = ''function'', tcFunction = \<lparr>tfName = ''f'', tfArguments = ''{}''\<rparr>\<rparr>], []]"
proof -
  let ?sm = "fst (CreateSession ''s'' [] 0 (NewSessionManager 1 1 1))"
  obtain sm' evs where r: "relaySessionStream (\<lambda>_. None) demo_parse False 0 demo_reader demo_out ?sm = (sm', evs)" by fastforce
  with demo_relayed have evs: "evs = [EvToolCalls [] [demo_called], EvStop (Some ''tool_use'') None, noResult]" by simp
  have live: "\<not> seReaped (smHeap ?sm ! 0)" by (simp add: CreateSession_def NewSessionManager_def)
  obtain resps where resps: "list_all2 answers (turns 5 (map TEvent evs)) resps" using demo_answers by blast
  have ids: "\<forall>j < length [use_line, stop_line]. length (reIDs (demo_reader j)) = length (line_uses ([use_line, stop_line] ! j))"
    by (auto simp: demo_uses nth_Cons split: nat.split)
  from demo_turns evs obtain o1 o2 where o: "turns 5 (map TEvent evs) = [o1, o2]" "toCalls o2 = []" by auto
  from resps obtain r1 r2 where rs: "resps = [r1, r2]" unfolding o(1) by (auto simp: list_all2_Cons1)
  note claim = calls_reach_client [OF r _ live demo_parsed ids refl resps]
  have "calls_sent (last resps) = []" by (rule claim [THEN conjunct2, THEN conjunct1]) simp
  then have "calls_sent r2 = []" by (simp add: rs)
  moreover have "concat (map calls_sent resps) @ ToolCallsFromPending (toCalls (last (turns 5 (map TEvent evs)))) =
      ToolCallsFromPending (stream_calls (\<lambda>_. None) demo_reader 0 [use_line, stop_line])"
    by (rule claim [THEN conjunct2, THEN conjunct2, THEN conjunct2, THEN conjunct1]) simp
  then have "concat (map calls_sent resps) = ToolCallsFromPending (stream_calls (\<lambda>_. None) demo_reader 0 [use_line, stop_line])"
    by (simp only: o last.simps list.simps if_False) (simp add: o(2) ToolCallsFromPending_def)
  ultimately have "calls_sent r2 = []" "concat (map calls_sent resps) = ToolCallsFromPending (stream_calls (\<lambda>_. None) demo_reader 0 [use_line, stop_line])"
    by simp_all
  then have "map calls_sent resps = [[\<lparr>tcID = ''c'', tcType = ''function'', tcFunction = \<lparr>tfName = ''f'', tfArguments = ''{}''\<rparr>\<rparr>], []]"
    by (simp add: rs is_result_def demo_uses announced_use_def canonicalJSON_def ToolCallsFromPending_def)
  note d = this
  show ?thesis by (rule exI [of _ sm'], rule exI [of _ evs], rule exI [of _ resps]) (intro conjI r resps d)
qed

end
