(* ===== verification/Relay.thy ===== *)
theory Relay
  imports MuxEnd
begin

text \<open>
  The public half of the tunnel (\<open>internal/tunnel/relay.go\<close>): the relay's configuration, the token check,
  the one registered tunnel client, the routing of an accepted connection, and the response
  given to a public caller when there is nothing to pipe to.

  TLS, certificates and log output are outside the model: a TLS connection is the result of
  its handshake and the protocol it negotiated.
\<close>

section \<open>Configuration\<close>

record RelayConfig =
  rcDomain :: gostring
  rcToken :: gostring
  rcCertCacheDir :: gostring
  rcAddr :: gostring
  rcHTTPAddr :: gostring

text \<open>
  The multiplexers the relay has built live in \<open>rlMuxes\<close>; a registered tunnel client is
  an index into it.
\<close>

record Relay =
  rlCfg :: RelayConfig
  rlTun :: "nat option"
  rlListening :: bool
  rlClosed :: bool
  rlMuxes :: "Conn list"

datatype relay_config_error = TokenUnset | DomainUnset | CertCacheDirUnset

definition NewRelay :: "RelayConfig \<Rightarrow> relay_config_error + Relay" where
  "NewRelay cfg =
     (if rcToken cfg = [] then Inl TokenUnset
      else
        let cfg = (if rcAddr cfg = [] then cfg\<lparr>rcAddr := '':443''\<rparr> else cfg);
            cfg = (if rcHTTPAddr cfg = [] then cfg\<lparr>rcHTTPAddr := '':80''\<rparr> else cfg)
        in Inr \<lparr>rlCfg = cfg, rlTun = None, rlListening = False, rlClosed = False, rlMuxes = []\<rparr>)"

text \<open>\<open>tlsConfig\<close>: what is checked before anything binds, and the protocols offered.\<close>

definition ALPNProto :: gostring where
  "ALPNProto = ''vtun/1''"

definition acme_ALPNProto :: gostring where
  "acme_ALPNProto = ''acme-tls/1''"

definition relay_tlsConfig :: "Relay \<Rightarrow> relay_config_error + gostring list" where
  "relay_tlsConfig r =
     (if rcDomain (rlCfg r) = [] then Inl DomainUnset
      else if rcCertCacheDir (rlCfg r) = [] then Inl CertCacheDirUnset
      else Inr [ALPNProto, ''http/1.1'', acme_ALPNProto])"

section \<open>Authenticating a control connection\<close>

text \<open>
  \<open>authenticate\<close> reads one frame straight off the connection and compares its payload
  with the token; \<open>subtle.ConstantTimeCompare\<close> is 1 exactly for equal byte strings.
  The result is the error, or the connection's bytes that follow the frame and the state of
  its writer after the \<open>AUTH_OK\<close>.
\<close>

definition ConstantTimeCompare :: "bytes \<Rightarrow> bytes \<Rightarrow> nat" where
  "ConstantTimeCompare x y = (if x = y then 1 else 0)"

definition authenticate ::
  "gostring \<Rightarrow> (bytes \<Rightarrow> 's \<Rightarrow> 's \<times> tunnel_error option) \<Rightarrow> reader \<Rightarrow> 's \<Rightarrow>
   tunnel_error + (reader \<times> 's)" where
  "authenticate token w r s =
     (case ReadFrame r of
        Inl err \<Rightarrow> Inl (ReadingAuthFrame err)
      | Inr (f, r') \<Rightarrow>
          if frType f \<noteq> FrameAuth then Inl (ExpectedAuth (frType f))
          else if ConstantTimeCompare (frPayload f) (bytes_of_string token) \<noteq> 1 then Inl BadToken
          else (case WriteFrame w s (control_frame FrameAuthOK) of
                  (s', Some err) \<Rightarrow> Inl err
                | (s', None) \<Rightarrow> Inr (r', s')))"

section \<open>The registered tunnel client\<close>

definition tunnel :: "Relay \<Rightarrow> nat option" where
  "tunnel r = rlTun r"

definition TunnelConnected :: "Relay \<Rightarrow> bool" where
  "TunnelConnected r \<longleftrightarrow> tunnel r \<noteq> None"

definition closeMux :: "nat \<Rightarrow> Relay \<Rightarrow> Relay" where
  "closeMux m r = r\<lparr>rlMuxes := (rlMuxes r)[m := Conn_Close (rlMuxes r ! m)]\<rparr>"

text \<open>
  \<open>register\<close> swaps the registered multiplexer under the lock, and closes the one it replaced
  after it has released the lock.
\<close>

definition register_swap :: "nat \<Rightarrow> Relay \<Rightarrow> Relay \<times> nat option" where
  "register_swap m r = (r\<lparr>rlTun := Some m\<rparr>, rlTun r)"

definition register :: "nat \<Rightarrow> Relay \<Rightarrow> Relay" where
  "register m r =
     (case register_swap m r of
        (r', None) \<Rightarrow> r'
      | (r', Some previous) \<Rightarrow> closeMux previous r')"

definition unregister :: "nat \<Rightarrow> Relay \<Rightarrow> Relay" where
  "unregister m r = (if rlTun r = Some m then r\<lparr>rlTun := None\<rparr> else r)"

text \<open>\<open>Close\<close>, too, closes the client it took out only after the lock.\<close>

definition Relay_Close_take :: "Relay \<Rightarrow> Relay \<times> nat option" where
  "Relay_Close_take r =
     (if rlClosed r then (r, None) else (r\<lparr>rlClosed := True, rlTun := None, rlListening := False\<rparr>, rlTun r))"

definition Relay_Close :: "Relay \<Rightarrow> Relay" where
  "Relay_Close r = (case Relay_Close_take r of (r', None) \<Rightarrow> r' | (r', Some m) \<Rightarrow> closeMux m r')"

text \<open>
  \<open>serveTunnelClient\<close> up to its wait for the end of the connection: on a failed check
  the connection is closed and nothing changes; otherwise a relay-side multiplexer is built
  on it, which is live from then on, and afterwards registered. Its last part, once the
  multiplexer is done, is \<open>unregister\<close>.
\<close>

definition admit ::
  "(bytes \<Rightarrow> 's \<Rightarrow> 's \<times> tunnel_error option) \<Rightarrow> reader \<Rightarrow> 's \<Rightarrow> Relay \<Rightarrow>
   Relay \<times> (tunnel_error + nat \<times> reader \<times> 's)" where
  "admit w rd s r =
     (case authenticate (rcToken (rlCfg r)) w rd s of
        Inl err \<Rightarrow> (r, Inl err)
      | Inr (rd', s') \<Rightarrow> (r\<lparr>rlMuxes := rlMuxes r @ [NewConn SideRelay]\<rparr>, Inr (length (rlMuxes r), rd', s')))"

definition serveTunnelClient ::
  "(bytes \<Rightarrow> 's \<Rightarrow> 's \<times> tunnel_error option) \<Rightarrow> reader \<Rightarrow> 's \<Rightarrow> Relay \<Rightarrow>
   Relay \<times> (tunnel_error + nat \<times> reader \<times> 's)" where
  "serveTunnelClient w rd s r =
     (case admit w rd s r of
        (r', Inl err) \<Rightarrow> (r', Inl err)
      | (r', Inr (m, rd', s')) \<Rightarrow> (register m r', Inr (m, rd', s')))"

section \<open>Accepted connections\<close>

text \<open>\<open>Serve\<close>: an error from the listener ends the loop, quietly once the relay is closed.\<close>

datatype serve_end = ServeOK | ServeFailed tunnel_error

definition Serve_accept :: "(tunnel_error + 'conn) \<Rightarrow> Relay \<Rightarrow> serve_end + 'conn" where
  "Serve_accept a r =
     (case a of
        Inr conn \<Rightarrow> Inr conn
      | Inl err \<Rightarrow> Inl (if rlClosed r then ServeOK else ServeFailed err))"

text \<open>A connection is not TLS, or TLS with a failed handshake, or TLS with a negotiated protocol.\<close>

datatype accepted = PlainConn | HandshakeFailed | Negotiated gostring

datatype route = CloseConn | ServeTunnelClient | ServePublic

fun handleConn :: "accepted \<Rightarrow> route" where
  "handleConn PlainConn = ServePublic"
| "handleConn HandshakeFailed = CloseConn"
| "handleConn (Negotiated proto) = (if proto = ALPNProto then ServeTunnelClient else ServePublic)"

section \<open>Public connections\<close>

definition CRLF :: gostring where
  "CRLF = [char_of (13 :: nat), char_of (10 :: nat)]"

definition unavailable_body :: gostring where
  "unavailable_body =
     ''{\"error\":{\"message\":\"no valyrium tunnel client is connected to this relay\",\"type\":\"api_error\"}}''"

definition maxDrain :: nat where
  "maxDrain = 2 ^ 20"

text \<open>
  \<open>writeUnavailable\<close>: the bytes drained from a parsed request's body, and the response.
\<close>

definition writeUnavailable :: "gostring option \<Rightarrow> gostring \<times> gostring" where
  "writeUnavailable body =
     (case body of None \<Rightarrow> [] | Some b \<Rightarrow> take maxDrain b,
      ''HTTP/1.1 503 Service Unavailable'' @ CRLF @
      ''Content-Type: application/json'' @ CRLF @
      ''Content-Length: '' @ string_of_nat (length unavailable_body) @ CRLF @
      ''Connection: close'' @ CRLF @
      CRLF @ unavailable_body)"

datatype public_outcome = Unavailable gostring | Piped nat addr

definition servePublic :: "rawwrite \<Rightarrow> gostring option \<Rightarrow> Relay \<Rightarrow> Relay \<times> public_outcome" where
  "servePublic wr body r =
     (case tunnel r of
        None \<Rightarrow> (r, Unavailable (snd (writeUnavailable body)))
      | Some m \<Rightarrow>
          (case Open wr (rlMuxes r ! m) of
             (c', Inl err) \<Rightarrow>
               (r\<lparr>rlMuxes := (rlMuxes r)[m := c']\<rparr>, Unavailable (snd (writeUnavailable body)))
           | (c', Inr a) \<Rightarrow> (r\<lparr>rlMuxes := (rlMuxes r)[m := c']\<rparr>, Piped m a)))"

section \<open>The token check\<close>

abbreviation auth_frame :: "gostring \<Rightarrow> Frame" where
  "auth_frame token \<equiv> \<lparr>frType = FrameAuth, frStreamID = 0, frPayload = bytes_of_string token\<rparr>"

lemma auth_frame_valid: "validate (auth_frame token) = None \<longleftrightarrow> length token \<le> MaxPayloadSize"
  by (simp add: validate_None known_iff carriesStream_def frame_type_defs)

lemma authenticate_iff:
  "authenticate token append_writer (bs, e) s = Inr (r, s') \<longleftrightarrow>
     length token \<le> MaxPayloadSize \<and> s' = s @ frame_bytes (control_frame FrameAuthOK) \<and>
     (\<exists>rest. r = (rest, e) \<and> bs = frame_bytes (auth_frame token) @ rest)"
proof
  assume h: "authenticate token append_writer (bs, e) s = Inr (r, s')"
  then obtain f where f: "ReadFrame (bs, e) = Inr (f, r)" "frType f = FrameAuth"
      "frPayload f = bytes_of_string token" "s' = s @ frame_bytes (control_frame FrameAuthOK)"
    by (auto simp: authenticate_def ConstantTimeCompare_def WriteFrame_append
        split: sum.splits prod.splits if_splits)
  from fc.get_Inr [OF f(1)] have v: "validate f = None" and rest: "\<exists>rest. r = (rest, e) \<and> bs = frame_bytes f @ rest"
    by blast+
  from v f(2) have "frStreamID f = 0"
    by (simp add: validate_None carriesStream_def frame_type_defs)
  with f have "f = auth_frame token" by simp
  with v rest f(4) auth_frame_valid show "length token \<le> MaxPayloadSize \<and> s' = s @ frame_bytes (control_frame FrameAuthOK) \<and>
     (\<exists>rest. r = (rest, e) \<and> bs = frame_bytes (auth_frame token) @ rest)" by metis
next
  assume h: "length token \<le> MaxPayloadSize \<and> s' = s @ frame_bytes (control_frame FrameAuthOK) \<and>
     (\<exists>rest. r = (rest, e) \<and> bs = frame_bytes (auth_frame token) @ rest)"
  then show "authenticate token append_writer (bs, e) s = Inr (r, s')"
    by (auto simp: authenticate_def fc.get_put auth_frame_valid ConstantTimeCompare_def WriteFrame_append)
qed

text \<open>A control connection is authenticated exactly when its first bytes are the one encoding of an
  AUTH frame carrying the configured token; the relay then answers one AUTH_OK frame and leaves every
  byte after the AUTH frame for the multiplexer. Nothing else is accepted.\<close>

theorem relay_authenticates_iff:
  "authenticate token append_writer (bs, e) [] = Inr ((rest, e), out) \<longleftrightarrow>
     length token \<le> MaxPayloadSize \<and> bs = frame_bytes (auth_frame token) @ rest \<and>
     out = frame_bytes (control_frame FrameAuthOK)"
  by (auto simp: authenticate_iff)

section \<open>At most one live tunnel client\<close>

text \<open>
  A running relay: its goroutines, each known by what it has still to do. A handler that has
  built the multiplexer of its client must register it; a registration, or the relay's \<open>Close\<close>, that has
  taken a multiplexer out must close it; and a handler that has registered one watches for its end.
  Between any two of these steps come those of the other goroutines, public connections and every
  event of every multiplexer among them.
\<close>

datatype relay_task = ToRegister nat | ToClose nat | Watching nat

record relay_world =
  rwRelay :: Relay
  rwTasks :: "relay_task list"

definition to_close :: "nat option \<Rightarrow> relay_task list" where
  "to_close x = (case x of None \<Rightarrow> [] | Some m \<Rightarrow> [ToClose m])"

inductive relay_step :: "relay_world \<Rightarrow> relay_world \<Rightarrow> bool" where
  client: "admit append_writer rd [] (rwRelay w) = (r', Inr (m, rd', s')) \<Longrightarrow>
     relay_step w (w\<lparr>rwRelay := r', rwTasks := ToRegister m # rwTasks w\<rparr>)"
| swap: "ToRegister m \<in> set (rwTasks w) \<Longrightarrow> register_swap m (rwRelay w) = (r', previous) \<Longrightarrow>
     relay_step w (w\<lparr>rwRelay := r', rwTasks := to_close previous @ Watching m # remove1 (ToRegister m) (rwTasks w)\<rparr>)"
| replaced: "ToClose m \<in> set (rwTasks w) \<Longrightarrow>
     relay_step w (w\<lparr>rwRelay := closeMux m (rwRelay w), rwTasks := remove1 (ToClose m) (rwTasks w)\<rparr>)"
| gone: "Watching m \<in> set (rwTasks w) \<Longrightarrow> cnClosed (rlMuxes (rwRelay w) ! m) \<Longrightarrow>
     relay_step w (w\<lparr>rwRelay := unregister m (rwRelay w), rwTasks := remove1 (Watching m) (rwTasks w)\<rparr>)"
| close: "Relay_Close_take (rwRelay w) = (r', taken) \<Longrightarrow>
     relay_step w (w\<lparr>rwRelay := r', rwTasks := to_close taken @ rwTasks w\<rparr>)"
| public: "servePublic wr body (rwRelay w) = (r', out) \<Longrightarrow> relay_step w (w\<lparr>rwRelay := r'\<rparr>)"
| mux: "m < length (rlMuxes (rwRelay w)) \<Longrightarrow> ev_ok (rlMuxes (rwRelay w) ! m) ev \<Longrightarrow>
     mux_do ev (rlMuxes (rwRelay w) ! m) = Done (c', rep) \<Longrightarrow>
     relay_step w (w\<lparr>rwRelay := (rwRelay w)\<lparr>rlMuxes := (rlMuxes (rwRelay w))[m := c']\<rparr>\<rparr>)"

text \<open>Who answers for a live multiplexer: the registration, or a goroutine that has it in hand.\<close>

definition in_hand :: "nat \<Rightarrow> relay_world \<Rightarrow> bool" where
  "in_hand m w \<longleftrightarrow> rlTun (rwRelay w) = Some m \<or> ToRegister m \<in> set (rwTasks w) \<or> ToClose m \<in> set (rwTasks w)"

definition relay_inv :: "relay_world \<Rightarrow> bool" where
  "relay_inv w \<longleftrightarrow>
     (\<forall>c \<in> set (rlMuxes (rwRelay w)). mux_inv SideRelay c) \<and>
     (\<forall>m. in_hand m w \<longrightarrow> m < length (rlMuxes (rwRelay w))) \<and>
     (\<forall>m < length (rlMuxes (rwRelay w)). in_hand m w \<or> cnClosed (rlMuxes (rwRelay w) ! m))"

lemma closed_Open: "cnClosed c \<Longrightarrow> Open wr c = (c', r) \<Longrightarrow> cnClosed c'"
  by (auto simp: Open_def)

lemma closed_handleOpen: "cnClosed c \<Longrightarrow> cnClosed (handleOpen wr i c)"
  by (simp add: handleOpen_def Let_def frame_simps writeFrame_closed)

lemma closed_deliver: "cnClosed c \<Longrightarrow> deliver pick a b c = Done c' \<Longrightarrow> cnClosed c'"
  by (auto dest!: deliver_Done simp: frame_simps)

lemma closed_handleFrame: "cnClosed c \<Longrightarrow> handleFrame pick wr f c = Done (c', l) \<Longrightarrow> cnClosed c'"
  by (auto simp: handleFrame_def Let_def outcome_simps closed_handleOpen writeFrame_closed frame_simps
      remoteClosed_def split: if_splits option.splits intro: closed_deliver)

lemma closed_Read: "Read pick n a c = Done (c', r) \<Longrightarrow> cnClosed c' = cnClosed c"
proof (induction pick n a c arbitrary: c' r rule: Read.induct)
  case (1 pick n a c)
  show ?case
  proof (cases "stRbuf (cnHeap c ! a) \<noteq> []")
    case True
    with "1.prems" show ?thesis by (subst (asm) Read.simps) (auto simp: Let_def frame_simps)
  next
    case False
    show ?thesis
    proof (cases "select_ready (pick (length (stReads (cnHeap c ! a)))) (read_cases c (cnHeap c ! a))")
      case None
      with "1.prems" False show ?thesis by (subst (asm) Read.simps) (simp add: Let_def)
    next
      case (Some k)
      have ih: "cnClosed c' = cnClosed c" if "k = RData b" "a < length (cnHeap c)"
          "Read pick n a (updStream a (\<lambda>s. s\<lparr>stRbuf := b, stReads := tl (stReads s)\<rparr>) c) = Done (c', r)" for b
        using "1.IH" that False Some by (simp add: frame_simps)
      from "1.prems" False Some show ?thesis
        by (subst (asm) Read.simps) (cases k, auto simp: Let_def split: if_splits dest: ih)
    qed
  qed
qed

lemma writeFrame_closed_pair: "writeFrame wr f c = (c', r) \<Longrightarrow> cnClosed c \<Longrightarrow> cnClosed c'"
  using writeFrame_closed [of c wr f] by simp

lemma closed_removeStream: "cnClosed c \<Longrightarrow> cnClosed (removeStream i c)"
  by (simp add: frame_simps)

lemma closed_mux_do: "cnClosed c \<Longrightarrow> mux_do ev c = Done (c', r) \<Longrightarrow> cnClosed c'"
  by (cases ev)
    (auto simp: mux_do_def outcome_simps Conn_Close_def frame_simps Accept_def Write_chunk_def Open_register_def
      Stream_Close_mark_def Keepalive_tick_def Let_def closed_Read
      split: prod.splits option.splits if_splits
      dest: closed_handleFrame writeFrame_closed_pair)

lemma relay_mux_inv: "relay_inv w \<Longrightarrow> m < length (rlMuxes (rwRelay w)) \<Longrightarrow> mux_inv SideRelay (rlMuxes (rwRelay w) ! m)"
  by (simp add: relay_inv_def)

lemma relay_inv_update:
  assumes "relay_inv w" "m < length (rlMuxes (rwRelay w))" "mux_inv SideRelay c'"
    "cnClosed (rlMuxes (rwRelay w) ! m) \<longrightarrow> cnClosed c'"
  shows "relay_inv (w\<lparr>rwRelay := (rwRelay w)\<lparr>rlMuxes := (rlMuxes (rwRelay w))[m := c']\<rparr>\<rparr>)"
  using assms set_update_subset_insert [of "rlMuxes (rwRelay w)" m c']
  by (auto simp: relay_inv_def in_hand_def nth_list_update)

lemma remove1_other: "x \<noteq> y \<Longrightarrow> x \<in> set (remove1 y xs) \<longleftrightarrow> x \<in> set xs"
  by (induction xs) auto

lemma relay_inv_tasks:
  assumes "relay_inv w" "rlMuxes r' = rlMuxes (rwRelay w)"
    "\<And>m. in_hand m (w\<lparr>rwRelay := r', rwTasks := ts\<rparr>) \<Longrightarrow> in_hand m w"
    "\<And>m. m < length (rlMuxes r') \<Longrightarrow> in_hand m w \<Longrightarrow> in_hand m (w\<lparr>rwRelay := r', rwTasks := ts\<rparr>) \<or> cnClosed (rlMuxes r' ! m)"
  shows "relay_inv (w\<lparr>rwRelay := r', rwTasks := ts\<rparr>)"
proof -
  have "in_hand m (w\<lparr>rwRelay := r', rwTasks := ts\<rparr>) \<or> cnClosed (rlMuxes (rwRelay w) ! m)"
    if "m < length (rlMuxes (rwRelay w))" for m
    using that assms(1,2) assms(4) [of m] by (auto simp: relay_inv_def)
  with assms(1-3) show ?thesis by (auto simp: relay_inv_def)
qed

lemma relay_inv_closeMux:
  assumes "relay_inv w" "ToClose m \<in> set (rwTasks w)"
  shows "relay_inv (w\<lparr>rwRelay := closeMux m (rwRelay w), rwTasks := remove1 (ToClose m) (rwTasks w)\<rparr>)"
proof -
  let ?r = "closeMux m (rwRelay w)"
  have m: "m < length (rlMuxes (rwRelay w))" using assms by (simp add: relay_inv_def in_hand_def)
  note inv = relay_mux_inv [OF assms(1) m]
  have c: "cnClosed (Conn_Close (rlMuxes (rwRelay w) ! m))" "mux_inv SideRelay (Conn_Close (rlMuxes (rwRelay w) ! m))"
    using inv inv_closeWithErr [OF inv] unfolding Conn_Close_def by (simp_all add: closeWithErr_closes mux_inv_def [of SideRelay])
  have "relay_inv (w\<lparr>rwRelay := ?r\<rparr>)"
    unfolding closeMux_def using assms(1) m c by (intro relay_inv_update) simp_all
  then have "relay_inv (w\<lparr>rwRelay := ?r\<rparr>\<lparr>rwRelay := ?r, rwTasks := remove1 (ToClose m) (rwTasks w)\<rparr>)"
  proof (rule relay_inv_tasks)
    show "in_hand k (w\<lparr>rwRelay := ?r\<rparr>)"
      if "in_hand k (w\<lparr>rwRelay := ?r\<rparr>\<lparr>rwRelay := ?r, rwTasks := remove1 (ToClose m) (rwTasks w)\<rparr>)" for k
      using that by (auto simp: in_hand_def dest: notin_set_remove1 set_remove1_subset [THEN subsetD])
    show "in_hand k (w\<lparr>rwRelay := ?r\<rparr>\<lparr>rwRelay := ?r, rwTasks := remove1 (ToClose m) (rwTasks w)\<rparr>) \<or> cnClosed (rlMuxes ?r ! k)"
      if "in_hand k (w\<lparr>rwRelay := ?r\<rparr>)" for k
      using that m c by (cases "k = m") (auto simp: in_hand_def remove1_other closeMux_def)
  qed simp
  then show ?thesis by simp
qed

lemma relay_inv_grow:
  assumes "relay_inv w"
  shows "relay_inv (w\<lparr>rwRelay := (rwRelay w)\<lparr>rlMuxes := rlMuxes (rwRelay w) @ [NewConn SideRelay]\<rparr>,
                      rwTasks := ToRegister (length (rlMuxes (rwRelay w))) # rwTasks w\<rparr>)"
  using assms by (auto simp: relay_inv_def in_hand_def inv_NewConn nth_append less_Suc_eq)

lemma relay_step_inv: "relay_inv w \<Longrightarrow> relay_step w w' \<Longrightarrow> relay_inv w'"
proof (erule relay_step.cases, goal_cases)
  case (1 rd v r' m rd' s')
  then show ?case using relay_inv_grow [of v] by (auto simp: admit_def split: sum.splits prod.splits)
next
  case (2 m v r' previous)
  then show ?case
    by (auto intro!: relay_inv_tasks
        simp: register_swap_def in_hand_def to_close_def remove1_other split: option.splits dest: notin_set_remove1 set_remove1_subset [THEN subsetD])
next
  case (3 m v)
  then show ?case by (simp add: relay_inv_closeMux)
next
  case (4 m v)
  have "relay_inv (v\<lparr>rwRelay := unregister m (rwRelay v), rwTasks := remove1 (Watching m) (rwTasks v)\<rparr>)"
    by (rule relay_inv_tasks)
      (use 4 in \<open>auto simp: unregister_def in_hand_def remove1_other split: if_splits dest: notin_set_remove1 set_remove1_subset [THEN subsetD]\<close>)
  with 4 show ?case by simp
next
  case (5 v r' taken)
  have "relay_inv (v\<lparr>rwRelay := r', rwTasks := to_close taken @ rwTasks v\<rparr>)"
    by (rule relay_inv_tasks)
      (use 5 in \<open>auto simp: Relay_Close_take_def in_hand_def to_close_def split: option.splits if_splits\<close>)
  with 5 show ?case by simp
next
  case (6 wr body v r' out)
  have "relay_inv (v\<lparr>rwRelay := (rwRelay v)\<lparr>rlMuxes := (rlMuxes (rwRelay v))[m := c']\<rparr>\<rparr>)"
    if t: "rlTun (rwRelay v) = Some m" and o: "Open wr (rlMuxes (rwRelay v) ! m) = (c', x)" for m c' x
  proof -
    have v: "relay_inv v" using 6 by simp
    have m: "m < length (rlMuxes (rwRelay v))" using v t by (simp add: relay_inv_def in_hand_def)
    show ?thesis using v m inv_Open [OF relay_mux_inv [OF v m] o] closed_Open [OF _ o]
      by (blast intro: relay_inv_update)
  qed
  with 6 show ?case
    by (auto simp: servePublic_def tunnel_def split: option.splits prod.splits sum.splits)
next
  case (7 m v ev c' rep)
  then show ?case
    by (blast intro: relay_inv_update mux_do_inv relay_mux_inv closed_mux_do)
qed

definition relay_start :: "RelayConfig \<Rightarrow> relay_world \<Rightarrow> bool" where
  "relay_start cfg w \<longleftrightarrow> NewRelay cfg = Inr (rwRelay w) \<and> rwTasks w = []"

lemma NewRelay_fresh: "NewRelay cfg = Inr r \<Longrightarrow> rlTun r = None \<and> rlMuxes r = []"
  by (auto simp: NewRelay_def Let_def split: if_splits)

lemma relay_start_inv: "relay_start cfg w \<Longrightarrow> relay_inv w"
  using NewRelay_fresh [of cfg "rwRelay w"] by (auto simp: relay_start_def relay_inv_def in_hand_def)

interpretation rm: state_machine "relay_start cfg" relay_step relay_inv for cfg
  by unfold_locales (fact relay_start_inv, fact relay_step_inv)

text \<open>C15: However clients connect, reconnect, drop and are replaced, and however the parts of their handlers, public
  connections, the relay's \<open>Close\<close> and multiplexer events interleave, a control connection that is live is the registered
  one, or one whose handler has still to register it, or one that has been replaced and whose replacer has still to
  close it; so whenever no handler is between two of these steps, at most the registered one is live.\<close>

theorem one_live_tunnel:
  assumes "NewRelay cfg = Inr r" and "relay_step\<^sup>*\<^sup>* \<lparr>rwRelay = r, rwTasks = []\<rparr> w"
    and "m < length (rlMuxes (rwRelay w))" and "\<not> cnClosed (rlMuxes (rwRelay w) ! m)"
  shows "(tunnel (rwRelay w) = Some m \<or> ToRegister m \<in> set (rwTasks w) \<or> ToClose m \<in> set (rwTasks w)) \<and>
         (set (rwTasks w) \<subseteq> range Watching \<longrightarrow> tunnel (rwRelay w) = Some m)"
proof -
  have "relay_inv w" by (rule rm.reachable_inv [where cfg = cfg, OF _ assms(2)]) (simp add: relay_start_def assms(1))
  then show ?thesis using assms(3,4) by (auto simp: relay_inv_def in_hand_def tunnel_def)
qed

lemma authenticate_ok:
  "length token \<le> MaxPayloadSize \<Longrightarrow>
   authenticate token append_writer (frame_bytes (auth_frame token) @ rest, e) s =
     Inr ((rest, e), s @ frame_bytes (control_frame FrameAuthOK))"
  by (simp add: authenticate_iff)

lemma admit_ok:
  "length (rcToken (rlCfg r)) \<le> MaxPayloadSize \<Longrightarrow>
   admit append_writer (frame_bytes (auth_frame (rcToken (rlCfg r))) @ rest, e) s r =
     (r\<lparr>rlMuxes := rlMuxes r @ [NewConn SideRelay]\<rparr>,
      Inr (length (rlMuxes r), (rest, e), s @ frame_bytes (control_frame FrameAuthOK)))"
  by (simp add: admit_def authenticate_ok)

text \<open>A relay two clients with the token have connected to, one after the other.\<close>

abbreviation sample_config :: RelayConfig where
  "sample_config \<equiv> \<lparr>rcDomain = ''d'', rcToken = ''t'', rcCertCacheDir = ''c'', rcAddr = [], rcHTTPAddr = []\<rparr>"

abbreviation sample_relay :: "Conn list \<Rightarrow> nat option \<Rightarrow> Relay" where
  "sample_relay muxes tun \<equiv>
     \<lparr>rlCfg = sample_config\<lparr>rcAddr := '':443'', rcHTTPAddr := '':80''\<rparr>, rlTun = tun,
      rlListening = False, rlClosed = False, rlMuxes = muxes\<rparr>"

abbreviation sample_world :: "Conn list \<Rightarrow> nat option \<Rightarrow> relay_task list \<Rightarrow> relay_world" where
  "sample_world muxes tun ts \<equiv> \<lparr>rwRelay = sample_relay muxes tun, rwTasks = ts\<rparr>"

lemma sample_relay_start: "NewRelay sample_config = Inr (sample_relay [] None)"
  by (simp add: NewRelay_def)

lemma sample_client: "relay_step (sample_world ms tun ts) (sample_world (ms @ [NewConn SideRelay]) tun (ToRegister (length ms) # ts))"
  using relay_step.client [of "(frame_bytes (auth_frame ''t'') @ [], EOF)" "sample_world ms tun ts"] admit_ok [of "sample_relay ms tun" "[]" EOF "[]"]
  by (simp add: MaxPayloadSize_def)

lemma sample_swap:
  "relay_step (sample_world ms tun (ToRegister m # ts)) (sample_world ms (Some m) (to_close tun @ Watching m # ts))"
  using relay_step.swap [of m "sample_world ms tun (ToRegister m # ts)"] by (simp add: register_swap_def)

text \<open>Two clients have connected; the second has replaced the first and has still to close it.\<close>

lemma sample_reach:
  "relay_step\<^sup>*\<^sup>* (sample_world [] None [])
     (sample_world [NewConn SideRelay, NewConn SideRelay] (Some 1) [ToClose 0, Watching 1, Watching 0])"
proof -
  let ?n = "NewConn SideRelay"
  have "relay_step (sample_world [] None []) (sample_world [?n] None [ToRegister 0])" using sample_client [where ms = "[]"] by simp
  moreover have "relay_step (sample_world [?n] None [ToRegister 0]) (sample_world [?n] (Some 0) [Watching 0])"
    using sample_swap [where tun = None and m = 0 and ts = "[]"] by (simp add: to_close_def)
  moreover have "relay_step (sample_world [?n] (Some 0) [Watching 0]) (sample_world [?n, ?n] (Some 0) [ToRegister 1, Watching 0])"
    using sample_client [where ms = "[?n]"] by simp
  moreover have "relay_step (sample_world [?n, ?n] (Some 0) [ToRegister 1, Watching 0])
      (sample_world [?n, ?n] (Some 1) [ToClose 0, Watching 1, Watching 0])"
    using sample_swap [where tun = "Some 0" and m = 1 and ts = "[Watching 0]"] by (simp add: to_close_def)
  ultimately show ?thesis by (meson converse_rtranclp_into_rtranclp rtranclp.rtrancl_refl)
qed

theorem one_live_tunnel_witness:
  "tunnel (sample_relay [Conn_Close (NewConn SideRelay), NewConn SideRelay] (Some 1)) = Some 1"
proof -
  let ?w = "sample_world [Conn_Close (NewConn SideRelay), NewConn SideRelay] (Some 1) [Watching 1, Watching 0]"
  have "relay_step (sample_world [NewConn SideRelay, NewConn SideRelay] (Some 1) [ToClose 0, Watching 1, Watching 0]) ?w"
    using relay_step.replaced [of 0 "sample_world [NewConn SideRelay, NewConn SideRelay] (Some 1) [ToClose 0, Watching 1, Watching 0]"]
    by (simp add: closeMux_def)
  with sample_reach have r: "relay_step\<^sup>*\<^sup>* (sample_world [] None []) ?w" by (rule rtranclp.rtrancl_into_rtrancl)
  from one_live_tunnel [OF sample_relay_start r, of 1] show ?thesis by (auto simp: NewConn_def)
qed

text \<open>The last client with the token wins: it becomes the relay's tunnel, its predecessor is closed,
  and when the predecessor's handler cleans up after itself the new registration stays.\<close>

theorem last_client_wins:
  assumes "\<forall>c \<in> set (rlMuxes r). mux_inv SideRelay c" and "p < length (rlMuxes r)" and "rlTun r = Some p"
    and "serveTunnelClient w rd s r = (r', Inr (m, rd', s'))"
  shows "tunnel r' = Some m \<and> m \<noteq> p \<and> \<not> cnClosed (rlMuxes r' ! m) \<and> cnClosed (rlMuxes r' ! p) \<and>
         unregister p r' = r' \<and> unregister m r' = r'\<lparr>rlTun := None\<rparr>"
proof -
  have "err_ok (rlMuxes r ! p)" using assms(1,2) by (simp add: mux_inv_def)
  with assms(2-4) show ?thesis
    by (auto simp: serveTunnelClient_def admit_def register_def register_swap_def closeMux_def tunnel_def unregister_def nth_append
        list_update_append Conn_Close_def closeWithErr_closes NewConn_def split: sum.splits prod.splits)
qed

section \<open>Public connections\<close>

text \<open>A client that authenticated before the relay closed, and registers after it, is registered all the same.\<close>

lemma register_after_close:
  "serveTunnelClient w rd s (Relay_Close r) = (r', Inr x) \<Longrightarrow> TunnelConnected r'"
  by (auto simp: serveTunnelClient_def admit_def register_def register_swap_def closeMux_def TunnelConnected_def tunnel_def
      split: sum.splits prod.splits option.splits)

lemma Open_addr: "Open wr c = (c', Inr a) \<Longrightarrow> a = length (cnHeap c)"
  by (auto simp: Open_def Open_register_def Let_def split: if_splits prod.splits option.splits)

text \<open>A public connection is answered by the relay itself exactly when there is nothing to pipe to: no
  tunnel client is registered, its multiplexer is closed, or the OPEN frame could not be written; in
  every other case it is piped down a new stream of the registered client.\<close>

theorem public_answered_iff:
  assumes "servePublic wr body r = (r', out)"
  shows "(\<exists>resp. out = Unavailable resp) \<longleftrightarrow>
           (case tunnel r of None \<Rightarrow> True
            | Some m \<Rightarrow> cnClosed (rlMuxes r ! m) \<or> (\<exists>e. snd (Open wr (rlMuxes r ! m)) = Inl e)) \<and>
         (\<forall>m a. out = Piped m a \<longrightarrow> tunnel r = Some m \<and> a = length (cnHeap (rlMuxes r ! m)))"
proof (cases "tunnel r")
  case None
  with assms show ?thesis by (auto simp: servePublic_def)
next
  case (Some m)
  obtain c' x where o: "Open wr (rlMuxes r ! m) = (c', x)" by (cases "Open wr (rlMuxes r ! m)")
  have closed: "x = Inl (Conn_Err (rlMuxes r ! m))" if "cnClosed (rlMuxes r ! m)"
    using o that by (auto simp: Open_def)
  show ?thesis
  proof (cases x)
    case (Inl e)
    with assms Some o show ?thesis by (auto simp: servePublic_def)
  next
    case (Inr a)
    with closed have "\<not> cnClosed (rlMuxes r ! m)" by auto
    with assms Some o Inr Open_addr [OF o [unfolded Inr]] show ?thesis
      by (auto simp: servePublic_def)
  qed
qed

theorem public_answered_iff_witness:
  "\<exists>resp. Unavailable (snd (writeUnavailable None)) = Unavailable resp"
proof -
  have "servePublic rawwrite_ok None (sample_relay [] None) =
      (sample_relay [] None, Unavailable (snd (writeUnavailable None)))" for rawwrite_ok
    by (simp add: servePublic_def tunnel_def)
  from public_answered_iff [OF this] show ?thesis by (simp add: tunnel_def)
qed

end
