(* ===== verification/Tunnel.thy ===== *)
theory Tunnel
  imports Relay Pipe
begin

text \<open>
  The private half of the tunnel (\<open>internal/tunnel/tunnel.go\<close>): its configuration, the handshake with
  the relay, what is done with each stream the relay opens, and the reconnection loop with its
  backoff. Durations are \<open>int64\<close> nanoseconds. Dialling and TLS are outside the model; what they come
  to is an argument.
\<close>

section \<open>Configuration\<close>

text \<open>The TLS settings the code touches; a \<open>MinVersion\<close> of 0 is unset.\<close>

record tls_settings =
  tsNextProtos :: "gostring list"
  tsMinVersion :: int
  tsServerName :: gostring

record TunnelConfig =
  tcRelayAddr :: gostring
  tcToken :: gostring
  tcLocalAddr :: gostring
  tcTLSConfig :: "tls_settings option"
  tcMinBackoff :: int
  tcMaxBackoff :: int
  tcKeepAlive :: int

definition second :: int where
  "second = 1000000000"

definition defaultLocalAddr :: gostring where
  "defaultLocalAddr = ''127.0.0.1:8787''"

definition defaultMinBackoff :: int where
  "defaultMinBackoff = 1 * second"

definition defaultMaxBackoff :: int where
  "defaultMaxBackoff = 30 * second"

definition defaultKeepAlive :: int where
  "defaultKeepAlive = 30 * second"

datatype tunnel_config_error = RelayAddrUnset | TokenUnset

definition NewTunnel :: "TunnelConfig \<Rightarrow> tunnel_config_error + TunnelConfig" where
  "NewTunnel cfg =
     (if tcRelayAddr cfg = [] then Inl RelayAddrUnset
      else if tcToken cfg = [] then Inl TokenUnset
      else
        Inr (cfg\<lparr>tcLocalAddr := (if tcLocalAddr cfg = [] then defaultLocalAddr else tcLocalAddr cfg),
                 tcMinBackoff := (if tcMinBackoff cfg \<le> 0 then defaultMinBackoff else tcMinBackoff cfg),
                 tcMaxBackoff := (if tcMaxBackoff cfg \<le> 0 then defaultMaxBackoff else tcMaxBackoff cfg),
                 tcKeepAlive := (if tcKeepAlive cfg \<le> 0 then defaultKeepAlive else tcKeepAlive cfg)\<rparr>))"

section \<open>TLS settings\<close>

text \<open>\<open>net.SplitHostPort\<close>, up to the text of its errors.\<close>

fun index_of :: "char \<Rightarrow> gostring \<Rightarrow> nat option" where
  "index_of c [] = None"
| "index_of c (d # s) = (if c = d then Some 0 else map_option Suc (index_of c s))"

definition last_index_of :: "char \<Rightarrow> gostring \<Rightarrow> nat option" where
  "last_index_of c s = map_option (\<lambda>i. length s - 1 - i) (index_of c (rev s))"

definition SplitHostPort :: "gostring \<Rightarrow> (gostring \<times> gostring) option" where
  "SplitHostPort hostport =
     (case last_index_of CHR '':'' hostport of
        None \<Rightarrow> None
      | Some i \<Rightarrow>
          let host_j_k =
            (if hd hostport = CHR ''['' then
               (case index_of CHR '']'' hostport of
                  None \<Rightarrow> None
                | Some e \<Rightarrow> if Suc e = i then Some (take (e - 1) (drop 1 hostport), 1, Suc e) else None)
             else
               let host = take i hostport
               in if CHR '':'' \<in> set host then None else Some (host, 0, 0))
          in (case host_j_k of
                None \<Rightarrow> None
              | Some (host, j, k) \<Rightarrow>
                  if CHR ''['' \<in> set (drop j hostport) \<or> CHR '']'' \<in> set (drop k hostport) then None
                  else Some (host, drop (Suc i) hostport)))"

definition VersionTLS12 :: int where
  "VersionTLS12 = 0x0303"

definition tunnel_tlsConfig :: "TunnelConfig \<Rightarrow> tls_settings" where
  "tunnel_tlsConfig cfg =
     (let c = (case tcTLSConfig cfg of
                 None \<Rightarrow> \<lparr>tsNextProtos = [], tsMinVersion = 0, tsServerName = []\<rparr>
               | Some c \<Rightarrow> c);
          c = c\<lparr>tsNextProtos := [ALPNProto]\<rparr>;
          c = (if tsMinVersion c = 0 then c\<lparr>tsMinVersion := VersionTLS12\<rparr> else c)
      in if tsServerName c = [] then
           (case SplitHostPort (tcRelayAddr cfg) of Some (host, port) \<Rightarrow> c\<lparr>tsServerName := host\<rparr> | None \<Rightarrow> c)
         else c)"

section \<open>The handshake\<close>

datatype handshake_error =
    SendingAuth tunnel_error
  | RejectedOrClosed tunnel_error
  | ExpectedAuthOK byte

text \<open>The first half writes the AUTH frame; the second reads the relay's answer.\<close>

definition send_auth ::
  "gostring \<Rightarrow> (bytes \<Rightarrow> 's \<Rightarrow> 's \<times> tunnel_error option) \<Rightarrow> 's \<Rightarrow> 's \<times> handshake_error option" where
  "send_auth token w s =
     (case WriteFrame w s \<lparr>frType = FrameAuth, frStreamID = 0, frPayload = bytes_of_string token\<rparr> of
        (s', Some err) \<Rightarrow> (s', Some (SendingAuth err))
      | (s', None) \<Rightarrow> (s', None))"

definition await_auth_ok :: "reader \<Rightarrow> handshake_error + reader" where
  "await_auth_ok r =
     (case ReadFrame r of
        Inl err \<Rightarrow> Inl (RejectedOrClosed err)
      | Inr (f, r') \<Rightarrow> if frType f \<noteq> FrameAuthOK then Inl (ExpectedAuthOK (frType f)) else Inr r')"

definition authenticateTo ::
  "gostring \<Rightarrow> (bytes \<Rightarrow> 's \<Rightarrow> 's \<times> tunnel_error option) \<Rightarrow> 's \<Rightarrow> reader \<Rightarrow> 's \<times> (handshake_error + reader)" where
  "authenticateTo token w s r =
     (case send_auth token w s of
        (s', Some err) \<Rightarrow> (s', Inl err)
      | (s', None) \<Rightarrow> (s', await_auth_ok r))"

section \<open>One connection\<close>

text \<open>\<open>forward\<close>: the stream is piped to the local gateway, or closed when that does not answer.\<close>

datatype forwarded = Forwarded addr | Dropped addr

definition forward :: "rawwrite \<Rightarrow> bool \<Rightarrow> addr \<Rightarrow> Conn \<Rightarrow> Conn \<times> forwarded" where
  "forward wr dialOk a c = (if dialOk then (c, Forwarded a) else (fst (Stream_Close wr a c), Dropped a))"

text \<open>
  The accept loop on a multiplexer: each round the environment picks a ready case, whether the local
  gateway answers, and the writer's state. It ends with the multiplexer's error.
\<close>

fun accept_loop :: "(nat \<times> bool \<times> rawwrite) list \<Rightarrow> Conn \<Rightarrow> Conn \<times> forwarded list \<times> tunnel_error option" where
  "accept_loop [] c = (c, [], None)"
| "accept_loop ((pick, dialOk, wr) # rounds) c =
     (case Accept pick c of
        Done (c', Inr a) \<Rightarrow>
          (case forward wr dialOk a c' of
             (c'', f) \<Rightarrow> (case accept_loop rounds c'' of (c3, fs, e) \<Rightarrow> (c3, f # fs, e)))
      | Done (c', Inl err) \<Rightarrow> (c', [], Some err)
      | _ \<Rightarrow> (c, [], None))"

datatype connect_error = DialFailed | HandshakeRefused handshake_error

text \<open>What \<open>connectAndServe\<close> sets up: \<open>dialled\<close> is the result of the TLS dial.\<close>

definition connect ::
  "TunnelConfig \<Rightarrow> bool \<Rightarrow> (bytes \<Rightarrow> 's \<Rightarrow> 's \<times> tunnel_error option) \<Rightarrow> 's \<Rightarrow> reader \<Rightarrow> 's \<times> (connect_error + Conn \<times> reader)" where
  "connect cfg dialled w s r =
     (if \<not> dialled then (s, Inl DialFailed)
      else
        (case authenticateTo (tcToken cfg) w s r of
           (s', Inl err) \<Rightarrow> (s', Inl (HandshakeRefused err))
         | (s', Inr r') \<Rightarrow> (s', Inr (NewConn SideTunnel, r'))))"

section \<open>Reconnecting\<close>

text \<open>
  One round of \<open>Run\<close>: how long the connection stood, whether the context was done when it ended, and
  whether it is done before the wait is over.
\<close>

record round =
  rdElapsed :: int
  rdDoneAfter :: bool
  rdDoneInWait :: bool

definition before_wait :: "TunnelConfig \<Rightarrow> int \<Rightarrow> int \<Rightarrow> int" where
  "before_wait cfg elapsed backoff = (if elapsed > tcMaxBackoff cfg then tcMinBackoff cfg else backoff)"

definition after_wait :: "TunnelConfig \<Rightarrow> int \<Rightarrow> int" where
  "after_wait cfg backoff =
     (let backoff = wrap64 (backoff * 2) in if backoff > tcMaxBackoff cfg then tcMaxBackoff cfg else backoff)"

text \<open>The waits begun, in order, and whether \<open>Run\<close> has returned.\<close>

fun run_loop :: "TunnelConfig \<Rightarrow> round list \<Rightarrow> int \<Rightarrow> int list \<times> bool" where
  "run_loop cfg [] backoff = ([], False)"
| "run_loop cfg (rd # rds) backoff =
     (if rdDoneAfter rd then ([], True)
      else
        let b = before_wait cfg (rdElapsed rd) backoff
        in if rdDoneInWait rd then ([b], True)
           else (case run_loop cfg rds (after_wait cfg b) of (ws, ret) \<Rightarrow> (b # ws, ret)))"

definition Run :: "TunnelConfig \<Rightarrow> round list \<Rightarrow> int list \<times> bool" where
  "Run cfg rds = run_loop cfg rds (tcMinBackoff cfg)"

section \<open>Both ends of the handshake\<close>

text \<open>
  The exchange over a connection that loses nothing: the relay reads what the tunnel has written, and then
  the end of the connection that the tunnel closes when it cannot send; the tunnel reads what the relay
  has answered, or the end of the connection the relay closes on a refusal.
\<close>

definition handshake :: "gostring \<Rightarrow> gostring \<Rightarrow> (tunnel_error + bytes) \<times> (handshake_error + bytes)" where
  "handshake tunnelToken relayToken =
     (case send_auth tunnelToken append_writer [] of
        (sent, Some err) \<Rightarrow> (map_sum (\<lambda>e. e) (\<lambda>((rest, e), answer). rest) (authenticate relayToken append_writer (sent, EOF) []), Inl err)
      | (sent, None) \<Rightarrow>
          (case authenticate relayToken append_writer (sent, EOF) [] of
             Inl err \<Rightarrow> (Inl err, map_sum (\<lambda>e. e) fst (await_auth_ok ([], EOF)))
           | Inr ((rest, e), answer) \<Rightarrow> (Inr rest, map_sum (\<lambda>e. e) fst (await_auth_ok (answer, EOF)))))"

lemma auth_ok_valid: "validate (control_frame FrameAuthOK) = None"
  by (simp add: validate_None known_iff carriesStream_def frame_type_defs)

lemma await_auth_ok_answer: "await_auth_ok (frame_bytes (control_frame FrameAuthOK), e) = Inr ([], e)"
  using fc.get_put [OF auth_ok_valid, of "[]" e] by (simp add: await_auth_ok_def)

lemma send_auth_append:
  "send_auth token append_writer s =
     (if length token \<le> MaxPayloadSize then (s @ frame_bytes (auth_frame token), None)
      else (s, Some (SendingAuth (the (validate (auth_frame token))))))"
proof (cases "validate (auth_frame token)")
  case None
  then show ?thesis using auth_frame_valid [of token] by (simp add: send_auth_def WriteFrame_append)
next
  case (Some err)
  then have "\<not> length token \<le> MaxPayloadSize" using auth_frame_valid [of token] by auto
  with Some show ?thesis by (simp add: send_auth_def WriteFrame_def)
qed

lemma await_auth_ok_eof: "await_auth_ok ([], EOF) = Inl (RejectedOrClosed EOF)"
  by (simp add: await_auth_ok_def ReadFrame_def frameHeaderSize_def)

lemma authenticate_eof: "authenticate token append_writer ([], EOF) s = Inl (ReadingAuthFrame EOF)"
  by (simp add: authenticate_def ReadFrame_def frameHeaderSize_def)

lemma authenticate_other:
  "length t \<le> MaxPayloadSize \<Longrightarrow> t \<noteq> token \<Longrightarrow> authenticate token append_writer (frame_bytes (auth_frame t), e) s = Inl BadToken"
  using fc.get_put [of "auth_frame t" "[]" e] by (simp add: authenticate_def auth_frame_valid ConstantTimeCompare_def)

lemma authenticate_same:
  "length t \<le> MaxPayloadSize \<Longrightarrow>
   authenticate t append_writer (frame_bytes (auth_frame t), e) [] = Inr (([], e), frame_bytes (control_frame FrameAuthOK))"
  by (simp add: authenticate_iff)

text \<open>C20: The handshake agrees: both ends succeed when the tokens are equal (and fit a frame), leaving no byte of the
  exchange unread, and otherwise both fail; there is no case in which one end goes on and the other does not.\<close>

theorem handshake_agrees:
  "handshake t t' =
     (if length t > MaxPayloadSize then (Inl (ReadingAuthFrame EOF), Inl (SendingAuth (the (validate (auth_frame t)))))
      else if t = t' then (Inr [], Inr []) else (Inl BadToken, Inl (RejectedOrClosed EOF)))"
  by (auto simp: handshake_def send_auth_append authenticate_eof authenticate_other authenticate_same await_auth_ok_answer await_auth_ok_eof)

section \<open>The backoff\<close>

lemma after_wait_sane:
  "0 < b \<Longrightarrow> b \<le> tcMaxBackoff cfg \<Longrightarrow> tcMaxBackoff cfg \<le> 2 ^ 62 - 1 \<Longrightarrow> after_wait cfg b = min (2 * b) (tcMaxBackoff cfg)"
  by (simp add: after_wait_def Let_def min_def)

lemma run_loop_bounds:
  "0 < tcMinBackoff cfg \<Longrightarrow> tcMinBackoff cfg \<le> tcMaxBackoff cfg \<Longrightarrow> tcMaxBackoff cfg \<le> 2 ^ 62 - 1 \<Longrightarrow>
   tcMinBackoff cfg \<le> b \<Longrightarrow> b \<le> tcMaxBackoff cfg \<Longrightarrow>
   w \<in> set (fst (run_loop cfg rds b)) \<Longrightarrow> tcMinBackoff cfg \<le> w \<and> w \<le> tcMaxBackoff cfg"
proof (induction rds arbitrary: b)
  case (Cons rd rds)
  let ?b = "before_wait cfg (rdElapsed rd) b"
  have b: "tcMinBackoff cfg \<le> ?b" "?b \<le> tcMaxBackoff cfg" using Cons.prems(2,4,5) by (simp_all add: before_wait_def)
  have "after_wait cfg ?b = min (2 * ?b) (tcMaxBackoff cfg)"
    using after_wait_sane [of ?b cfg] b Cons.prems(1,3) by simp
  then have n: "tcMinBackoff cfg \<le> after_wait cfg ?b" "after_wait cfg ?b \<le> tcMaxBackoff cfg"
    using b Cons.prems(1,2) by (simp_all add: min_def)
  from Cons.prems(6) have "w = ?b \<or> w \<in> set (fst (run_loop cfg rds (after_wait cfg ?b)))"
    by (auto simp: Let_def split: if_splits prod.splits)
  with b Cons.IH [OF Cons.prems(1-3) n] show ?case by blast
qed simp

lemma run_loop_failing:
  "0 < tcMinBackoff cfg \<Longrightarrow> tcMinBackoff cfg \<le> tcMaxBackoff cfg \<Longrightarrow> tcMaxBackoff cfg \<le> 2 ^ 62 - 1 \<Longrightarrow>
   list_all (\<lambda>rd. rdElapsed rd \<le> tcMaxBackoff cfg \<and> \<not> rdDoneAfter rd \<and> \<not> rdDoneInWait rd) rds \<Longrightarrow>
   run_loop cfg rds (min (tcMinBackoff cfg * 2 ^ n) (tcMaxBackoff cfg)) =
     (map (\<lambda>k. min (tcMinBackoff cfg * 2 ^ (n + k)) (tcMaxBackoff cfg)) [0..<length rds], False)"
proof (induction rds arbitrary: n)
  case (Cons rd rds)
  let ?b = "min (tcMinBackoff cfg * 2 ^ n) (tcMaxBackoff cfg)"
  have "0 < ?b" using Cons.prems(1,2) by simp
  then have "after_wait cfg ?b = min (2 * ?b) (tcMaxBackoff cfg)"
    using Cons.prems(3) by (intro after_wait_sane) simp_all
  also have "\<dots> = min (tcMinBackoff cfg * 2 ^ Suc n) (tcMaxBackoff cfg)"
    using Cons.prems(1,2) by (auto simp: min_def)
  finally have "after_wait cfg ?b = min (tcMinBackoff cfg * 2 ^ Suc n) (tcMaxBackoff cfg)" .
  moreover have "before_wait cfg (rdElapsed rd) ?b = ?b" using Cons.prems(4) by (simp add: before_wait_def)
  moreover have "[0..<length (rd # rds)] = 0 # map Suc [0..<length rds]" by (simp add: upt_conv_Cons map_Suc_upt del: upt_Suc)
  ultimately show ?case
    using Cons.IH [OF Cons.prems(1-3), of "Suc n"] Cons.prems(4) by (simp add: Let_def del: upt_Suc)
qed simp

text \<open>C38: Reconnection backs off as promised: every wait lies between the minimal and the maximal backoff, waits double
  up to the maximum while connections keep failing, and one that outlives the maximum resets them.\<close>

theorem backoff_doubles:
  assumes "NewTunnel cfg0 = Inr cfg" and "tcMinBackoff cfg \<le> tcMaxBackoff cfg" and "tcMaxBackoff cfg < 2 ^ 62"
  shows "(w \<in> set (fst (Run cfg rds)) \<longrightarrow> tcMinBackoff cfg \<le> w \<and> w \<le> tcMaxBackoff cfg) \<and>
         (list_all (\<lambda>rd. rdElapsed rd \<le> tcMaxBackoff cfg \<and> \<not> rdDoneAfter rd \<and> \<not> rdDoneInWait rd) rds \<longrightarrow>
            Run cfg rds = (map (\<lambda>k. min (tcMinBackoff cfg * 2 ^ k) (tcMaxBackoff cfg)) [0..<length rds], False)) \<and>
         (rdElapsed rd > tcMaxBackoff cfg \<and> \<not> rdDoneAfter rd \<longrightarrow> hd (fst (run_loop cfg (rd # rds) b)) = tcMinBackoff cfg)"
proof -
  have p: "0 < tcMinBackoff cfg"
    using assms(1) by (auto simp: NewTunnel_def defaultMinBackoff_def second_def split: if_splits)
  have m: "tcMaxBackoff cfg \<le> 2 ^ 62 - 1" using assms(3) by simp
  have start: "min (tcMinBackoff cfg * 2 ^ 0) (tcMaxBackoff cfg) = tcMinBackoff cfg" using assms(2) by simp
  show ?thesis
  proof (intro conjI impI)
    assume w: "w \<in> set (fst (Run cfg rds))"
    then show "tcMinBackoff cfg \<le> w" "w \<le> tcMaxBackoff cfg"
      using run_loop_bounds [OF p assms(2) m order_refl assms(2)] unfolding Run_def by blast+
  next
    assume "list_all (\<lambda>rd. rdElapsed rd \<le> tcMaxBackoff cfg \<and> \<not> rdDoneAfter rd \<and> \<not> rdDoneInWait rd) rds"
    from run_loop_failing [OF p assms(2) m this, of 0] show
      "Run cfg rds = (map (\<lambda>k. min (tcMinBackoff cfg * 2 ^ k) (tcMaxBackoff cfg)) [0..<length rds], False)"
      unfolding Run_def start by (simp only: add_0)
  next
    assume "rdElapsed rd > tcMaxBackoff cfg \<and> \<not> rdDoneAfter rd"
    then show "hd (fst (run_loop cfg (rd # rds) b)) = tcMinBackoff cfg"
      by (simp add: Let_def before_wait_def split: prod.split)
  qed
qed

abbreviation demo_tunnel :: TunnelConfig where
  "demo_tunnel \<equiv> \<lparr>tcRelayAddr = ''r:443'', tcToken = ''t'', tcLocalAddr = [], tcTLSConfig = None, tcMinBackoff = 0, tcMaxBackoff = 0, tcKeepAlive = 0\<rparr>"

abbreviation failing :: round where
  "failing \<equiv> \<lparr>rdElapsed = 0, rdDoneAfter = False, rdDoneInWait = False\<rparr>"

theorem backoff_doubles_witness:
  "\<exists>cfg. NewTunnel demo_tunnel = Inr cfg \<and> fst (Run cfg (replicate 6 failing)) = map (\<lambda>s. s * second) [1, 2, 4, 8, 16, 30]"
proof -
  obtain cfg where c: "NewTunnel demo_tunnel = Inr cfg" by (simp add: NewTunnel_def)
  then have v: "tcMinBackoff cfg = 1000000000" "tcMaxBackoff cfg = 30000000000"
    by (auto simp: NewTunnel_def defaultMinBackoff_def defaultMaxBackoff_def second_def)
  from backoff_doubles [OF c, of 0 "replicate 6 failing"] v
  have "fst (Run cfg (replicate 6 failing)) = map (\<lambda>k. min (1000000000 * 2 ^ k) 30000000000) [0..<6]"
    by (simp add: list_all_length)
  then show ?thesis using c by (simp add: upt_conv_Cons second_def)
qed


end
