(* ===== verification/Cmd.thy ===== *)
theory Cmd
  imports Server Tunnel
begin

text \<open>
  The command line program (\<open>cmd/valyrium/main.go\<close>, \<open>claudebin.go\<close>): the choice of a subcommand, the
  configuration each one reads from the environment, and the search for the \<open>claude\<close> CLI. The
  environment is a function that is empty at an unset variable. Signals and the blocking calls into the
  three servers are outside.
\<close>

section \<open>Reading the environment\<close>

type_synonym environ = "gostring \<Rightarrow> gostring"

definition envStr :: "environ \<Rightarrow> gostring \<Rightarrow> gostring \<Rightarrow> gostring" where
  "envStr env name fallback = (if env name \<noteq> [] then env name else fallback)"

definition envInt :: "environ \<Rightarrow> gostring \<Rightarrow> int \<Rightarrow> int" where
  "envInt env name fallback = (case Atoi (env name) of Some v \<Rightarrow> v | None \<Rightarrow> fallback)"

definition envList :: "environ \<Rightarrow> gostring \<Rightarrow> gostring \<Rightarrow> gostring list" where
  "envList env name fallback = filter (\<lambda>item. item \<noteq> []) (map TrimSpace (Split (envStr env name fallback) CHR '',''))"

text \<open>\<open>strconv.ParseBool\<close>\<close>

definition ParseBool :: "gostring \<Rightarrow> bool option" where
  "ParseBool s =
     (if s \<in> set [''1'', ''t'', ''T'', ''true'', ''TRUE'', ''True''] then Some True
      else if s \<in> set [''0'', ''f'', ''F'', ''false'', ''FALSE'', ''False''] then Some False else None)"

section \<open>serve\<close>

definition context_pair :: "gostring \<Rightarrow> (gostring \<rightharpoonup> int) \<Rightarrow> (gostring \<rightharpoonup> int)" where
  "context_pair pair m =
     (case Cut (TrimSpace pair) CHR ''='' of
        None \<Rightarrow> m
      | Some (k, lenStr) \<Rightarrow> (case Atoi (TrimSpace lenStr) of Some n \<Rightarrow> m(TrimSpace k \<mapsto> n) | None \<Rightarrow> m))"

definition context_lengths :: "gostring \<Rightarrow> (gostring \<rightharpoonup> int) \<times> int" where
  "context_lengths v =
     (if v = [] then (Map.empty, 0)
      else if Contains v ''='' then (fold context_pair (Split v CHR '','') Map.empty, 0)
      else (Map.empty, case Atoi v of Some n \<Rightarrow> n | None \<Rightarrow> 0))"

definition resume_enabled :: "gostring \<Rightarrow> bool" where
  "resume_enabled v \<longleftrightarrow> ToLower (TrimSpace v) \<in> set [''1'', ''true'', ''yes'', ''on'']"

definition serve_config :: "environ \<Rightarrow> gostring \<Rightarrow> Config" where
  "serve_config env claudeBin =
     (let (contextLengths, defaultContextLength) = context_lengths (env ''CLAUDE_GATEWAY_CONTEXT_LENGTH'')
      in \<lparr>cfPort = envInt env ''CLAUDE_GATEWAY_PORT'' 8787,
          cfHost = envStr env ''CLAUDE_GATEWAY_HOST'' ''127.0.0.1'',
          cfAPIKey = env ''CLAUDE_GATEWAY_API_KEY'',
          cfDefaultModel = envStr env ''CLAUDE_GATEWAY_MODEL'' ''sonnet'',
          cfModels = envList env ''CLAUDE_GATEWAY_MODELS'' ''sonnet,opus,haiku'',
          cfClaudeBin = claudeBin,
          cfTimeoutMS = envInt env ''CLAUDE_GATEWAY_TIMEOUT_MS'' 300000,
          cfConcurrency = envInt env ''CLAUDE_GATEWAY_CONCURRENCY'' 4,
          cfMaxSessions = envInt env ''CLAUDE_GATEWAY_MAX_SESSIONS'' 16,
          cfToolTimeoutMS = envInt env ''CLAUDE_GATEWAY_TOOL_TIMEOUT_MS'' 120000,
          cfSessionIdleMS = envInt env ''CLAUDE_GATEWAY_SESSION_IDLE_MS'' 600000,
          cfContextLengths = contextLengths,
          cfDefaultContextLength = defaultContextLength,
          cfResumeSessions = resume_enabled (env ''CLAUDE_GATEWAY_RESUME''),
          cfResumeMaxEntries = envInt env ''CLAUDE_GATEWAY_RESUME_MAX'' 32,
          cfExposeReasoning = (ParseBool (env ''CLAUDE_GATEWAY_EXPOSE_REASONING'') = Some True),
          cfUsageDB = env ''CLAUDE_GATEWAY_USAGE_DB''\<rparr>)"

section \<open>The claude CLI\<close>

record file_info =
  fiIsDir :: bool
  fiMode :: int

text \<open>What the search sees of the system: \<open>os.Stat\<close>, \<open>exec.LookPath\<close>, the home directory, the platform.\<close>

record system =
  syStat :: "gostring \<Rightarrow> file_info option"
  syLookPath :: "gostring \<Rightarrow> gostring option"
  syHome :: "gostring option"
  syWindows :: bool

definition isExecutable :: "system \<Rightarrow> gostring \<Rightarrow> bool" where
  "isExecutable sys path =
     (case syStat sys path of
        None \<Rightarrow> False
      | Some info \<Rightarrow> \<not> fiIsDir info \<and> (syWindows sys \<or> and (fiMode info) 0x49 \<noteq> 0))"

text \<open>\<open>filepath.Join\<close> of a directory without a trailing separator and plain names.\<close>

definition path_join :: "gostring list \<Rightarrow> gostring" where
  "path_join parts = Join parts ''/''"

definition candidateBinDirs :: "system \<Rightarrow> gostring list" where
  "candidateBinDirs sys =
     (case syHome sys of
        Some home \<Rightarrow> [path_join [home, ''.local'', ''bin''], path_join [home, ''.claude'', ''local'']]
      | None \<Rightarrow> []) @ [''/opt/homebrew/bin'', ''/usr/local/bin'']"

datatype bin_error = NotExecutable gostring | NotFound gostring "gostring list"

fun probe :: "system \<Rightarrow> gostring \<Rightarrow> gostring list \<Rightarrow> gostring option" where
  "probe sys bin [] = None"
| "probe sys bin (d # ds) = (if isExecutable sys (path_join [d, bin]) then Some (path_join [d, bin]) else probe sys bin ds)"

definition resolveClaudeBin :: "system \<Rightarrow> gostring \<Rightarrow> bin_error + gostring" where
  "resolveClaudeBin sys bin =
     (if CHR ''/'' \<in> set bin then (if isExecutable sys bin then Inr bin else Inl (NotExecutable bin))
      else
        (case syLookPath sys bin of
           Some path \<Rightarrow> Inr path
         | None \<Rightarrow>
             let dirs = candidateBinDirs sys
             in (case probe sys bin dirs of Some c \<Rightarrow> Inr c | None \<Rightarrow> Inl (NotFound bin dirs))))"

definition runServe :: "system \<Rightarrow> environ \<Rightarrow> bin_error + Config" where
  "runServe sys env =
     (case resolveClaudeBin sys (envStr env ''CLAUDE_GATEWAY_BIN'' ''claude'') of
        Inl err \<Rightarrow> Inl err
      | Inr claudeBin \<Rightarrow> Inr (serve_config env claudeBin))"

section \<open>relay and tunnel\<close>

definition defaultCertCacheDir :: "gostring option \<Rightarrow> gostring" where
  "defaultCertCacheDir cacheDir =
     (case cacheDir of None \<Rightarrow> ''valyrium-autocert'' | Some d \<Rightarrow> path_join [d, ''valyrium'', ''autocert''])"

definition runRelay :: "gostring option \<Rightarrow> environ \<Rightarrow> relay_config_error + Relay" where
  "runRelay cacheDir env =
     NewRelay \<lparr>rcDomain = env ''VALYRIUM_TUNNEL_DOMAIN'', rcToken = env ''VALYRIUM_TUNNEL_TOKEN'',
       rcCertCacheDir = envStr env ''VALYRIUM_TUNNEL_CERT_CACHE_DIR'' (defaultCertCacheDir cacheDir),
       rcAddr = envStr env ''VALYRIUM_TUNNEL_LISTEN_ADDR'' '':443'', rcHTTPAddr = envStr env ''VALYRIUM_TUNNEL_HTTP_ADDR'' '':80''\<rparr>"

text \<open>The tunnel, and whether the warning about an open gateway is logged.\<close>

definition runTunnel :: "environ \<Rightarrow> tunnel_config_error + TunnelConfig \<times> bool" where
  "runTunnel env =
     (case NewTunnel \<lparr>tcRelayAddr = env ''VALYRIUM_TUNNEL_RELAY_ADDR'', tcToken = env ''VALYRIUM_TUNNEL_TOKEN'',
             tcLocalAddr = envStr env ''VALYRIUM_TUNNEL_LOCAL_ADDR'' ''127.0.0.1:8787'',
             tcTLSConfig = Some \<lparr>tsNextProtos = [], tsMinVersion = 0, tsServerName = env ''VALYRIUM_TUNNEL_DOMAIN''\<rparr>,
             tcMinBackoff = 0, tcMaxBackoff = 0, tcKeepAlive = 0\<rparr> of
        Inl err \<Rightarrow> Inl err
      | Inr cfg \<Rightarrow> Inr (cfg, env ''CLAUDE_GATEWAY_API_KEY'' = []))"

section \<open>Subcommands\<close>

datatype action = PrintVersion | PrintUsage | RunCommand gostring "gostring list" | UnknownSubcommand gostring

definition commands :: "gostring list" where
  "commands = [''serve'', ''relay'', ''tunnel'']"

definition run :: "gostring list \<Rightarrow> action" where
  "run args =
     (if args \<noteq> [] \<and> hd args \<in> set [''--version'', ''-v'', ''version''] then PrintVersion
      else if args \<noteq> [] \<and> hd args \<in> set [''--help'', ''-h'', ''help''] then PrintUsage
      else
        let (name, rest) = (if args \<noteq> [] \<and> \<not> HasPrefix (hd args) ''-'' then (hd args, drop 1 args) else (''serve'', args))
        in if name \<in> set commands then RunCommand name rest else UnknownSubcommand name)"

section \<open>What the commands start from\<close>

lemma probe_Some: "probe sys bin ds = Some p \<Longrightarrow> isExecutable sys p \<and> (\<exists>d \<in> set ds. p = path_join [d, bin])"
  by (induction ds) (auto split: if_splits)

lemma probe_None: "probe sys bin ds = None \<longleftrightarrow> (\<forall>d \<in> set ds. \<not> isExecutable sys (path_join [d, bin]))"
  by (induction ds) auto

text \<open>The CLI is found at startup or the start fails: \<open>serve\<close> starts exactly when the configured path is a runnable
  file, or the bare name is on the PATH or runnable in one of the probed directories; an explicit path is
  used unchanged, and whatever else is used was found runnable.\<close>

theorem claude_bin_resolved:
  "(isl (resolveClaudeBin sys bin) \<longleftrightarrow>
      (if CHR ''/'' \<in> set bin then \<not> isExecutable sys bin
       else syLookPath sys bin = None \<and> (\<forall>d \<in> set (candidateBinDirs sys). \<not> isExecutable sys (path_join [d, bin])))) \<and>
   (resolveClaudeBin sys bin = Inr path \<longrightarrow>
      (if CHR ''/'' \<in> set bin then path = bin \<and> isExecutable sys path
       else syLookPath sys bin = Some path \<or> isExecutable sys path))"
  by (auto simp: resolveClaudeBin_def Let_def probe_None split: option.split dest: probe_Some)

theorem claude_bin_resolved_witness:
  "\<exists>sys path. resolveClaudeBin sys ''claude'' = Inr path \<and> path = ''/usr/local/bin/claude'' \<and> isExecutable sys path"
proof -
  let ?sys = "\<lparr>syStat = (\<lambda>p. if p = ''/usr/local/bin/claude'' then Some \<lparr>fiIsDir = False, fiMode = 0x1ED\<rparr> else None),
     syLookPath = (\<lambda>b. None), syHome = None, syWindows = False\<rparr>"
  have r: "resolveClaudeBin ?sys ''claude'' = Inr ''/usr/local/bin/claude''"
    by (simp add: resolveClaudeBin_def candidateBinDirs_def isExecutable_def path_join_def)
  with claude_bin_resolved [of ?sys "''claude''" "''/usr/local/bin/claude''"] have "isExecutable ?sys ''/usr/local/bin/claude''"
    by simp
  with r show ?thesis by blast
qed

text \<open>C39: Whatever the environment says, malformed, zero and negative values included, the gateway starts with at
  least one slot, at least one session, and positive tool and idle timeouts; the store of resumable
  conversations, when there is one, holds at least one entry; and no configured model id is empty. The one
  limit that is not made positive is the time for a run of the CLI and for a turn: it is the number the
  environment gives, zero and negative included, or 300000 when it gives none.\<close>

theorem limits_positive:
  assumes "runServe sys env = Inr c" and "sv = NewServer open_usage c fs"
  shows "smAvailable (svSlots sv) \<ge> 1 \<and> smMaxSessions (svSessions sv) \<ge> 1 \<and> smToolTimeoutMS (svSessions sv) \<ge> 1 \<and>
         smSessionIdleMS (svSessions sv) \<ge> 1 \<and> (svResume sv = None \<or> rsMax (the (svResume sv)) \<ge> 1) \<and>
         [] \<notin> set (cfModels (svConfig sv)) \<and> cfDefaultModel (svConfig sv) \<noteq> [] \<and>
         cfTimeoutMS (svConfig sv) = (case Atoi (env ''CLAUDE_GATEWAY_TIMEOUT_MS'') of Some v \<Rightarrow> v | None \<Rightarrow> 300000)"
proof -
  from assms(1) obtain bin where c: "c = serve_config env bin"
    by (auto simp: runServe_def split: sum.splits)
  have m: "[] \<notin> set (cfModels c)" "cfDefaultModel c \<noteq> []"
      "cfTimeoutMS c = (case Atoi (env ''CLAUDE_GATEWAY_TIMEOUT_MS'') of Some v \<Rightarrow> v | None \<Rightarrow> 300000)"
    by (auto simp: c serve_config_def envList_def envStr_def envInt_def split: prod.split)
  show ?thesis
    using m by (auto simp: assms(2) NewServer_def defaults_def NewSemaphore_def NewSessionManager_def NewResumeStore_def Let_def
        split: prod.split)
qed

theorem limits_positive_witness:
  "\<exists>sv. sv = NewServer (\<lambda>p fs. (fs, disabled :: nat UsageStore))
       (serve_config (\<lambda>n. if n = ''CLAUDE_GATEWAY_MAX_SESSIONS'' then ''-5'' else if n = ''CLAUDE_GATEWAY_TIMEOUT_MS'' then ''-1'' else []) ''/bin/claude'') Map.empty \<and>
     smMaxSessions (svSessions sv) \<ge> 1 \<and> cfTimeoutMS (svConfig sv) = - 1"
proof -
  let ?env = "\<lambda>n. if n = ''CLAUDE_GATEWAY_MAX_SESSIONS'' then ''-5'' else if n = ''CLAUDE_GATEWAY_TIMEOUT_MS'' then ''-1'' else []"
  let ?sys = "\<lparr>syStat = (\<lambda>p. None), syLookPath = (\<lambda>b. Some ''/bin/claude''), syHome = None, syWindows = False\<rparr>"
  have r: "runServe ?sys ?env = Inr (serve_config ?env ''/bin/claude'')"
    by (simp add: runServe_def resolveClaudeBin_def envStr_def)
  have "Atoi ''-1'' = Some (- 1)" by code_simp
  with limits_positive [OF r refl, of "\<lambda>p fs. (fs, disabled :: nat UsageStore)" Map.empty] show ?thesis by auto
qed

text \<open>With no arguments, or with flags only, the gateway is run.\<close>

lemma run_default: "run [] = RunCommand ''serve'' []"
  by (simp add: run_def commands_def)

end
