(* ===== verification/Spec2Isabelle.thy ===== *)
theory Spec2Isabelle
  imports MuxProps Pipe Gateway Events Cmd
begin

text \<open>
  Valyrium: an OpenAI-compatible gateway for the \<open>claude\<close> CLI, and a tunnel that publishes it.

  \<^bold>\<open>The program\<close>

  The gateway (\<open>internal/gateway\<close>) answers \<open>POST /v1/chat/completions\<close> by running the CLI. A request
  without tools is one run (\<open>RunClaude\<close>), possibly resuming the CLI session that answered the turn
  before it (\<open>resume.go\<close>). A request with tools starts a process that lives across requests
  (\<open>StartClaudeSession\<close>): its reader goroutine turns the CLI's output into events and registers the tool
  calls it announces in the session table (\<open>session.go\<close>); the handler collects events until the model
  stops for tools, answers with the calls and leaves the process parked; the CLI asks for the results
  on the gateway's MCP endpoint (\<open>mcpserver.go\<close>), where each call waits for the client's next request,
  whose tool messages resolve it. A semaphore bounds the runs, a sweeper reaps idle sessions, metrics
  and a usage ledger (\<open>metrics.go\<close>, \<open>usage.go\<close>) count the requests.

  The tunnel (\<open>internal/tunnel\<close>) carries public connections from a relay to a gateway behind a
  firewall: a framed, multiplexed connection (\<open>mux.go\<close>) that the private side dials (\<open>tunnel.go\<close>) and
  the public side serves (\<open>relay.go\<close>). \<open>cmd/valyrium\<close> reads the environment and starts one of the three.

  \<^bold>\<open>The theories\<close>

  \<^item> \<open>Prelude\<close>: outcomes (a result, a block, a panic), channel selection, 64-bit wrap-around, maps.
    \<open>GoStrings\<close>: the functions of \<open>strings\<close>, \<open>strconv\<close> and \<open>hex\<close> the code calls. \<open>Json\<close>: values, their
    encoding by \<open>json.Marshal\<close>, and its injectivity.
  \<^item> \<open>Frame\<close>, \<open>Mux\<close> (\<open>mux.go\<close>): the frame codec; connections and streams with every operation.
    \<open>MuxRun\<close>: the invariant of a connection under all operations; \<open>MuxProps\<close>: no panics, streams in order,
    bounded buffers; \<open>MuxEnd\<close>: the read loop, both ends of a stream, stream ids.
  \<^item> \<open>Relay\<close> (\<open>relay.go\<close>), \<open>Tunnel\<close> (\<open>tunnel.go\<close>): token checks on both ends, registration, routing,
    reconnection. \<open>Pipe\<close> (\<open>pipe\<close> in \<open>mux.go\<close>): the byte pipe, its three goroutines step by step.
  \<^item> \<open>Semaphore\<close> (\<open>server.go\<close>): the slots as a step relation over any number of callers, and one whole
    \<open>Acquire\<close> as the handlers see it.
  \<^item> \<open>OpenAI\<close> (\<open>openai.go\<close>): request and response types, prompt flattening, finish reasons, usage.
  \<^item> \<open>Resume\<close> (\<open>resume.go\<close>, \<open>planResumeTurn\<close>): the LRU store, fingerprints, splitting a conversation.
  \<^item> \<open>Session\<close> (\<open>session.go\<close>): the session table, one definition per critical section. \<open>SessionRun\<close>: the
    interleavings of all operations as a step relation, and its invariant; \<open>SessionProps\<close>: what follows.
  \<^item> \<open>ClaudeCli\<close> (\<open>claudecli.go\<close>): arguments, line scanning, one run, the reader of a session.
    \<open>Events\<close>: the bounded channel between reader and turns, and the way of a tool call to the client.
  \<^item> \<open>Config\<close>, \<open>Turn\<close>, \<open>Server\<close> (\<open>server.go\<close>): configuration and resolution of a request; one turn of a
    tool session; the handlers and the routes. \<open>Mcp\<close> (\<open>mcpserver.go\<close>), \<open>Formats\<close> (\<open>responseformat.go\<close>,
    \<open>contextlength.go\<close>), \<open>Metrics\<close>, \<open>Usage\<close>: the parts they call.
  \<^item> \<open>ServerProps\<close>: authorisation, the command line, event streams, accounting. \<open>Gateway\<close>: tool turns on
    the shared session table.
  \<^item> \<open>Cmd\<close> (\<open>cmd/valyrium\<close>): subcommands, the environment, the search for the CLI.

  \<^bold>\<open>How the code is modelled\<close>

  A struct is a record, a pointer that outlives its map entry is an address in a heap of the state, a
  Go map is a partial function, an \<open>int\<close> is an \<open>int\<close> with \<open>wrap64\<close> where it can overflow, a wire integer a
  word, a string a list of bytes as characters. A \<open>float64\<close> cost is a value of a type variable with a zero
  and an addition of which no law is used. An error is a value of a sum or an option. An operation that
  can block or panic returns an \<open>outcome\<close>. Closing a channel twice is recorded as a panic, and the \<open>sync.Once\<close>
  values that prevent it are part of the state. Where the code holds a mutex, the model has one step; where it
  gives the mutex up in between, it has two, and the step relations interleave them freely: the two halves
  of a registration or a resolution in the session table, the sweeper's look at a session and its reap,
  the parts of \<open>Open\<close> and \<open>Close\<close> of a stream, a relay client's admission, registration and the close
  of the one it replaces, the two parts of \<open>Acquire\<close>.

  What a definition cannot compute is an argument of it: ids and other random choices, the clock, the
  order in which a Go map is visited, the case a \<open>select\<close> takes, the result of a write to the network,
  what a CLI run writes, and what the other goroutines make of the shared tables while a handler waits
  or between two of its steps (\<open>qeBeforeReap\<close>, \<open>qeSessionsMeanwhile\<close>, \<open>qeSlots\<close>, \<open>teStarting\<close>, \<open>teMeanwhile\<close>,
  \<open>reMeanwhile\<close>, the polls of an MCP call). The theorems hold for all of these, or say what they assume; in
  \<open>Gateway\<close> the others' work is any sequence of steps of the session table (\<open>interferes\<close>), beside the sweeper
  any of those that need only a session's lock (\<open>beside_sweep\<close>). Within a handler, the look-ups of one request's
  trailing tool results, and the results it delivers one after the other, are taken without others in
  between; \<open>SessionRun\<close> interleaves those operations themselves. Parsing JSON (\<open>json.Unmarshal\<close>) and SHA-256 are
  parameters too; that two fingerprints differ is never assumed.

  Loops are structural recursions over what they consume (output lines, bytes, map keys, inputs of a
  turn, rounds of a reconnection). The read loop of a multiplexer and the frame reader recurse on the
  bytes that are left; the turns of a run on the inputs that are left. There is no fuel.

  \<^bold>\<open>What the lemmas show\<close>

  \<^item> The tool loop: no interleaving of the session table's critical sections panics; a result reaches
    exactly the parked call it answers; a parked call waits only while nothing was accepted for it in a
    live session; calls are claimed in order and once; the answers to a run's turns carry every call the
    CLI stopped for, and at any pace of reader and client the turns are the same; a session outlives its
    turn only to hand out calls; superseding and reaping remove exactly what they should, and sweeping what
    was expired when it looked; no request panics, whatever the others do, and what it can wait for is listed.
  \<^item> Plain turns: the flattened prompt is the reference transcript; the turn after a recorded one resumes
    it; the resume store is an LRU list; a fingerprint is the digest of a text that determines the
    conversation; streamed and plain answers agree; the run of the CLI succeeds exactly when it should
    and returns its last result text.
  \<^item> The server: without the key nothing is reachable but the fixed public pages and, by its id, one live
    session; no client flag reaches the command line; event streams are well formed; every chat request is
    counted once, with the usage it reports; a crash never damages the ledger and its windows add up; all
    limits but the run timeout are positive under any environment.
  \<^item> The tunnel: frames and streams round-trip, in order; no operation panics; the read loop ends or is
    blocked on one full stream; the pipe adds and loses nothing and can always come to its end; a live control
    connection is the registered one or about to be registered or closed; both ends of the handshake agree;
    waits double within their bounds.
  \<^item> What does not hold: a cancelled waiter, or one that has not reached its select, loses a slot for ever; a
    reader with more events left than its channel holds never ends; a peer can wedge the read loop; a result
    line over 64 KiB is lost; a session renewed while the sweeper looks at it is reaped.

  Interfaces are locales, each interpreted on the model's own definitions in the theory that provides
  them; the properties are stated over the definitions and rest on the interpreted facts.

  \<^bold>\<open>Not modelled\<close>

  TLS, certificates and \<open>autocert\<close>, sockets, \<open>net/http\<close> (listening, header writing, reading a request
  body), signals, log output, the ticker behind the sweeper (its interval and its sweep are modelled),
  processes and pipes (a run is what it wrote, its exit code and whether the deadline had passed), the
  directory creation of the ledger, and the contents of the dashboard's files. A ledger whose cost overflows
  to infinity, which \<open>json.Marshal\<close> refuses, is not modelled: encoding is total. Header lookups are
  values of the request.

  \<^bold>\<open>Next\<close>

  The accept loop and the forwarding of a whole tunnel connection, from the relay's public connection to
  the gateway's; the reader's registrations and the events channel in one relation with the turns.
\<close>

end
